(* ===== verification/Prelude.thy ===== *)
theory Prelude
  imports Main "HOL-Library.Multiset" "HOL-Library.Sublist"
begin

text \<open>
  Shared vocabulary of the development: the outcome of a fallible Rust function, the
  parts of the Rust standard library the sources use (\<open>Iterator::position\<close>,
  \<open>Vec::swap_remove\<close>, the min-heap \<open>BinaryHeap<Reverse<T>>\<close>), and the generic lemmas on
  lists, options and finite sets that the component theories rely on.

  \<^item> \<open>res_simps\<close> collects the rewrite rules for outcomes;
  \<^item> the locale \<open>min_heap\<close> is the contract of \<open>BinaryHeap<Reverse<T>>\<close> that the signal
    set and the proposer guard of the consensus use; it is interpreted on the heap model
    of this theory.
\<close>

named_theorems res_simps "rewrite rules for outcomes of fallible operations"

subsection \<open>Outcomes\<close>

text \<open>
  \<open>Result<T, E>\<close> with the third possibility of Rust code: a panic (\<open>panic!\<close>,
  \<open>unreachable!\<close>, \<open>unwrap\<close> on the wrong variant, an index out of range). The release
  profile aborts the process on a panic, so a panicking call has no successor state.
\<close>

datatype ('a, 'e) res = Ok 'a | Err 'e | Panic

definition res_bind :: "('a, 'e) res \<Rightarrow> ('a \<Rightarrow> ('b, 'e) res) \<Rightarrow> ('b, 'e) res" where
  "res_bind r k = (case r of Ok a \<Rightarrow> k a | Err e \<Rightarrow> Err e | Panic \<Rightarrow> Panic)"

definition res_map :: "('a \<Rightarrow> 'b) \<Rightarrow> ('a, 'e) res \<Rightarrow> ('b, 'e) res" where
  "res_map f r = (case r of Ok a \<Rightarrow> Ok (f a) | Err e \<Rightarrow> Err e | Panic \<Rightarrow> Panic)"

definition expect :: "'a option \<Rightarrow> ('a, 'e) res" where
  \<comment> \<open>\<open>Option::unwrap\<close> and \<open>Option::expect\<close>\<close>
  "expect o' = (case o' of Some a \<Rightarrow> Ok a | None \<Rightarrow> Panic)"

fun unwrap_all :: "'a option list \<Rightarrow> ('a list, 'e) res" where
  \<comment> \<open>\<open>into_iter().map(|opt| opt.unwrap()).collect()\<close>\<close>
  "unwrap_all [] = Ok []"
| "unwrap_all (x # xs) = res_bind (expect x) (\<lambda>a. res_map ((#) a) (unwrap_all xs))"

fun res_traverse :: "('a \<Rightarrow> ('b, 'e) res) \<Rightarrow> 'a list \<Rightarrow> ('b list, 'e) res" where
  \<comment> \<open>a loop that pushes one result per element and leaves at the first failure\<close>
  "res_traverse f [] = Ok []"
| "res_traverse f (x # xs) = res_bind (f x) (\<lambda>a. res_map ((#) a) (res_traverse f xs))"

definition unwrap_res :: "('a, 'e) res \<Rightarrow> ('a, 'f) res" where
  \<comment> \<open>\<open>Result::unwrap\<close> and \<open>Result::expect\<close>\<close>
  "unwrap_res r = (case r of Ok a \<Rightarrow> Ok a | Err _ \<Rightarrow> Panic | Panic \<Rightarrow> Panic)"

definition vec_index :: "'a list \<Rightarrow> nat \<Rightarrow> ('a, 'e) res" where
  \<comment> \<open>\<open>v[i]\<close> on a vector or a deque\<close>
  "vec_index xs i = (if i < length xs then Ok (xs ! i) else Panic)"

definition usize_sub :: "nat \<Rightarrow> nat \<Rightarrow> nat" where
  \<comment> \<open>\<open>a - b\<close> on \<open>usize\<close> as the release profile compiles it (\<open>overflow-checks = false\<close>)\<close>
  "usize_sub a b = (a + 2 ^ 64 - b) mod 2 ^ 64"

subsection \<open>Iterators and vectors\<close>

fun position :: "('a \<Rightarrow> bool) \<Rightarrow> 'a list \<Rightarrow> nat option" where
  \<comment> \<open>\<open>Iterator::position\<close>\<close>
  "position P [] = None"
| "position P (x # xs) = (if P x then Some 0 else map_option Suc (position P xs))"

definition swap_remove :: "'a list \<Rightarrow> nat \<Rightarrow> 'a list" where
  \<comment> \<open>\<open>Vec::swap_remove\<close> at an index in range: the last element takes the place of the
      removed one\<close>
  "swap_remove xs i = butlast (xs[i := last xs])"

definition count_some :: "'a option list \<Rightarrow> nat" where
  "count_some xs = length (filter (\<lambda>x. x \<noteq> None) xs)"

fun max_by_key :: "('a \<Rightarrow> nat) \<Rightarrow> 'a list \<Rightarrow> 'a option" where
  \<comment> \<open>\<open>Iterator::max_by_key\<close>: the last of the maximal elements\<close>
  "max_by_key f [] = None"
| "max_by_key f (x # xs) =
     (case max_by_key f xs of None \<Rightarrow> Some x | Some y \<Rightarrow> Some (if f x \<le> f y then y else x))"

subsection \<open>The min-heap\<close>

text \<open>
  \<open>BinaryHeap<Reverse<T>>\<close>: \<open>pop\<close> removes a least element, \<open>peek\<close> shows it. The order in
  which the library stores the rest is not observable, so the model keeps the elements in
  ascending order.
\<close>

definition heap_push :: "nat \<Rightarrow> nat list \<Rightarrow> nat list" where
  "heap_push x h = insort x h"

definition heap_pop :: "nat list \<Rightarrow> (nat \<times> nat list) option" where
  "heap_pop h = (case h of [] \<Rightarrow> None | x # xs \<Rightarrow> Some (x, xs))"

definition heap_peek :: "nat list \<Rightarrow> nat option" where
  "heap_peek h = (case h of [] \<Rightarrow> None | x # _ \<Rightarrow> Some x)"

locale min_heap =
  fixes empty :: "'h"
    and push :: "'a::linorder \<Rightarrow> 'h \<Rightarrow> 'h"
    and pop :: "'h \<Rightarrow> ('a \<times> 'h) option"
    and peek :: "'h \<Rightarrow> 'a option"
    and elems :: "'h \<Rightarrow> 'a multiset"
    and invar :: "'h \<Rightarrow> bool"
  assumes elems_empty: "elems empty = {#}"
    and invar_empty: "invar empty"
    and elems_push: "invar h \<Longrightarrow> elems (push x h) = add_mset x (elems h)"
    and invar_push: "invar h \<Longrightarrow> invar (push x h)"
    and pop_None: "invar h \<Longrightarrow> pop h = None \<longleftrightarrow> elems h = {#}"
    and pop_elems: "invar h \<Longrightarrow> pop h = Some (x, h') \<Longrightarrow> elems h = add_mset x (elems h')"
    and pop_least: "invar h \<Longrightarrow> pop h = Some (x, h') \<Longrightarrow> y \<in># elems h \<Longrightarrow> x \<le> y"
    and invar_pop: "invar h \<Longrightarrow> pop h = Some (x, h') \<Longrightarrow> invar h'"
    and peek_pop: "invar h \<Longrightarrow> peek h = map_option fst (pop h)"
begin

lemma pop_Some_if_elem: "invar h \<Longrightarrow> y \<in># elems h \<Longrightarrow> \<exists>x h'. pop h = Some (x, h')"
  using pop_None by (cases "pop h") auto

lemma pop_size: "invar h \<Longrightarrow> pop h = Some (x, h') \<Longrightarrow> size (elems h) = Suc (size (elems h'))"
  using pop_elems by simp

lemma pop_fresh:
  "invar h \<Longrightarrow> pop h = Some (x, h') \<Longrightarrow> count (elems h) x = 1 \<Longrightarrow> x \<notin># elems h'"
  using pop_elems by (simp add: count_eq_zero_iff)

lemma pop_below:
  assumes "invar h" and "pop h = Some (x, h')" and "\<not> x < b" and "y \<in># elems h"
  shows "\<not> y < b"
  using pop_least [OF assms(1,2,4)] assms(3) by auto

end

subsection \<open>Lemmas\<close>

lemma res_bind_simps [simp, res_simps]:
  "res_bind (Ok a) k = k a"
  "res_bind (Err e) k = Err e"
  "res_bind Panic k = Panic"
  by (simp_all add: res_bind_def)

lemma res_map_simps [simp, res_simps]:
  "res_map f (Ok a) = Ok (f a)"
  "res_map f (Err e) = Err e"
  "res_map f Panic = Panic"
  by (simp_all add: res_map_def)

lemma expect_simps [simp, res_simps]: "expect (Some a) = Ok a" "expect None = Panic"
  by (simp_all add: expect_def)

lemma unwrap_res_simps [simp, res_simps]:
  "unwrap_res (Ok a) = Ok a" "unwrap_res (Err e) = Panic" "unwrap_res Panic = Panic"
  by (simp_all add: unwrap_res_def)

lemma vec_index_less [simp]: "i < length xs \<Longrightarrow> vec_index xs i = Ok (xs ! i)"
  by (simp add: vec_index_def)

lemma usize_sub_le [simp]: "b \<le> a \<Longrightarrow> a < 2 ^ 64 \<Longrightarrow> usize_sub a b = a - b"
  using mod_add_self2 [of "a - b" "2 ^ 64"] by (simp add: usize_sub_def)

lemma res_bind_Ok_iff: "res_bind r k = Ok b \<longleftrightarrow> (\<exists>a. r = Ok a \<and> k a = Ok b)"
  by (cases r) auto

lemma unwrap_all_Ok_iff:
  "(unwrap_all xs :: ('a list, 'e) res) = Ok ys \<longleftrightarrow> xs = map Some ys"
proof (induction xs arbitrary: ys)
  case Nil
  show ?case by (cases ys) simp_all
next
  case (Cons x xs)
  show ?case
  proof (cases x)
    case None
    then show ?thesis by (cases ys) simp_all
  next
    case (Some a)
    have "(unwrap_all (x # xs) :: ('a list, 'e) res) = Ok ys \<longleftrightarrow>
        (\<exists>zs. (unwrap_all xs :: ('a list, 'e) res) = Ok zs \<and> ys = a # zs)"
      unfolding Some by (cases "unwrap_all xs :: ('a list, 'e) res") auto
    also have "\<dots> \<longleftrightarrow> x # xs = map Some ys"
      unfolding Some Cons.IH by (cases ys) auto
    finally show ?thesis .
  qed
qed

lemma unwrap_all_map_Some [simp]: "unwrap_all (map Some ys) = Ok ys"
  by (simp add: unwrap_all_Ok_iff)

lemma unwrap_all_not_Err: "(unwrap_all xs :: ('a list, 'e) res) \<noteq> Err e"
proof (induction xs)
  case (Cons x xs)
  then show ?case
    by (cases x; cases "unwrap_all xs :: ('a list, 'e) res") simp_all
qed simp

lemma position_Some_iff:
  "position P xs = Some i \<longleftrightarrow> i < length xs \<and> P (xs ! i) \<and> (\<forall>j<i. \<not> P (xs ! j))"
proof (induction xs arbitrary: i)
  case (Cons x xs)
  show ?case
    using Cons by (cases i) (simp_all add: All_less_Suc2)
qed simp

lemma position_None_iff: "position P xs = None \<longleftrightarrow> (\<forall>x\<in>set xs. \<not> P x)"
  by (induction xs) auto

lemma position_eq_Some:
  "distinct xs \<Longrightarrow> i < length xs \<Longrightarrow> position (\<lambda>y. y = xs ! i) xs = Some i"
  by (auto simp: position_Some_iff nth_eq_iff_index_eq)

lemma position_eq_exists: "x \<in> set xs \<Longrightarrow> \<exists>i. position (\<lambda>y. y = x) xs = Some i"
  using position_None_iff [of "\<lambda>y. y = x" xs] by auto

lemma length_swap_remove [simp]: "length (swap_remove xs i) = length xs - 1"
  by (simp add: swap_remove_def)

lemma mset_swap_remove:
  assumes "i < length xs"
  shows "add_mset (xs ! i) (mset (swap_remove xs i)) = mset xs"
proof -
  from assms have ne: "xs \<noteq> []" by auto
  obtain ys y where xs: "xs = ys @ [y]" using ne by (cases xs rule: rev_cases) auto
  show ?thesis
  proof (cases "i = length ys")
    case True
    then show ?thesis by (simp add: swap_remove_def xs list_update_append)
  next
    case False
    with assms xs have i: "i < length ys" by simp
    then have "mset (ys[i := y]) = mset ys - {#ys ! i#} + {#y#}"
      by (simp add: mset_update)
    moreover have "ys ! i \<in># mset ys" using i by simp
    ultimately show ?thesis
      using i by (simp add: swap_remove_def xs list_update_append nth_append butlast_append)
  qed
qed

lemma count_some_Nil [simp]: "count_some [] = 0"
  by (simp add: count_some_def)

lemma count_some_le: "count_some xs \<le> length xs"
  by (simp add: count_some_def)

lemma count_some_replicate [simp]: "count_some (replicate n None) = 0"
  by (simp add: count_some_def)

lemma count_some_full: "count_some xs = length xs \<Longrightarrow> \<exists>ys. xs = map Some ys"
proof (induction xs)
  case (Cons x xs)
  show ?case
  proof (cases x)
    case None
    with Cons.prems count_some_le [of xs] show ?thesis by (simp add: count_some_def)
  next
    case (Some a)
    with Cons obtain ys where "xs = map Some ys" by (auto simp: count_some_def)
    with Some have "x # xs = map Some (a # ys)" by simp
    then show ?thesis by (rule exI)
  qed
qed simp

lemma count_some_update:
  "i < length xs \<Longrightarrow> xs ! i = None \<Longrightarrow> count_some (xs[i := Some a]) = Suc (count_some xs)"
proof (induction xs arbitrary: i)
  case (Cons x xs)
  then show ?case by (cases i) (auto simp: count_some_def)
qed simp

lemma max_by_key_Some:
  "max_by_key f xs = Some x \<Longrightarrow> x \<in> set xs \<and> (\<forall>y\<in>set xs. f y \<le> f x)"
proof (induction xs arbitrary: x)
  case (Cons a xs)
  show ?case
  proof (cases "max_by_key f xs")
    case None
    with Cons.prems show ?thesis by (cases xs) (auto split: option.splits)
  next
    case (Some y)
    with Cons.IH [OF Some] Cons.prems show ?thesis
      by (auto split: if_splits intro: order_trans)
  qed
qed simp

lemma max_by_key_None [simp]: "max_by_key f xs = None \<longleftrightarrow> xs = []"
  by (cases xs) (auto split: option.splits)

lemma card_le_length_members:
  "distinct ms \<Longrightarrow> A \<subseteq> set ms \<Longrightarrow> card A \<le> length ms"
  by (metis List.finite_set card_mono distinct_card)

interpretation bh: min_heap "[]" heap_push heap_pop heap_peek mset sorted
proof (unfold_locales, goal_cases)
  case (5 h)
  then show ?case by (simp add: heap_pop_def split: list.splits)
next
  case (6 h x h')
  then show ?case by (auto simp: heap_pop_def split: list.splits)
next
  case (7 h x h' y)
  then show ?case by (auto simp: heap_pop_def split: list.splits)
next
  case (8 h x h')
  then show ?case by (auto simp: heap_pop_def split: list.splits)
next
  case (9 h)
  then show ?case by (simp add: heap_pop_def heap_peek_def split: list.splits)
qed (simp_all add: heap_push_def sorted_insort)

end
