(* ===== verification/Atlas.thy ===== *)
theory Atlas
  imports Prelude "HOL-Library.Word"
begin

text \<open>
  The interface of the Atlas crates (\<open>atlas_common\<close>, \<open>atlas_communication\<close>,
  \<open>atlas_core\<close>) and of \<open>num_bigint\<close>, whose code is not part of the repository.

  \<^item> Data the crates hand over is represented by what its accessors return: a \<open>Header\<close>
    by its sender and its two digests, a request by its session, its sequence number and
    an opaque payload, \<open>SystemParams\<close> by \<open>n\<close>, \<open>f\<close> and the quorum size. A \<open>SeqNo\<close> is a
    finite totally ordered value, carried by the naturals in its order; a \<open>Digest\<close> is the
    bytes it exposes.
  \<^item> Functions of the crates are the fields of the record \<open>atlas\<close>, which every
    definition that uses one takes as an argument. Nothing is assumed about them here.
  \<^item> What the crates document of those functions is stated as named predicates
    (\<open>seq_laws\<close>, \<open>params_laws\<close>, \<open>bytes_be_laws\<close>, \<open>targets_law\<close>), which the theorems that
    rely on them take as hypotheses. \<open>sample_atlas\<close> is one concrete instance on which the
    witnesses discharge them.
\<close>

type_synonym SeqNo = nat
type_synonym NodeId = nat
type_synonym byte = "8 word"
type_synonym Digest = "byte list"
type_synonym BigUint = nat

datatype Header = Header (hdr_from: NodeId) (hdr_digest: Digest) (hdr_unique_digest: Digest)

datatype 'm StoredMessage = StoredMessage (hdr: Header) (msg: 'm)

datatype 'o Request = Request (rq_session: SeqNo) (rq_seq: SeqNo) (rq_payload: 'o)

datatype ClientRqInfo = ClientRqInfo (cri_digest: Digest) (cri_sender: NodeId)
  (cri_seq_no: SeqNo) (cri_session: SeqNo)

datatype SystemParams = SystemParams (sp_n: nat) (sp_f: nat) (sp_quorum: nat)

record atlas =
  ZERO :: SeqNo
  ONE :: SeqNo
  next_seq :: "SeqNo \<Rightarrow> SeqNo"
  prev_seq :: "SeqNo \<Rightarrow> SeqNo"
  add_seq :: "SeqNo \<Rightarrow> SeqNo \<Rightarrow> SeqNo"
  index_seq :: "SeqNo \<Rightarrow> SeqNo \<Rightarrow> unit + nat"
  seq_of_u32 :: "nat \<Rightarrow> SeqNo"
  u32_of_seq :: "SeqNo \<Rightarrow> nat"
  usize_of_seq :: "SeqNo \<Rightarrow> nat"
  system_params :: "nat \<Rightarrow> nat \<Rightarrow> SystemParams option"
  node_targets :: "nat \<Rightarrow> nat \<Rightarrow> NodeId list"
  digest_LENGTH :: nat
  from_bytes_be :: "byte list \<Rightarrow> BigUint"
  to_bytes_be :: "BigUint \<Rightarrow> byte list"
  hash_chunks :: "byte list list \<Rightarrow> Digest"
  rq_info_of :: "Header \<Rightarrow> SeqNo \<Rightarrow> SeqNo \<Rightarrow> ClientRqInfo"

abbreviation seq_at :: "atlas \<Rightarrow> SeqNo \<Rightarrow> nat \<Rightarrow> SeqNo" where
  "seq_at A s i \<equiv> (next_seq A ^^ i) s"

definition rq_info :: "atlas \<Rightarrow> 'o Request StoredMessage \<Rightarrow> ClientRqInfo" where
  \<comment> \<open>\<open>ClientRqInfo::from(&StoredMessage<O>)\<close>: it sees the header and the session based
      accessors of the request\<close>
  "rq_info A m = rq_info_of A (hdr m) (rq_seq (msg m)) (rq_session (msg m))"

subsection \<open>Documented behaviour\<close>

text \<open>
  \<open>SeqNo::index\<close> is the distance from another sequence number (\<open>Either::Right\<close>), for the
  distances of a window of at least \<open>W\<close>; adding \<open>SeqNo::ONE\<close> is \<open>next\<close>.
\<close>

definition seq_laws :: "atlas \<Rightarrow> nat \<Rightarrow> bool" where
  "seq_laws A W \<longleftrightarrow>
     (\<forall>a b i. index_seq A a b = Inr i \<longrightarrow> a = seq_at A b i) \<and>
     (\<forall>b i. i < W \<longrightarrow> index_seq A (seq_at A b i) b = Inr i) \<and>
     (\<forall>s. add_seq A s (ONE A) = next_seq A s)"

text \<open>\<open>SystemParams::new\<close> rejects \<open>n < 3f + 1\<close> and its quorum is \<open>2f + 1\<close>.\<close>

definition params_laws :: "atlas \<Rightarrow> bool" where
  "params_laws A \<longleftrightarrow>
     (\<forall>n f. system_params A n f =
        (if 3 * f + 1 \<le> n then Some (SystemParams n f (2 * f + 1)) else None))"

definition targets_law :: "atlas \<Rightarrow> bool" where
  "targets_law A \<longleftrightarrow> (\<forall>lo hi. node_targets A lo hi = [lo..<hi])"

text \<open>\<open>BigUint::from_bytes_be\<close> reads big-endian bytes, \<open>to_bytes_be\<close> writes them.\<close>

definition bytes_be_value :: "byte list \<Rightarrow> nat" where
  "bytes_be_value bs = foldl (\<lambda>a b. a * 256 + unat b) 0 bs"

definition bytes_be_laws :: "atlas \<Rightarrow> bool" where
  "bytes_be_laws A \<longleftrightarrow>
     (\<forall>bs. from_bytes_be A bs = bytes_be_value bs) \<and>
     (\<forall>n. from_bytes_be A (to_bytes_be A n) = n)"

definition rq_info_law :: "atlas \<Rightarrow> bool" where
  "rq_info_law A \<longleftrightarrow>
     (\<forall>h s t. rq_info_of A h s t = ClientRqInfo (hdr_unique_digest h) (hdr_from h) s t)"

subsection \<open>A concrete instance\<close>

fun be_bytes :: "nat \<Rightarrow> byte list" where
  "be_bytes n = (if n < 256 then [of_nat n] else be_bytes (n div 256) @ [of_nat (n mod 256)])"

declare be_bytes.simps [simp del]

definition sample_atlas :: atlas where
  "sample_atlas = \<lparr>
     ZERO = 0, ONE = 1, next_seq = Suc, prev_seq = (\<lambda>s. s - 1), add_seq = (+),
     index_seq = (\<lambda>a b. if b \<le> a then Inr (a - b) else Inl ()),
     seq_of_u32 = id, u32_of_seq = id, usize_of_seq = id,
     system_params = (\<lambda>n f. if 3 * f + 1 \<le> n then Some (SystemParams n f (2 * f + 1)) else None),
     node_targets = (\<lambda>lo hi. [lo..<hi]),
     digest_LENGTH = 1,
     from_bytes_be = bytes_be_value,
     to_bytes_be = be_bytes,
     hash_chunks = concat,
     rq_info_of = (\<lambda>h s t. ClientRqInfo (hdr_unique_digest h) (hdr_from h) s t)\<rparr>"

subsection \<open>Lemmas\<close>

lemma seq_laws_mono: "seq_laws A W \<Longrightarrow> V \<le> W \<Longrightarrow> seq_laws A V"
  by (auto simp: seq_laws_def)

lemma index_seq_exact: "seq_laws A W \<Longrightarrow> index_seq A a b = Inr i \<Longrightarrow> a = seq_at A b i"
  by (auto simp: seq_laws_def)

lemma index_seq_window: "seq_laws A W \<Longrightarrow> i < W \<Longrightarrow> index_seq A (seq_at A b i) b = Inr i"
  by (auto simp: seq_laws_def)

lemma index_seq_self: "seq_laws A W \<Longrightarrow> 0 < W \<Longrightarrow> index_seq A b b = Inr 0"
  using index_seq_window [of A W 0 b] by simp

lemma add_ONE: "seq_laws A W \<Longrightarrow> add_seq A s (ONE A) = next_seq A s"
  by (simp add: seq_laws_def)

lemma seq_at_inj:
  assumes "seq_laws A W" and "i < W" and "j < W" and "seq_at A b i = seq_at A b j"
  shows "i = j"
  using index_seq_window [OF assms(1,2), of b] index_seq_window [OF assms(1,3), of b]
  unfolding assms(4) by simp

lemma index_seq_at_iff:
  "seq_laws A W \<Longrightarrow> i < W \<Longrightarrow> index_seq A a b = Inr i \<longleftrightarrow> a = seq_at A b i"
  by (blast intro: index_seq_exact index_seq_window)

lemma from_bytes_be_to_bytes_be: "bytes_be_laws A \<Longrightarrow> from_bytes_be A (to_bytes_be A n) = n"
  unfolding bytes_be_laws_def by blast

lemma from_bytes_be_value: "bytes_be_laws A \<Longrightarrow> from_bytes_be A bs = bytes_be_value bs"
  by (simp add: bytes_be_laws_def)

lemma bytes_be_value_append:
  "bytes_be_value (xs @ [b]) = bytes_be_value xs * 256 + unat b"
  by (simp add: bytes_be_value_def)

lemma bytes_be_value_less: "bytes_be_value bs < 256 ^ length bs"
proof (induction bs rule: rev_induct)
  case (snoc b bs)
  have "unat b < 256" using unsigned_less [of b] by simp
  then have "bytes_be_value bs * 256 + unat b < (bytes_be_value bs + 1) * 256" by simp
  also have "\<dots> \<le> 256 ^ length bs * 256" using snoc by (intro mult_right_mono) simp_all
  finally show ?case by (simp add: bytes_be_value_append mult.commute)
qed (simp add: bytes_be_value_def)

lemma bytes_be_value_ones: "bytes_be_value (replicate k 255) = 256 ^ k - 1"
proof (induction k)
  case (Suc k)
  have "bytes_be_value (replicate (Suc k) 255) = (256 ^ k - 1) * 256 + 255"
    using Suc by (simp flip: replicate_append_same add: bytes_be_value_append)
  also have "\<dots> = 256 ^ Suc k - 1"
    by (simp add: diff_mult_distrib algebra_simps)
  finally show ?case .
qed (simp add: bytes_be_value_def)

lemma bytes_be_value_be_bytes: "bytes_be_value (be_bytes n) = n"
proof (induction n rule: be_bytes.induct)
  case (1 n)
  show ?case
  proof (cases "n < 256")
    case True
    then show ?thesis
      by (subst be_bytes.simps) (simp add: bytes_be_value_def unat_of_nat)
  next
    case False
    with 1 show ?thesis
      by (subst be_bytes.simps) (simp add: bytes_be_value_append unat_of_nat)
  qed
qed

lemma Suc_funpow_add: "(Suc ^^ i) n = n + i"
  by (induction i) auto

lemma sample_atlas_simps [simp]:
  "ZERO sample_atlas = 0" "ONE sample_atlas = 1" "next_seq sample_atlas = Suc"
  "prev_seq sample_atlas s = s - 1" "add_seq sample_atlas = (+)"
  "index_seq sample_atlas a b = (if b \<le> a then Inr (a - b) else Inl ())"
  "seq_of_u32 sample_atlas = id" "u32_of_seq sample_atlas = id" "usize_of_seq sample_atlas = id"
  "system_params sample_atlas n f =
     (if 3 * f + 1 \<le> n then Some (SystemParams n f (2 * f + 1)) else None)"
  "node_targets sample_atlas lo hi = [lo..<hi]" "digest_LENGTH sample_atlas = 1"
  "from_bytes_be sample_atlas = bytes_be_value" "to_bytes_be sample_atlas = be_bytes"
  "hash_chunks sample_atlas = concat"
  "rq_info_of sample_atlas h s t = ClientRqInfo (hdr_unique_digest h) (hdr_from h) s t"
  by (simp_all add: sample_atlas_def)

lemma sample_seq_laws [simp]: "seq_laws sample_atlas W"
  by (simp add: seq_laws_def sample_atlas_def Suc_funpow_add)

lemma sample_params_laws [simp]: "params_laws sample_atlas"
  by (simp add: params_laws_def)

lemma sample_targets_law [simp]: "targets_law sample_atlas"
  by (simp add: targets_law_def sample_atlas_def)

lemma sample_bytes_be_laws [simp]: "bytes_be_laws sample_atlas"
  by (simp add: bytes_be_laws_def sample_atlas_def bytes_be_value_be_bytes)

lemma sample_rq_info_law [simp]: "rq_info_law sample_atlas"
  by (simp add: rq_info_law_def sample_atlas_def)

end
