(* ===== verification/Views.thy ===== *)
theory Views
  imports Atlas
begin

text \<open>
  Views (\<open>bft/sync/view/mod.rs\<close>): \<open>ViewInfo\<close>, its constructors, the successor and
  predecessor views, the leader, and the division of the digest space among the leaders of
  a view. A constructor returns \<open>Err\<close> where the code returns an error and \<open>Panic\<close> where an
  index, a division or an \<open>unwrap\<close> panics.

  Shown: the division assigns every digest to exactly one slice and, through the map of
  leaders, to exactly one leader; every constructor establishes \<open>wf_view\<close>; the leader of
  a well-formed view is defined, is a member and heads the leader set.
\<close>

datatype ViewError = LeaderNotInQuorum NodeId "NodeId list" | InvalidSystemParams

record ViewInfo =
  vi_seq :: SeqNo
  vi_quorum_members :: "NodeId list"
  vi_leader_set :: "NodeId list"
  vi_leader_hash_space_division :: "NodeId \<rightharpoonup> byte list \<times> byte list"
  vi_params :: SystemParams

definition LEADER_COUNT :: nat where
  "LEADER_COUNT = 1"

definition view_quorum :: "ViewInfo \<Rightarrow> nat" where
  "view_quorum v = sp_quorum (vi_params v)"

definition view_f :: "ViewInfo \<Rightarrow> nat" where
  "view_f v = sp_f (vi_params v)"

definition view_n :: "ViewInfo \<Rightarrow> nat" where
  "view_n v = sp_n (vi_params v)"

subsection \<open>The hash space\<close>

fun divide_slices :: "atlas \<Rightarrow> nat \<Rightarrow> BigUint \<Rightarrow> BigUint \<Rightarrow> nat list \<Rightarrow> BigUint
    \<Rightarrow> (byte list \<times> byte list) list" where
  \<comment> \<open>the loop over \<open>i\<close> in \<open>1..=count\<close>; the last argument is the running \<open>start\<close>\<close>
  "divide_slices A cnt end_bi increment [] start = []"
| "divide_slices A cnt end_bi increment (i # is) start =
     (let slice_start = to_bytes_be A start;
          start' = start + increment;
          slice_end = (if i = cnt then to_bytes_be A end_bi else to_bytes_be A start')
      in (slice_start, slice_end) # divide_slices A cnt end_bi increment is (start' + 1))"

definition divide_hash_space ::
    "atlas \<Rightarrow> nat \<Rightarrow> nat \<Rightarrow> ((byte list \<times> byte list) list, ViewError) res" where
  "divide_hash_space A size_bytes cnt =
     (let last_hash = replicate size_bytes 255;
          end_bi = from_bytes_be A last_hash
      in if cnt = 0 then Panic
         else Ok (divide_slices A cnt end_bi (end_bi div cnt) [1..<Suc cnt] 0))"

definition calculate_hash_space_division ::
    "atlas \<Rightarrow> NodeId list \<Rightarrow> (NodeId \<rightharpoonup> byte list \<times> byte list, ViewError) res" where
  "calculate_hash_space_division A leader_set =
     res_bind (divide_hash_space A (digest_LENGTH A) (length leader_set))
       (\<lambda>slices. Ok (foldl (\<lambda>m (leader_id, slice). m(leader_set ! leader_id \<mapsto> slice))
                       Map.empty (enumerate 0 slices)))"

definition is_request_in_hash_space :: "atlas \<Rightarrow> Digest \<Rightarrow> byte list \<times> byte list \<Rightarrow> bool" where
  "is_request_in_hash_space A rq hash_space =
     (let start_bi = from_bytes_be A (fst hash_space);
          end_bi = from_bytes_be A (snd hash_space);
          rq_digest = from_bytes_be A rq
      in start_bi \<le> rq_digest \<and> rq_digest \<le> end_bi)"

subsection \<open>Constructors\<close>

definition member_at :: "NodeId list \<Rightarrow> nat \<Rightarrow> nat \<Rightarrow> (NodeId, ViewError) res" where
  \<comment> \<open>\<open>quorum_members[k % n]\<close>\<close>
  "member_at members k n = (if n = 0 then Panic else vec_index members (k mod n))"

definition designated_leaders ::
    "atlas \<Rightarrow> SeqNo \<Rightarrow> nat \<Rightarrow> NodeId list \<Rightarrow> (NodeId list, ViewError) res" where
  "designated_leaders A seq n members =
     res_bind (member_at members (usize_of_seq A seq) n) (\<lambda>destined_leader.
       res_map ((#) destined_leader)
         (res_traverse (\<lambda>i. member_at members (usize_of_seq A seq + i) n) [1..<LEADER_COUNT]))"

definition ViewInfo_new :: "atlas \<Rightarrow> SeqNo \<Rightarrow> nat \<Rightarrow> nat \<Rightarrow> (ViewInfo, ViewError) res" where
  "ViewInfo_new A seq n f =
     (case system_params A n f of
        None \<Rightarrow> Err InvalidSystemParams
      | Some params \<Rightarrow>
          let quorum_members = node_targets A 0 (n mod 2 ^ 32) in
          res_bind (designated_leaders A seq n quorum_members) (\<lambda>leader_set.
          res_bind (calculate_hash_space_division A leader_set) (\<lambda>division.
            Ok \<lparr>vi_seq = seq, vi_quorum_members = quorum_members, vi_leader_set = leader_set,
                vi_leader_hash_space_division = division, vi_params = params\<rparr>)))"

definition from_quorum :: "atlas \<Rightarrow> SeqNo \<Rightarrow> NodeId list \<Rightarrow> (ViewInfo, ViewError) res" where
  "from_quorum A seq quorum_members =
     (let n = length quorum_members; f = usize_sub n 1 div 3 in
      case system_params A n f of
        None \<Rightarrow> Err InvalidSystemParams
      | Some params \<Rightarrow>
          res_bind (designated_leaders A seq n quorum_members) (\<lambda>leader_set.
          res_bind (calculate_hash_space_division A leader_set) (\<lambda>division.
            Ok \<lparr>vi_seq = seq, vi_quorum_members = quorum_members, vi_leader_set = leader_set,
                vi_leader_hash_space_division = division, vi_params = params\<rparr>)))"

definition with_leader_set :: "atlas \<Rightarrow> SeqNo \<Rightarrow> nat \<Rightarrow> nat \<Rightarrow> NodeId list \<Rightarrow> NodeId list
    \<Rightarrow> (ViewInfo, ViewError) res" where
  "with_leader_set A seq n f quorum_participants leader_set =
     (case system_params A n f of
        None \<Rightarrow> Err InvalidSystemParams
      | Some params \<Rightarrow>
          (case find (\<lambda>x. x \<notin> set quorum_participants) leader_set of
             Some x \<Rightarrow> Err (LeaderNotInQuorum x quorum_participants)
           | None \<Rightarrow>
               res_bind (calculate_hash_space_division A leader_set) (\<lambda>division.
                 Ok \<lparr>vi_seq = seq, vi_quorum_members = quorum_participants,
                     vi_leader_set = leader_set, vi_leader_hash_space_division = division,
                     vi_params = params\<rparr>)))"

subsection \<open>Neighbouring views and the leader\<close>

definition next_view :: "atlas \<Rightarrow> ViewInfo \<Rightarrow> (ViewInfo, 'e) res" where
  "next_view A v = unwrap_res (ViewInfo_new A (next_seq A (vi_seq v)) (view_n v) (view_f v))"

definition next_view_with_new_node :: "atlas \<Rightarrow> ViewInfo \<Rightarrow> NodeId \<Rightarrow> (ViewInfo, 'e) res" where
  "next_view_with_new_node A v joined_node =
     unwrap_res (from_quorum A (next_seq A (vi_seq v)) (vi_quorum_members v @ [joined_node]))"

definition previous_view :: "atlas \<Rightarrow> ViewInfo \<Rightarrow> (ViewInfo option, 'e) res" where
  "previous_view A v =
     (if vi_seq v = ZERO A then Ok None
      else res_map Some (unwrap_res (ViewInfo_new A (prev_seq A (vi_seq v)) (view_n v) (view_f v))))"

definition peek :: "atlas \<Rightarrow> ViewInfo \<Rightarrow> SeqNo \<Rightarrow> (ViewInfo, 'e) res" where
  "peek A v seq = unwrap_res (ViewInfo_new A seq (view_n v) (view_f v))"

definition leader :: "atlas \<Rightarrow> ViewInfo \<Rightarrow> (NodeId, 'e) res" where
  "leader A v = unwrap_res (member_at (vi_quorum_members v) (usize_of_seq A (vi_seq v)) (view_n v))"

text \<open>The invariant of a view: its parameters fit its members and its leaders are members.\<close>

definition wf_view :: "ViewInfo \<Rightarrow> bool" where
  "wf_view v \<longleftrightarrow>
     0 < view_n v \<and> length (vi_quorum_members v) = view_n v \<and>
     vi_leader_set v \<noteq> [] \<and> set (vi_leader_set v) \<subseteq> set (vi_quorum_members v) \<and>
     dom (vi_leader_hash_space_division v) = set (vi_leader_set v) \<and>
     view_quorum v = 2 * view_f v + 1 \<and> 3 * view_f v + 1 \<le> view_n v"

subsection \<open>The division of the hash space\<close>

lemma divide_slices_length [simp]: "length (divide_slices A c e k is s) = length is"
  by (induction "is" arbitrary: s) (simp_all add: Let_def)

lemma divide_slices_nth:
  "j < length is \<Longrightarrow>
   divide_slices A c e k is s ! j =
     (to_bytes_be A (s + j * (k + 1)),
      if is ! j = c then to_bytes_be A e else to_bytes_be A (s + j * (k + 1) + k))"
proof (induction "is" arbitrary: s j)
  case (Cons i "is")
  then show ?case by (cases j) (simp_all add: Let_def algebra_simps)
qed simp

lemma divide_slices_in:
  assumes "bytes_be_laws A" and "j < c"
  shows "is_request_in_hash_space A d (divide_slices A c e k [1..<Suc c] 0 ! j) \<longleftrightarrow>
    j * (k + 1) \<le> from_bytes_be A d \<and>
    from_bytes_be A d \<le> (if Suc j = c then e else j * (k + 1) + k)"
  using assms divide_slices_nth [of j "[1..<Suc c]" A c e k 0]
  by (simp add: is_request_in_hash_space_def from_bytes_be_to_bytes_be Let_def del: upt_Suc)

lemma slice_index_unique:
  fixes x k e :: nat
  assumes c: "0 < c" and x: "x \<le> e" and k: "k = e div c"
  shows "\<exists>!j. j < c \<and> j * (k + 1) \<le> x \<and> x \<le> (if Suc j = c then e else j * (k + 1) + k)"
proof (intro ex1I)
  define j where "j = min (x div (k + 1)) (c - 1)"
  have "j * (k + 1) \<le> x div (k + 1) * (k + 1)" unfolding j_def by (intro mult_right_mono) simp_all
  also have "\<dots> \<le> x" by (rule div_times_less_eq_dividend)
  finally have "j * (k + 1) \<le> x" .
  moreover have "x \<le> j * (k + 1) + k" if "Suc j \<noteq> c"
  proof -
    have "x < (x div (k + 1) + 1) * (k + 1)"
      using dividend_less_div_times [of "k + 1" x] by simp
    moreover have "x div (k + 1) = j" using that c by (auto simp: j_def)
    ultimately show ?thesis by simp
  qed
  moreover have "j < c" using c by (simp add: j_def)
  ultimately show "j < c \<and> j * (k + 1) \<le> x \<and> x \<le> (if Suc j = c then e else j * (k + 1) + k)"
    using x by simp
next
  fix j
  assume j: "j < c \<and> j * (k + 1) \<le> x \<and> x \<le> (if Suc j = c then e else j * (k + 1) + k)"
  then have "j \<le> x div (k + 1)" by (simp add: less_eq_div_iff_mult_less_eq)
  show "j = min (x div (k + 1)) (c - 1)"
  proof (cases "Suc j = c")
    case True
    with \<open>j \<le> x div (k + 1)\<close> show ?thesis by auto
  next
    case False
    with j have "x < (j + 1) * (k + 1)" by (simp add: algebra_simps)
    then have "x div (k + 1) < j + 1" by (simp add: div_less_iff_less_mult)
    with \<open>j \<le> x div (k + 1)\<close> False j show ?thesis by auto
  qed
qed

lemma foldl_enumerate:
  "foldl (\<lambda>m (i, s). h m i s) m0 (enumerate k ss) =
   foldl (\<lambda>m j. h m (k + j) (ss ! j)) m0 [0..<length ss]"
proof (induction ss rule: rev_induct)
  case (snoc s ss)
  have "foldl (\<lambda>m j. h m (k + j) ((ss @ [s]) ! j)) m0 [0..<length ss] =
      foldl (\<lambda>m j. h m (k + j) (ss ! j)) m0 [0..<length ss]"
    by (rule foldl_cong) (simp_all add: nth_append)
  with snoc show ?case by (simp add: enumerate_append_eq)
qed simp

lemma upd_range_dom:
  "dom (foldl (\<lambda>m j. m(ls ! j \<mapsto> ss ! j)) m0 [0..<n]) = dom m0 \<union> (!) ls ` {..<n}"
  by (induction n) (simp_all add: lessThan_Suc del: fun_upd_apply)

lemma upd_range_lookup:
  "distinct ls \<Longrightarrow> n \<le> length ls \<Longrightarrow> j < n \<Longrightarrow>
   foldl (\<lambda>m i. m(ls ! i \<mapsto> ss ! i)) m0 [0..<n] (ls ! j) = Some (ss ! j)"
proof (induction n)
  case (Suc n)
  then show ?case by (cases "j = n") (simp_all add: nth_eq_iff_index_eq)
qed simp

lemma calculate_hash_space_division_Ok:
  assumes "ls \<noteq> []"
  obtains m where "calculate_hash_space_division A ls = Ok m" and "dom m = set ls"
    and "\<And>j e. distinct ls \<Longrightarrow> j < length ls \<Longrightarrow> e = from_bytes_be A (replicate (digest_LENGTH A) 255) \<Longrightarrow>
           m (ls ! j) = Some (divide_slices A (length ls) e (e div length ls) [1..<Suc (length ls)] 0 ! j)"
proof -
  let ?e = "from_bytes_be A (replicate (digest_LENGTH A) 255)"
  let ?ss = "divide_slices A (length ls) ?e (?e div length ls) [1..<Suc (length ls)] 0"
  let ?m = "foldl (\<lambda>m j. m(ls ! j \<mapsto> ?ss ! j)) Map.empty [0..<length ls]"
  have "calculate_hash_space_division A ls = Ok ?m"
    using assms foldl_enumerate [of "\<lambda>m i s. m(ls ! i \<mapsto> s)" Map.empty 0 ?ss]
    by (simp add: calculate_hash_space_division_def divide_hash_space_def Let_def del: upt_Suc)
  moreover have "dom ?m = set ls"
    by (auto simp: upd_range_dom set_conv_nth)
  moreover have "?m (ls ! j) = Some (?ss ! j)" if "distinct ls" "j < length ls" for j
    using that by (intro upd_range_lookup) simp_all
  ultimately show ?thesis using that by blast
qed

lemma ex1_nth_member:
  assumes "\<exists>!j. j < length ls \<and> P j" and "\<And>j. j < length ls \<Longrightarrow> Q (ls ! j) = P j"
  shows "\<exists>!l. l \<in> set ls \<and> Q l"
proof -
  obtain j where "j < length ls" "P j" and u: "\<And>i. i < length ls \<Longrightarrow> P i \<Longrightarrow> i = j"
    using assms(1) by blast
  then show ?thesis
    using assms(2) by (intro ex1I [of _ "ls ! j"]) (metis nth_mem, metis in_set_conv_nth)
qed

text \<open>
  C39. The division of the hash space is a partition: for any non-empty set of distinct
  leaders, however many, every digest of the division's width lies in the slice of exactly
  one leader.
\<close>

theorem hash_space_partition:
  assumes laws: "bytes_be_laws A" and "ls \<noteq> []" and "distinct ls"
    and d: "length d = digest_LENGTH A"
  shows "\<exists>m. calculate_hash_space_division A ls = Ok m \<and>
    (\<exists>!l. l \<in> set ls \<and> (\<exists>s. m l = Some s \<and> is_request_in_hash_space A d s))"
proof -
  let ?e = "from_bytes_be A (replicate (digest_LENGTH A) 255)"
  let ?ss = "divide_slices A (length ls) ?e (?e div length ls) [1..<Suc (length ls)] 0"
  obtain m where m: "calculate_hash_space_division A ls = Ok m" "dom m = set ls"
    and slice: "\<And>j. j < length ls \<Longrightarrow> m (ls ! j) = Some (?ss ! j)"
    using calculate_hash_space_division_Ok [OF assms(2)] assms(3) by metis
  have "from_bytes_be A d \<le> ?e"
    using laws d bytes_be_value_less [of d] by (simp add: from_bytes_be_value bytes_be_value_ones)
  then have "\<exists>!j. j < length ls \<and> is_request_in_hash_space A d (?ss ! j)"
    using slice_index_unique [OF _ _ refl, of "length ls" "from_bytes_be A d" ?e] assms(2)
    by (simp only: divide_slices_in [OF laws] length_greater_0_conv simp_thms cong: conj_cong)
  then have "\<exists>!l. l \<in> set ls \<and> (\<exists>s. m l = Some s \<and> is_request_in_hash_space A d s)"
    by (rule ex1_nth_member) (simp add: slice del: upt_Suc)
  with m(1) show ?thesis by (intro exI [of _ m] conjI)
qed

theorem hash_space_partition_witness:
  "\<exists>m. calculate_hash_space_division sample_atlas [3, 1, 2] = Ok m \<and>
    (\<exists>!l. l \<in> set [3, 1, 2] \<and> (\<exists>s. m l = Some s \<and> is_request_in_hash_space sample_atlas [86] s))"
  by (rule hash_space_partition) simp_all

subsection \<open>Construction\<close>

lemma member_at_Ok: "0 < n \<Longrightarrow> length ms = n \<Longrightarrow> member_at ms k n = Ok (ms ! (k mod n))"
  by (simp add: member_at_def)

lemma designated_leaders_Ok:
  "0 < n \<Longrightarrow> length ms = n \<Longrightarrow>
   designated_leaders A s n ms = Ok [ms ! (usize_of_seq A s mod n)]"
  by (simp add: designated_leaders_def member_at_Ok LEADER_COUNT_def)

lemma view_build_wf:
  assumes p: "params_laws A" "system_params A n f = Some p" and "length ms = n"
  shows "\<exists>v. res_bind (designated_leaders A seq n ms) (\<lambda>ls.
       res_bind (calculate_hash_space_division A ls) (\<lambda>d.
         Ok \<lparr>vi_seq = seq, vi_quorum_members = ms, vi_leader_set = ls,
             vi_leader_hash_space_division = d, vi_params = p\<rparr>)) = (Ok v) \<and>
     wf_view v \<and> vi_seq v = seq \<and> vi_quorum_members v = ms \<and> vi_params v = p"
proof -
  have p': "3 * f + 1 \<le> n" "p = SystemParams n f (2 * f + 1)"
    using p by (auto simp: params_laws_def split: if_splits)
  let ?l = "ms ! (usize_of_seq A seq mod n)"
  obtain m where "calculate_hash_space_division A [?l] = (Ok m)" "dom m = {?l}"
    using calculate_hash_space_division_Ok [of "[?l]" A] by (metis list.simps(15) not_Cons_self set_empty2 list.set(1))
  with p' assms(3) show ?thesis
    by (simp add: designated_leaders_Ok wf_view_def view_n_def view_f_def view_quorum_def)
qed

lemma ViewInfo_new_cases:
  assumes "params_laws A" and "targets_law A" and "n < 2 ^ 32"
  shows "if 3 * f + 1 \<le> n
    then \<exists>v. ViewInfo_new A seq n f = Ok v \<and> wf_view v \<and> vi_seq v = seq \<and>
           vi_quorum_members v = [0..<n] \<and> view_n v = n \<and> view_f v = f
    else ViewInfo_new A seq n f = Err InvalidSystemParams"
proof (cases "system_params A n f")
  case None
  then have "\<not> 3 * f + 1 \<le> n" using assms(1) by (auto simp: params_laws_def split: if_splits)
  with None show ?thesis by (simp add: ViewInfo_new_def)
next
  case (Some p)
  then have p: "3 * f + 1 \<le> n" "p = SystemParams n f (2 * f + 1)"
    using assms(1) by (auto simp: params_laws_def split: if_splits)
  have "node_targets A 0 (n mod 2 ^ 32) = [0..<n]"
    using assms by (simp add: targets_law_def)
  with view_build_wf [OF assms(1) Some, of "[0..<n]" seq] Some p show ?thesis
    by (fastforce simp: ViewInfo_new_def view_n_def view_f_def)
qed

lemma from_quorum_wf:
  assumes "params_laws A" and "ms \<noteq> []" and "length ms < 2 ^ 64"
  shows "\<exists>v. from_quorum A seq ms = Ok v \<and> wf_view v \<and> vi_seq v = seq \<and>
    vi_quorum_members v = ms \<and> view_n v = length ms \<and> view_f v = (length ms - 1) div 3"
proof -
  let ?n = "length ms" and ?f = "(length ms - 1) div 3"
  have n: "1 \<le> ?n" using assms(2) by (cases ms) simp_all
  then have f: "usize_sub ?n 1 div 3 = ?f" using assms(3) by (subst usize_sub_le) simp_all
  have "3 * ?f + 1 \<le> ?n" using n by linarith
  then have p: "system_params A ?n ?f = Some (SystemParams ?n ?f (2 * ?f + 1))"
    using assms(1) by (simp add: params_laws_def)
  with view_build_wf [OF assms(1) p refl, of seq] f show ?thesis
    by (auto simp: from_quorum_def Let_def view_n_def view_f_def simp del: One_nat_def)
qed

lemma leader_wf:
  "wf_view v \<Longrightarrow>
   leader A v = (Ok (vi_quorum_members v ! (usize_of_seq A (vi_seq v) mod view_n v)) :: (_, 'e) res)"
  by (simp add: leader_def wf_view_def member_at_Ok)

text \<open>
  C40. A view with a joined node is always built: on a well-formed view of at most
  \<open>2^64 - 2\<close> members \<open>next_view_with_new_node\<close> does not panic, and the view it returns is
  well formed, follows the current one, keeps the members and appends the new one, tolerates
  \<open>(n - 1) / 3\<close> faults of the enlarged quorum, and has a leader among its members.
\<close>

theorem next_view_with_new_node_wf:
  assumes "params_laws A" and "wf_view v" and "view_n v + 1 < 2 ^ 64"
  shows "\<exists>w l. next_view_with_new_node A v p = (Ok w :: (ViewInfo, 'e) res) \<and> wf_view w \<and>
    vi_seq w = next_seq A (vi_seq v) \<and> vi_quorum_members w = vi_quorum_members v @ [p] \<and>
    view_f w = view_n v div 3 \<and> leader A w = (Ok l :: (NodeId, 'e) res) \<and>
    l \<in> set (vi_quorum_members w)"
proof -
  let ?ms = "vi_quorum_members v @ [p]"
  have "length ?ms = view_n v + 1" using assms(2) by (simp add: wf_view_def)
  then obtain w where w: "from_quorum A (next_seq A (vi_seq v)) ?ms = Ok w" "wf_view w"
      "vi_seq w = next_seq A (vi_seq v)" "vi_quorum_members w = ?ms" "view_f w = view_n v div 3"
    using from_quorum_wf [OF assms(1), of ?ms "next_seq A (vi_seq v)"] assms(3) by auto
  have "usize_of_seq A (vi_seq w) mod view_n w < length (vi_quorum_members w)"
    using w(2) by (simp add: wf_view_def)
  then have "vi_quorum_members w ! (usize_of_seq A (vi_seq w) mod view_n w) \<in> set (vi_quorum_members w)"
    by (rule nth_mem)
  with w leader_wf [OF w(2), of A, where 'e = 'e] show ?thesis
    by (simp add: next_view_with_new_node_def del: set_append)
qed

definition sample_view :: ViewInfo where
  "sample_view = \<lparr>vi_seq = 0, vi_quorum_members = [0, 1, 2, 3], vi_leader_set = [0],
     vi_leader_hash_space_division = [0 \<mapsto> ([0], [255])], vi_params = SystemParams 4 1 3\<rparr>"

lemma sample_view_simps [simp]:
  "vi_seq sample_view = 0" "vi_quorum_members sample_view = [0, 1, 2, 3]"
  "vi_leader_set sample_view = [0]" "view_n sample_view = 4" "view_f sample_view = 1"
  "view_quorum sample_view = 3" "vi_params sample_view = SystemParams 4 1 3"
  "vi_leader_hash_space_division sample_view = [0 \<mapsto> ([0], [255])]"
  by (simp_all add: sample_view_def view_n_def view_f_def view_quorum_def)

lemma sample_view_wf [simp]: "wf_view sample_view"
  by (simp add: wf_view_def)

theorem next_view_with_new_node_wf_witness:
  "\<exists>w l. next_view_with_new_node sample_atlas sample_view 9 = (Ok w :: (ViewInfo, unit) res) \<and>
    wf_view w \<and> vi_seq w = 1 \<and> vi_quorum_members w = [0, 1, 2, 3, 9] \<and> view_f w = 1 \<and>
    leader sample_atlas w = (Ok l :: (NodeId, unit) res) \<and> l \<in> set (vi_quorum_members w)"
  using next_view_with_new_node_wf [of sample_atlas sample_view 9, where 'e = unit] by simp

text \<open>
  Every replica gets its turn: among any \<open>n\<close> consecutive views that \<open>peek\<close> gives for a
  quorum \<open>0..n\<close>, each replica is the leader of one. The sequence numbers of the views are
  taken not to wrap in between.
\<close>

theorem leader_rotation:
  assumes "params_laws A" and "targets_law A" and "wf_view v" and "view_n v < 2 ^ 32"
    and "\<And>i. i < view_n v \<Longrightarrow> usize_of_seq A (seq_at A s i) = usize_of_seq A s + i"
    and "p < view_n v"
  shows "\<exists>i w. i < view_n v \<and> peek A v (seq_at A s i) = (Ok w :: (ViewInfo, 'e) res) \<and>
    leader A w = (Ok p :: (NodeId, 'e) res)"
proof -
  let ?n = "view_n v" and ?k = "usize_of_seq A s"
  define i where "i = (p + (?n - ?k mod ?n)) mod ?n"
  have n: "0 < ?n" "3 * view_f v + 1 \<le> ?n" using assms(3) by (simp_all add: wf_view_def)
  then have i: "i < ?n" by (simp add: i_def)
  have "(?k + i) mod ?n = (?k mod ?n + (p + (?n - ?k mod ?n))) mod ?n"
    by (simp add: i_def mod_add_left_eq mod_add_right_eq)
  also have "?k mod ?n + (p + (?n - ?k mod ?n)) = p + ?n"
    using mod_less_divisor [OF n(1), of ?k] by linarith
  finally have turn: "(?k + i) mod ?n = p" using assms(6) by simp
  obtain w where "ViewInfo_new A (seq_at A s i) ?n (view_f v) = Ok w" "wf_view w"
      "vi_seq w = seq_at A s i" "vi_quorum_members w = [0..<?n]" "view_n w = ?n"
    using ViewInfo_new_cases [OF assms(1,2,4), of "view_f v" "seq_at A s i"] n(2) by auto
  with i turn assms(5) [OF i] assms(6) leader_wf [of w A, where 'e = 'e] show ?thesis
    by (intro exI [of _ i] exI [of _ w]) (simp add: peek_def)
qed

theorem leader_rotation_witness:
  "\<exists>i w. i < 4 \<and> peek sample_atlas sample_view (i + 6) = (Ok w :: (ViewInfo, unit) res) \<and>
    leader sample_atlas w = (Ok 1 :: (NodeId, unit) res)"
  using leader_rotation [of sample_atlas sample_view 6 1, where 'e = unit]
  by (simp add: Suc_funpow_add)

text \<open>
  \<open>with_leader_set\<close> reports the first leader that is not a participant, together with the
  participants, and builds no view then; with every leader a participant it builds a view,
  unless the leader set is empty, where the division by the number of leaders panics.
\<close>

theorem with_leader_set_cases:
  assumes "params_laws A" and "3 * f + 1 \<le> n"
  shows "case with_leader_set A seq n f ms ls of
      Panic \<Rightarrow> ls = []
    | Err e \<Rightarrow> (\<exists>good x rest. ls = good @ x # rest \<and> set good \<subseteq> set ms \<and> x \<notin> set ms \<and>
                 e = LeaderNotInQuorum x ms)
    | Ok v \<Rightarrow> ls \<noteq> [] \<and> set ls \<subseteq> set ms \<and> vi_leader_set v = ls \<and> vi_quorum_members v = ms \<and>
              dom (vi_leader_hash_space_division v) = set ls \<and> view_quorum v = 2 * f + 1"
proof (cases "find (\<lambda>x. x \<notin> set ms) ls")
  case None
  then have sub: "set ls \<subseteq> set ms" by (auto simp: find_None_iff)
  show ?thesis
  proof (cases "ls = []")
    case True
    then show ?thesis using assms None
      by (simp add: with_leader_set_def params_laws_def calculate_hash_space_division_def
          divide_hash_space_def Let_def)
  next
    case False
    then obtain m where "calculate_hash_space_division A ls = Ok m" "dom m = set ls"
      by (rule calculate_hash_space_division_Ok)
    with False sub None assms show ?thesis
      by (simp add: with_leader_set_def params_laws_def view_quorum_def)
  qed
next
  case (Some x)
  then obtain i where i: "i < length ls" "x = ls ! i" "x \<notin> set ms" "\<forall>j<i. ls ! j \<in> set ms"
    by (auto simp: find_Some_iff)
  then have "ls = take i ls @ x # drop (Suc i) ls" "set (take i ls) \<subseteq> set ms"
    by (auto simp: id_take_nth_drop [symmetric] in_set_conv_nth)
  with i(3) Some assms show ?thesis
    by (auto simp: with_leader_set_def params_laws_def)
qed

theorem with_leader_set_cases_witness:
  "with_leader_set sample_atlas 0 4 1 [0, 1, 2, 3] [2, 7] = Err (LeaderNotInQuorum 7 [0, 1, 2, 3]) \<and>
   (case with_leader_set sample_atlas 0 4 1 [0, 1, 2, 3] [2, 7] of
      Err e \<Rightarrow> \<exists>good x rest. [2, 7] = good @ x # rest \<and> x \<notin> set [0, 1, 2, 3] \<and>
                e = LeaderNotInQuorum x [0, 1, 2, 3]
    | _ \<Rightarrow> False)"
  using with_leader_set_cases [where A = sample_atlas and f = 1 and n = 4 and seq = 0
      and ms = "[0, 1, 2, 3]" and ls = "[2, 7]"]
  by (auto simp: with_leader_set_def)

end
