(* ===== verification/Quorums.thy ===== *)
theory Quorums
  imports Views
begin

text \<open>
  Quorum sizes: the tolerance functions of the protocol (\<open>OrderProtocolTolerance\<close> for
  \<open>PBFTOrderProtocol\<close> in \<open>bft/mod.rs\<close>) and the intersection of quorums. The locale
  \<open>quorum_system\<close> states when quorums of a system meet in a correct replica; it is
  interpreted on the tolerance functions and on the views of the theory \<open>Views\<close>.

  Shown: quorums of \<open>get_quorum_for_n n\<close> among \<open>n\<close> replicas meet in a correct replica exactly
  when \<open>n\<close> is one of the sizes \<open>3f + 1\<close>.
\<close>

definition get_n_for_f :: "nat \<Rightarrow> nat" where
  "get_n_for_f f = (3 * f + 1) mod 2 ^ 64"

definition get_f_for_n :: "nat \<Rightarrow> nat" where
  "get_f_for_n n = usize_sub n 1 div 3"

definition get_quorum_for_n :: "nat \<Rightarrow> nat" where
  "get_quorum_for_n n = (2 * get_f_for_n n + 1) mod 2 ^ 64"

locale quorum_system =
  fixes members :: "'v \<Rightarrow> NodeId set" and tolerated :: "'v \<Rightarrow> nat" and quorum :: "'v \<Rightarrow> nat"
    and good :: "'v \<Rightarrow> bool"
  assumes finite_members: "good v \<Longrightarrow> finite (members v)"
    and overlap: "good v \<Longrightarrow> card (members v) + tolerated v < 2 * quorum v"
begin

lemma intersection:
  assumes "good v" and "P \<subseteq> members v" and "Q \<subseteq> members v"
    and "quorum v \<le> card P" and "quorum v \<le> card Q" and "card B \<le> tolerated v" and "finite B"
  shows "\<exists>p \<in> P \<inter> Q. p \<notin> B"
proof (rule ccontr)
  have fin: "finite P" "finite Q"
    using assms(1-3) finite_members finite_subset by blast+
  assume "\<not> ?thesis"
  then have "card (P \<inter> Q) \<le> card B" using assms(7) by (intro card_mono) auto
  moreover have "card (P \<union> Q) \<le> card (members v)"
    using assms(1-3) finite_members by (intro card_mono) auto
  moreover have "card P + card Q = card (P \<union> Q) + card (P \<inter> Q)"
    using fin by (rule card_Un_Int)
  ultimately show False using assms overlap [OF assms(1)] by linarith
qed

lemma one_value:
  assumes "good v" and "finite B" and "card B \<le> tolerated v"
    and "quorum v \<le> card P" and "P \<subseteq> members v" and "\<And>p. p \<in> P \<Longrightarrow> p \<notin> B \<Longrightarrow> votes p x"
    and "quorum v \<le> card Q" and "Q \<subseteq> members v" and "\<And>p. p \<in> Q \<Longrightarrow> p \<notin> B \<Longrightarrow> votes p y"
    and once: "\<And>p. p \<notin> B \<Longrightarrow> votes p x \<Longrightarrow> votes p y \<Longrightarrow> x = y"
  shows "x = y"
proof -
  obtain p where "p \<in> P" "p \<in> Q" "p \<notin> B" using intersection [of v P Q B] assms by auto
  then show ?thesis using assms by blast
qed

end

definition tight_size :: "nat \<Rightarrow> bool" where
  "tight_size n \<longleftrightarrow> n < 2 ^ 64 \<and> n mod 3 = 1"

definition tight_view :: "ViewInfo \<Rightarrow> bool" where
  "tight_view v \<longleftrightarrow> wf_view v \<and> distinct (vi_quorum_members v) \<and> view_n v = 3 * view_f v + 1"

lemma get_f_for_n_eq: "0 < n \<Longrightarrow> n < 2 ^ 64 \<Longrightarrow> get_f_for_n n = (n - 1) div 3"
  by (simp add: get_f_for_n_def)

lemma get_quorum_for_n_eq: "0 < n \<Longrightarrow> n < 2 ^ 64 \<Longrightarrow> get_quorum_for_n n = 2 * ((n - 1) div 3) + 1"
  by (simp add: get_quorum_for_n_def get_f_for_n_eq)

interpretation tolerance: quorum_system "\<lambda>n. {..<n}" get_f_for_n get_quorum_for_n tight_size
proof
  show "finite {..<v}" if "tight_size v" for v :: nat by simp
  show "card {..<v} + get_f_for_n v < 2 * get_quorum_for_n v" if "tight_size v" for v
  proof -
    have "v = 3 * ((v - 1) div 3) + 1" "0 < v" "v < 2 ^ 64"
      using that unfolding tight_size_def by presburger+
    then show ?thesis by (simp add: get_f_for_n_eq get_quorum_for_n_eq)
  qed
qed

interpretation vq: quorum_system "\<lambda>v. set (vi_quorum_members v)" view_f view_quorum tight_view
  by unfold_locales (auto simp: tight_view_def wf_view_def distinct_card)

lemma quorums_miss:
  fixes n f q :: nat
  assumes "q \<le> n" and "2 * q \<le> n + f"
  shows "\<exists>P Q B. P \<subseteq> {..<n} \<and> Q \<subseteq> {..<n} \<and> card P = q \<and> card Q = q \<and> card B \<le> f \<and>
    finite B \<and> P \<inter> Q \<subseteq> B"
proof -
  have "{..<q} \<inter> {n - q..<n} = {n - q..<q}" using assms(1) by auto
  then have "card ({..<q} \<inter> {n - q..<n}) \<le> f" using assms by simp
  moreover have "card {n - q..<n} = q" "card {..<q} = q" using assms(1) by simp_all
  ultimately show ?thesis using assms(1)
    by (intro exI [of _ "{..<q}"] exI [of _ "{n - q..<n}"] exI [of _ "{..<q} \<inter> {n - q..<n}"]) auto
qed

text \<open>
  C32. The quorum size of the protocol is exact for the sizes \<open>3f + 1\<close>: two quorums of
  \<open>get_quorum_for_n n\<close> replicas out of \<open>n\<close> share a replica that is not among the at most
  \<open>get_f_for_n n\<close> faulty ones, for every choice of the quorums and of the faulty replicas, if
  and only if \<open>n mod 3 = 1\<close>. For the sizes in between, which a quorum join produces, two
  quorums may meet in faulty replicas only.
\<close>

theorem quorum_intersection_iff:
  assumes "0 < n" and "n < 2 ^ 64"
  shows "n mod 3 = 1 \<longleftrightarrow>
    (\<forall>P Q B. P \<subseteq> {..<n} \<and> Q \<subseteq> {..<n} \<and> get_quorum_for_n n \<le> card P \<and>
       get_quorum_for_n n \<le> card Q \<and> finite B \<and> card B \<le> get_f_for_n n \<longrightarrow>
       (\<exists>p \<in> P \<inter> Q. p \<notin> B))"
proof
  assume "n mod 3 = 1"
  with assms show "\<forall>P Q B. P \<subseteq> {..<n} \<and> Q \<subseteq> {..<n} \<and> get_quorum_for_n n \<le> card P \<and>
       get_quorum_for_n n \<le> card Q \<and> finite B \<and> card B \<le> get_f_for_n n \<longrightarrow> (\<exists>p \<in> P \<inter> Q. p \<notin> B)"
    using tolerance.intersection [of n] by (simp add: tight_size_def)
next
  assume all: "\<forall>P Q B. P \<subseteq> {..<n} \<and> Q \<subseteq> {..<n} \<and> get_quorum_for_n n \<le> card P \<and>
       get_quorum_for_n n \<le> card Q \<and> finite B \<and> card B \<le> get_f_for_n n \<longrightarrow> (\<exists>p \<in> P \<inter> Q. p \<notin> B)"
  show "n mod 3 = 1"
  proof (rule ccontr)
    assume "n mod 3 \<noteq> 1"
    then have "2 * get_quorum_for_n n \<le> n + get_f_for_n n"
      unfolding get_quorum_for_n_eq [OF assms] get_f_for_n_eq [OF assms] using assms(1) by presburger
    then have "\<lbrakk>get_quorum_for_n n \<le> n\<rbrakk> \<Longrightarrow> \<exists>P Q B. P \<subseteq> {..<n} \<and> Q \<subseteq> {..<n} \<and>
        card P = get_quorum_for_n n \<and> card Q = get_quorum_for_n n \<and> card B \<le> get_f_for_n n \<and>
        finite B \<and> P \<inter> Q \<subseteq> B"
      by (rule quorums_miss [rotated])
    moreover have "get_quorum_for_n n \<le> n"
      unfolding get_quorum_for_n_eq [OF assms] using assms(1) by presburger
    ultimately obtain P Q B where PQB: "P \<subseteq> {..<n}" "Q \<subseteq> {..<n}" "card P = get_quorum_for_n n"
        "card Q = get_quorum_for_n n" "card B \<le> get_f_for_n n" "finite B" "P \<inter> Q \<subseteq> B"
      by auto
    then have "\<exists>p \<in> P \<inter> Q. p \<notin> B" by (intro all [rule_format]) simp
    with PQB(7) show False by auto
  qed
qed

theorem quorum_intersection_iff_witness:
  "get_quorum_for_n 5 = 3 \<and> get_f_for_n 5 = 1 \<and>
   (\<exists>P Q B. P \<subseteq> {..<5::nat} \<and> Q \<subseteq> {..<5} \<and> get_quorum_for_n 5 \<le> card P \<and>
       get_quorum_for_n 5 \<le> card Q \<and> finite B \<and> card B \<le> get_f_for_n 5 \<and> P \<inter> Q \<subseteq> B)"
proof -
  have "\<not> (\<forall>P Q B. P \<subseteq> {..<5::nat} \<and> Q \<subseteq> {..<5} \<and> get_quorum_for_n 5 \<le> card P \<and>
       get_quorum_for_n 5 \<le> card Q \<and> finite B \<and> card B \<le> get_f_for_n 5 \<longrightarrow>
       (\<exists>p \<in> P \<inter> Q. p \<notin> B))"
    using quorum_intersection_iff [of 5] by simp
  then have "\<exists>P Q B. P \<subseteq> {..<5::nat} \<and> Q \<subseteq> {..<5} \<and> get_quorum_for_n 5 \<le> card P \<and>
       get_quorum_for_n 5 \<le> card Q \<and> finite B \<and> card B \<le> get_f_for_n 5 \<and> P \<inter> Q \<subseteq> B"
    by (simp only: not_all not_imp) blast
  then show ?thesis by (simp add: get_quorum_for_n_eq get_f_for_n_eq)
qed

end
