(* ===== verification/Messages.thy ===== *)
theory Messages
  imports Quorums
begin

text \<open>
  The protocol's messages and the data they carry: \<open>bft/message/mod.rs\<close>, the structures of
  \<open>bft/log/decisions/mod.rs\<close> (decisions, proofs, collect data) and \<open>LeaderCollects\<close> of
  \<open>bft/sync/mod.rs\<close>. The type variable \<open>'o\<close> is the payload of a client request. The message
  types are mutually recursive: a \<open>STOP-DATA\<close> message carries a proof, and a proof carries
  messages. Structures are single-constructor datatypes whose selectors are the fields.

  The accessors that panic on the wrong kind of message return \<open>Panic\<close>. The nonce of a
  consensus message comes from \<open>fastrand\<close> and is an argument of \<open>ConsensusMessage_new\<close>.
\<close>

datatype 'o ConsensusMessageKind =
  PrePrepare "'o Request StoredMessage list" | Prepare Digest | Commit Digest

datatype 'o ConsensusMessage = ConsensusMessage
  (cm_seq: SeqNo) (cm_view: SeqNo) (cm_nonce: nat) (cm_kind: "'o ConsensusMessageKind")

datatype 'o FwdConsensusMessage = FwdConsensusMessage
  (fwd_header: Header) (fwd_consensus_msg: "'o ConsensusMessage")

datatype ObserveEventKind =
  CheckpointStart SeqNo | CheckpointEnd SeqNo | ReadyEvent SeqNo | PrepareEvent SeqNo
| CommitEvent SeqNo | ConsensusEvent SeqNo | ExecutedEvent SeqNo | NormalPhaseEvent ViewInfo SeqNo
| ViewChangePhaseEvent | CollabStateTransferEvent

datatype ObserverMessage =
  ObserverRegister | ObserverRegisterResponse bool | ObserverUnregister
| ObservedValue ObserveEventKind

datatype ProofMetadata = ProofMetadata (pm_seq_no: SeqNo) (pm_batch_digest: Digest)
  (pm_pre_prepare_ordering: "Digest list") (pm_contained_client_rqs: nat)

datatype ViewDecisionPair = ViewDecisionPair (vdp_view: SeqNo) (vdp_digest: Digest)

datatype PrepareSet = PrepareSet (ps_pairs: "ViewDecisionPair list")

datatype IncompleteProof = IncompleteProof (ip_in_exec: SeqNo) (ip_write_set: PrepareSet)
  (ip_quorum_prepares: "ViewDecisionPair option")

datatype 'o PBFTMessage =
    ConsensusMsg "'o ConsensusMessage"
  | ViewChangeMsg "'o ViewChangeMessage"
  | ObserverMsg ObserverMessage
and 'o ViewChangeMessage = ViewChangeMessage (vc_view: SeqNo) (vc_kind: "'o ViewChangeMessageKind")
and 'o ViewChangeMessageKind =
    Stop "'o Request StoredMessage list"
  | StopQuorumJoin NodeId
  | StopData "'o CollectData"
  | Sync "'o LeaderCollects"
and 'o CollectData = CollectData (cd_incomplete_proof: IncompleteProof)
    (cd_last_proof: "'o Proof option")
and 'o Proof = Proof (pf_metadata: ProofMetadata)
    (pf_pre_prepares: "'o PBFTMessage StoredMessage list")
    (pf_prepares: "'o PBFTMessage StoredMessage list")
    (pf_commits: "'o PBFTMessage StoredMessage list")
and 'o LeaderCollects = LeaderCollects (lc_proposed: "'o FwdConsensusMessage")
    (lc_collects: "'o PBFTMessage StoredMessage list")

type_synonym 'o StoredConsensusMessage = "'o PBFTMessage StoredMessage"

subsection \<open>Operations of the message types\<close>

definition ConsensusMessage_new ::
    "nat \<Rightarrow> SeqNo \<Rightarrow> SeqNo \<Rightarrow> 'o ConsensusMessageKind \<Rightarrow> 'o ConsensusMessage" where
  \<comment> \<open>the first argument is the value \<open>fastrand::u16\<close> returns\<close>
  "ConsensusMessage_new nonce seq view kind = ConsensusMessage seq view nonce kind"

definition PBFTMessage_sequence_number :: "atlas \<Rightarrow> 'o PBFTMessage \<Rightarrow> SeqNo" where
  "PBFTMessage_sequence_number A m =
     (case m of ConsensusMsg c \<Rightarrow> cm_seq c | ViewChangeMsg v \<Rightarrow> vc_view v | ObserverMsg _ \<Rightarrow> ZERO A)"

definition consensus :: "'o PBFTMessage \<Rightarrow> ('o ConsensusMessage, 'e) res" where
  "consensus m = (case m of ConsensusMsg c \<Rightarrow> Ok c | _ \<Rightarrow> Panic)"

definition view_change :: "'o PBFTMessage \<Rightarrow> ('o ViewChangeMessage, 'e) res" where
  "view_change m = (case m of ViewChangeMsg v \<Rightarrow> Ok v | _ \<Rightarrow> Panic)"

definition observer_message :: "'o PBFTMessage \<Rightarrow> (ObserverMessage, 'e) res" where
  "observer_message m = (case m of ObserverMsg b \<Rightarrow> Ok b | _ \<Rightarrow> Panic)"

definition take_collects :: "'o ViewChangeMessage \<Rightarrow> 'o LeaderCollects option" where
  "take_collects m = (case vc_kind m of Sync collects \<Rightarrow> Some collects | _ \<Rightarrow> None)"

definition has_proposed_digest :: "'o ConsensusMessage \<Rightarrow> Digest \<Rightarrow> bool option" where
  "has_proposed_digest m digest =
     (case cm_kind m of PrePrepare _ \<Rightarrow> None | Prepare d \<Rightarrow> Some (d = digest) | Commit d \<Rightarrow> Some (d = digest))"

definition take_proposed_requests ::
    "'o ConsensusMessage \<Rightarrow> 'o ConsensusMessage \<times> 'o Request StoredMessage list option" where
  "take_proposed_requests m =
     (let self = ConsensusMessage (cm_seq m) (cm_view m) (cm_nonce m) (PrePrepare []) in
      case cm_kind m of
        PrePrepare v \<Rightarrow> (self, Some v)
      | kind \<Rightarrow> (ConsensusMessage (cm_seq self) (cm_view self) (cm_nonce self) kind, None))"

definition Proof_sequence_number :: "'o Proof \<Rightarrow> SeqNo" where
  "Proof_sequence_number p = pm_seq_no (pf_metadata p)"

text \<open>Constructor tests the other theories use.\<close>

definition is_consensus :: "'o PBFTMessage \<Rightarrow> bool" where
  "is_consensus m \<longleftrightarrow> (case m of ConsensusMsg _ \<Rightarrow> True | _ \<Rightarrow> False)"

lemma consensus_simps [simp]:
  "consensus (ConsensusMsg c) = Ok c" "consensus (ViewChangeMsg v) = Panic"
  "consensus (ObserverMsg b) = Panic"
  by (simp_all add: consensus_def)

lemma consensus_Ok_iff: "consensus m = Ok c \<longleftrightarrow> m = ConsensusMsg c"
  by (cases m) simp_all

lemma take_proposed_requests_PrePrepare [simp]:
  "take_proposed_requests (ConsensusMessage s v k (PrePrepare rs)) =
   (ConsensusMessage s v k (PrePrepare []), Some rs)"
  by (simp add: take_proposed_requests_def Let_def)

end
