(* ===== verification/WorkingLog.thy ===== *)
theory WorkingLog
  imports Messages
begin

text \<open>
  The log of the decision in progress (\<open>bft/log/deciding/mod.rs\<close>): \<open>MessageLog\<close>,
  \<open>DuplicateReplicaEvaluator\<close> and \<open>WorkingDecisionLog\<close> with every operation. An operation that
  mutates the log and returns a \<open>Result\<close> gives the new log together with a \<open>res\<close>; the log
  after an early return is the one the code leaves behind.

  The \<open>batch_meta\<close> field holds time stamps for the metrics and is left out. The counters are
  bounded by the number of leaders and of requests held in memory and stay naturals.

  Shown: the invariant \<open>wl_inv\<close> and that every operation keeps it, a failing operation leaves
  the log as it was, no operation panics, the batch digest is set exactly when every leader's
  batch is in, votes are counted once per sender (locale \<open>vote_collector\<close>), and the completed
  batch has the requests in the order of the leaders.
\<close>

datatype DecidingLogError =
  ProposerNotInLeaderSet NodeId "NodeId list"
| PrePrepareNotPartOfSet Digest "Digest list"
| DuplicateVoteFromNode NodeId
| FailedToCalculateDigest SeqNo
| LeaderNotInLeaderSet NodeId
| BatchContainsRequestsNotInLeaderAddrSpace NodeId
| FailedToGetLeadersRequestSpace NodeId

record 'o MessageLog =
  ml_pre_prepare :: "'o StoredConsensusMessage option list"
  ml_prepares :: "'o StoredConsensusMessage list"
  ml_commits :: "'o StoredConsensusMessage list"

record 'o FinishedMessageLog =
  fml_pre_prepares :: "'o StoredConsensusMessage list"
  fml_prepares :: "'o StoredConsensusMessage list"
  fml_commits :: "'o StoredConsensusMessage list"

record 'o CompletedBatch =
  cb_seq :: SeqNo
  cb_digest :: Digest
  cb_pre_prepare_ordering :: "Digest list"
  cb_contained_messages :: "'o FinishedMessageLog"
  cb_client_request_info :: "ClientRqInfo list"
  cb_client_requests :: "'o Request StoredMessage list"

record DuplicateReplicaEvaluator =
  dre_leader_set :: "NodeId list"
  dre_received_pre_prepare_messages :: "NodeId set"
  dre_received_prepare_messages :: "NodeId set"
  dre_received_commit_messages :: "NodeId set"

record 'o WorkingDecisionLog =
  wl_node_id :: NodeId
  wl_seq_no :: SeqNo
  wl_duplicate_detection :: DuplicateReplicaEvaluator
  wl_batch_digest :: "Digest option"
  wl_pre_prepare_digests :: "Digest option list"
  wl_current_received_pre_prepares :: nat
  wl_current_batch_size :: nat
  wl_client_rqs :: "ClientRqInfo list"
  wl_leader_set :: "NodeId list"
  wl_request_space_slices :: "NodeId \<rightharpoonup> byte list \<times> byte list"
  wl_message_log :: "'o MessageLog"
  wl_contained_requests :: "'o Request StoredMessage list option list"

subsection \<open>Message log\<close>

definition with_leader_count :: "nat \<Rightarrow> nat \<Rightarrow> 'o MessageLog" where
  "with_leader_count leaders quorum =
     \<lparr>ml_pre_prepare = replicate leaders None, ml_prepares = [], ml_commits = []\<rparr>"

definition insert_pre_prepare ::
    "nat \<Rightarrow> 'o StoredConsensusMessage \<Rightarrow> 'o MessageLog \<Rightarrow> ('o MessageLog, DecidingLogError) res" where
  "insert_pre_prepare index pre_prepare l =
     (if index < length (ml_pre_prepare l)
      then Ok (l\<lparr>ml_pre_prepare := (ml_pre_prepare l)[index := Some pre_prepare]\<rparr>) else Panic)"

definition insert_prepare :: "'o StoredConsensusMessage \<Rightarrow> 'o MessageLog \<Rightarrow> 'o MessageLog" where
  "insert_prepare prepare l = l\<lparr>ml_prepares := ml_prepares l @ [prepare]\<rparr>"

definition insert_commit :: "'o StoredConsensusMessage \<Rightarrow> 'o MessageLog \<Rightarrow> 'o MessageLog" where
  "insert_commit commit l = l\<lparr>ml_commits := ml_commits l @ [commit]\<rparr>"

definition ml_finalize :: "'o MessageLog \<Rightarrow> ('o FinishedMessageLog, 'e) res" where
  "ml_finalize l = res_bind (unwrap_all (ml_pre_prepare l)) (\<lambda>pps.
     Ok \<lparr>fml_pre_prepares = pps, fml_prepares = ml_prepares l, fml_commits = ml_commits l\<rparr>)"

subsection \<open>Duplicate detection\<close>

definition dre_default :: DuplicateReplicaEvaluator where
  "dre_default = \<lparr>dre_leader_set = [], dre_received_pre_prepare_messages = {},
     dre_received_prepare_messages = {}, dre_received_commit_messages = {}\<rparr>"

definition insert_pre_prepare_received :: "NodeId \<Rightarrow> DuplicateReplicaEvaluator
    \<Rightarrow> DuplicateReplicaEvaluator \<times> (unit, DecidingLogError) res" where
  "insert_pre_prepare_received node_id d =
     (if node_id \<in> dre_received_pre_prepare_messages d then (d, Err (DuplicateVoteFromNode node_id))
      else (d\<lparr>dre_received_pre_prepare_messages := insert node_id (dre_received_pre_prepare_messages d)\<rparr>,
            Ok ()))"

definition insert_prepare_received :: "NodeId \<Rightarrow> DuplicateReplicaEvaluator
    \<Rightarrow> DuplicateReplicaEvaluator \<times> (unit, DecidingLogError) res" where
  "insert_prepare_received node_id d =
     (if node_id \<in> dre_received_prepare_messages d then (d, Err (DuplicateVoteFromNode node_id))
      else (d\<lparr>dre_received_prepare_messages := insert node_id (dre_received_prepare_messages d)\<rparr>, Ok ()))"

definition insert_commit_received :: "NodeId \<Rightarrow> DuplicateReplicaEvaluator
    \<Rightarrow> DuplicateReplicaEvaluator \<times> (unit, DecidingLogError) res" where
  "insert_commit_received node_id d =
     (if node_id \<in> dre_received_commit_messages d then (d, Err (DuplicateVoteFromNode node_id))
      else (d\<lparr>dre_received_commit_messages := insert node_id (dre_received_commit_messages d)\<rparr>, Ok ()))"

subsection \<open>Positions in the set of leaders and of digests\<close>

definition pre_prepare_index_from_digest_opt ::
    "Digest option list \<Rightarrow> Digest \<Rightarrow> (nat, DecidingLogError) res" where
  "pre_prepare_index_from_digest_opt prepare_set digest =
     (case position (\<lambda>p. case p of Some d \<Rightarrow> d = digest | None \<Rightarrow> False) prepare_set of
        None \<Rightarrow> Err (PrePrepareNotPartOfSet digest (map the (filter (\<lambda>p. p \<noteq> None) prepare_set)))
      | Some pos \<Rightarrow> Ok pos)"

definition pre_prepare_index_of_from_digest ::
    "Digest list \<Rightarrow> Digest \<Rightarrow> (nat, DecidingLogError) res" where
  "pre_prepare_index_of_from_digest prepare_set pre_prepare =
     (case position (\<lambda>d. pre_prepare = d) prepare_set of
        None \<Rightarrow> Err (PrePrepareNotPartOfSet pre_prepare prepare_set)
      | Some pos \<Rightarrow> Ok pos)"

definition pre_prepare_index_of :: "NodeId list \<Rightarrow> NodeId \<Rightarrow> (nat, DecidingLogError) res" where
  "pre_prepare_index_of leader_set proposer =
     (case position (\<lambda>node. node = proposer) leader_set of
        None \<Rightarrow> Err (ProposerNotInLeaderSet proposer leader_set)
      | Some pos \<Rightarrow> Ok pos)"

subsection \<open>The working log\<close>

definition WorkingDecisionLog_new :: "NodeId \<Rightarrow> SeqNo \<Rightarrow> ViewInfo \<Rightarrow> 'o WorkingDecisionLog" where
  "WorkingDecisionLog_new node seq view =
     (let leader_count = length (vi_leader_set view) in
      \<lparr>wl_node_id = node, wl_seq_no = seq, wl_duplicate_detection = dre_default,
       wl_batch_digest = None, wl_pre_prepare_digests = replicate leader_count None,
       wl_current_received_pre_prepares = 0, wl_current_batch_size = 0, wl_client_rqs = [],
       wl_leader_set = vi_leader_set view,
       wl_request_space_slices = vi_leader_hash_space_division view,
       wl_message_log = with_leader_count (length (vi_leader_set view)) (view_quorum view),
       wl_contained_requests = replicate leader_count None\<rparr>)"

definition wl_update_current_view ::
    "ViewInfo \<Rightarrow> 'o WorkingDecisionLog \<Rightarrow> 'o WorkingDecisionLog" where
  "wl_update_current_view view w =
     w\<lparr>wl_leader_set := vi_leader_set view,
       wl_request_space_slices := vi_leader_hash_space_division view\<rparr>"

fun ordered_digests :: "Digest option list \<Rightarrow> Digest list option" where
  \<comment> \<open>the loop of \<open>calculate_instance_digest\<close>, which stops at the first missing digest\<close>
  "ordered_digests [] = Some []"
| "ordered_digests (None # ds) = None"
| "ordered_digests (Some d # ds) = map_option ((#) d) (ordered_digests ds)"

definition calculate_instance_digest ::
    "atlas \<Rightarrow> 'o WorkingDecisionLog \<Rightarrow> (Digest \<times> Digest list) option" where
  "calculate_instance_digest A w =
     map_option (\<lambda>batch_ordered_digests. (hash_chunks A batch_ordered_digests, batch_ordered_digests))
       (ordered_digests (wl_pre_prepare_digests w))"

definition store_pre_prepare :: "atlas \<Rightarrow> nat \<Rightarrow> 'o StoredConsensusMessage \<Rightarrow> ClientRqInfo list
    \<Rightarrow> 'o WorkingDecisionLog \<Rightarrow> 'o WorkingDecisionLog \<times> (ProofMetadata option, DecidingLogError) res" where
  \<comment> \<open>the second half of \<open>process_pre_prepare\<close>, from the position of the leader on\<close>
  "store_pre_prepare A leader_index s_message batch_rq_digests w =
     (case msg s_message of
        ConsensusMsg (ConsensusMessage _ _ _ (PrePrepare requests)) \<Rightarrow>
          if length (wl_contained_requests w) \<le> leader_index then (w, Panic) else
               (case insert_pre_prepare leader_index s_message (wl_message_log w) of
                  Ok log \<Rightarrow>
                    let w1 = w\<lparr>wl_pre_prepare_digests :=
                                 (wl_pre_prepare_digests w)[leader_index := Some (hdr_digest (hdr s_message))],
                               wl_contained_requests :=
                                 (wl_contained_requests w)[leader_index := Some requests],
                               wl_current_received_pre_prepares := wl_current_received_pre_prepares w + 1,
                               wl_current_batch_size := wl_current_batch_size w + length batch_rq_digests,
                               wl_client_rqs := wl_client_rqs w @ batch_rq_digests,
                               wl_message_log := log\<rparr>
                    in if wl_current_received_pre_prepares w1 = length (wl_leader_set w1)
                       then (case calculate_instance_digest A w1 of
                               None \<Rightarrow> (w1, Err (FailedToCalculateDigest (wl_seq_no w1)))
                             | Some (digest, batch_order) \<Rightarrow>
                                 (w1\<lparr>wl_batch_digest := Some digest\<rparr>,
                                  Ok (Some (ProofMetadata (wl_seq_no w1) digest batch_order
                                              (wl_current_batch_size w1)))))
                       else (w1, Ok None)
                | _ \<Rightarrow> (w, Panic))
      | _ \<Rightarrow> (w, Panic))"

definition process_pre_prepare :: "atlas \<Rightarrow> 'o StoredConsensusMessage \<Rightarrow> Digest \<Rightarrow> ClientRqInfo list
    \<Rightarrow> 'o WorkingDecisionLog \<Rightarrow> 'o WorkingDecisionLog \<times> (ProofMetadata option, DecidingLogError) res" where
  "process_pre_prepare A s_message digest batch_rq_digests w =
     (case consensus (msg s_message) of Panic \<Rightarrow> (w, Panic) | Err e \<Rightarrow> (w, Err e) | Ok _ \<Rightarrow>
     (let sending_leader = hdr_from (hdr s_message) in
      case wl_request_space_slices w sending_leader of
        None \<Rightarrow> (w, Err (FailedToGetLeadersRequestSpace sending_leader))
      | Some hash_space \<Rightarrow>
          if sending_leader \<noteq> wl_node_id w \<and>
             (\<exists>request \<in> set batch_rq_digests. \<not> is_request_in_hash_space A (cri_digest request) hash_space)
          then (w, Err (BatchContainsRequestsNotInLeaderAddrSpace sending_leader))
          else
            (case insert_pre_prepare_received sending_leader (wl_duplicate_detection w) of
               (dd, Ok _) \<Rightarrow>
                 let w0 = w\<lparr>wl_duplicate_detection := dd\<rparr> in
                 (case pre_prepare_index_of (wl_leader_set w0) sending_leader of
                    Ok leader_index \<Rightarrow>
                      if length (wl_pre_prepare_digests w0) \<le> leader_index
                      then (w0, Err (LeaderNotInLeaderSet sending_leader))
                      else store_pre_prepare A leader_index s_message batch_rq_digests w0
                  | Err e \<Rightarrow> (w0, Err e)
                  | Panic \<Rightarrow> (w0, Panic))
             | (dd, Err e) \<Rightarrow> (w\<lparr>wl_duplicate_detection := dd\<rparr>, Err e)
             | (dd, Panic) \<Rightarrow> (w\<lparr>wl_duplicate_detection := dd\<rparr>, Panic))))"

definition wl_process_message :: "'o StoredConsensusMessage \<Rightarrow> 'o WorkingDecisionLog
    \<Rightarrow> 'o WorkingDecisionLog \<times> (unit, DecidingLogError) res" where
  "wl_process_message s_message w =
     (case msg s_message of
        ConsensusMsg message \<Rightarrow>
          (case cm_kind message of
             Prepare _ \<Rightarrow>
               (case insert_prepare_received (hdr_from (hdr s_message)) (wl_duplicate_detection w) of
                  (dd, Ok _) \<Rightarrow> (w\<lparr>wl_duplicate_detection := dd,
                                    wl_message_log := insert_prepare s_message (wl_message_log w)\<rparr>, Ok ())
                | (dd, r) \<Rightarrow> (w\<lparr>wl_duplicate_detection := dd\<rparr>, r))
           | Commit _ \<Rightarrow>
               (case insert_commit_received (hdr_from (hdr s_message)) (wl_duplicate_detection w) of
                  (dd, Ok _) \<Rightarrow> (w\<lparr>wl_duplicate_detection := dd,
                                    wl_message_log := insert_commit s_message (wl_message_log w)\<rparr>, Ok ())
                | (dd, r) \<Rightarrow> (w\<lparr>wl_duplicate_detection := dd\<rparr>, r))
           | PrePrepare _ \<Rightarrow> (w, Panic))
      | _ \<Rightarrow> (w, Panic))"

subsection \<open>The incomplete proof and the completed batch\<close>

definition prepare_pair :: "'o StoredConsensusMessage \<Rightarrow> (ViewDecisionPair, 'e) res" where
  "prepare_pair m =
     (case msg m of
        ConsensusMsg c \<Rightarrow> (case cm_kind c of Prepare d \<Rightarrow> Ok (ViewDecisionPair (cm_view c) d) | _ \<Rightarrow> Panic)
      | _ \<Rightarrow> Panic)"

fun quorum_prepares_loop :: "nat \<Rightarrow> SeqNo option \<Rightarrow> nat \<Rightarrow> 'o StoredConsensusMessage list
    \<Rightarrow> (ViewDecisionPair option, 'e) res" where
  "quorum_prepares_loop quorum last_view cnt [] = Ok None"
| "quorum_prepares_loop quorum last_view cnt (stored # rest) =
     res_bind (consensus (msg stored)) (\<lambda>c.
       let cnt' = (case last_view of None \<Rightarrow> cnt | Some v \<Rightarrow> if cm_view c = v then cnt else 0) + 1
       in if cnt' = quorum then res_map Some (prepare_pair stored)
          else quorum_prepares_loop quorum (Some (cm_view c)) cnt' rest)"

definition wl_deciding :: "nat \<Rightarrow> 'o WorkingDecisionLog \<Rightarrow> (IncompleteProof, 'e) res" where
  "wl_deciding f w =
     (let ps = rev (ml_prepares (wl_message_log w)) in
      res_bind (res_traverse prepare_pair ps) (\<lambda>pairs.
      res_bind (quorum_prepares_loop ((2 * f) mod 2 ^ 64) None 0 ps) (\<lambda>quorum_prepares.
        Ok (IncompleteProof (wl_seq_no w) (PrepareSet pairs) quorum_prepares))))"

definition finish_processing_batch ::
    "'o WorkingDecisionLog \<Rightarrow> ('o CompletedBatch option, 'e) res" where
  "finish_processing_batch w =
     (case wl_batch_digest w of
        None \<Rightarrow> Ok None
      | Some current_digest \<Rightarrow>
          res_bind (unwrap_all (wl_pre_prepare_digests w)) (\<lambda>pre_prepare_ordering.
          res_bind (unwrap_all (wl_contained_requests w)) (\<lambda>requests.
          res_bind (ml_finalize (wl_message_log w)) (\<lambda>contained_messages.
            Ok (Some \<lparr>cb_seq = wl_seq_no w, cb_digest = current_digest,
                      cb_pre_prepare_ordering = pre_prepare_ordering,
                      cb_contained_messages = contained_messages,
                      cb_client_request_info = wl_client_rqs w,
                      cb_client_requests = concat requests\<rparr>)))))"

definition request_count :: "'o CompletedBatch \<Rightarrow> nat" where
  "request_count b = length (cb_client_requests b)"

subsection \<open>The invariant\<close>

definition is_pre_prepare_of :: "'o StoredConsensusMessage \<Rightarrow> 'o Request StoredMessage list \<Rightarrow> bool" where
  "is_pre_prepare_of m rs \<longleftrightarrow>
     (case msg m of ConsensusMsg c \<Rightarrow> cm_kind c = PrePrepare rs | _ \<Rightarrow> False)"

definition is_prepare_msg :: "'o StoredConsensusMessage \<Rightarrow> bool" where
  "is_prepare_msg m \<longleftrightarrow>
     (case msg m of ConsensusMsg c \<Rightarrow> (case cm_kind c of Prepare _ \<Rightarrow> True | _ \<Rightarrow> False) | _ \<Rightarrow> False)"

definition is_commit_msg :: "'o StoredConsensusMessage \<Rightarrow> bool" where
  "is_commit_msg m \<longleftrightarrow>
     (case msg m of ConsensusMsg c \<Rightarrow> (case cm_kind c of Commit _ \<Rightarrow> True | _ \<Rightarrow> False) | _ \<Rightarrow> False)"

definition sender :: "'o StoredConsensusMessage \<Rightarrow> NodeId" where
  "sender m = hdr_from (hdr m)"

text \<open>One slot per leader: empty in all three vectors, or filled by that leader's batch.\<close>

definition slot_ok :: "NodeId \<Rightarrow> Digest option \<Rightarrow> 'o Request StoredMessage list option
    \<Rightarrow> 'o StoredConsensusMessage option \<Rightarrow> bool" where
  "slot_ok l d rs m \<longleftrightarrow>
     (case m of
        None \<Rightarrow> d = None \<and> rs = None
      | Some x \<Rightarrow> d = Some (hdr_digest (hdr x)) \<and> sender x = l \<and>
                 (\<exists>r. rs = Some r \<and> is_pre_prepare_of x r))"

definition votes_ok :: "('o StoredConsensusMessage \<Rightarrow> bool) \<Rightarrow> 'o StoredConsensusMessage list
    \<Rightarrow> NodeId set \<Rightarrow> bool" where
  "votes_ok P ms S \<longleftrightarrow> list_all P ms \<and> distinct (map sender ms) \<and> S = set (map sender ms)"

definition slots_ok :: "'o WorkingDecisionLog \<Rightarrow> bool" where
  "slots_ok w \<longleftrightarrow>
     (let n = length (wl_leader_set w) in
      0 < n \<and> distinct (wl_leader_set w) \<and> dom (wl_request_space_slices w) = set (wl_leader_set w) \<and>
      length (wl_pre_prepare_digests w) = n \<and> length (wl_contained_requests w) = n \<and>
      length (ml_pre_prepare (wl_message_log w)) = n \<and>
      (\<forall>i < n. slot_ok (wl_leader_set w ! i) (wl_pre_prepare_digests w ! i)
                (wl_contained_requests w ! i) (ml_pre_prepare (wl_message_log w) ! i)) \<and>
      dre_received_pre_prepare_messages (wl_duplicate_detection w) =
        {wl_leader_set w ! i |i. i < n \<and> wl_pre_prepare_digests w ! i \<noteq> None} \<and>
      wl_current_received_pre_prepares w = count_some (wl_pre_prepare_digests w))"

definition wl_complete :: "'o WorkingDecisionLog \<Rightarrow> bool" where
  "wl_complete w \<longleftrightarrow> None \<notin> set (wl_pre_prepare_digests w)"

definition wl_inv :: "atlas \<Rightarrow> 'o WorkingDecisionLog \<Rightarrow> bool" where
  "wl_inv A w \<longleftrightarrow> slots_ok w \<and>
     wl_batch_digest w = map_option fst (calculate_instance_digest A w) \<and>
     wl_current_batch_size w = length (wl_client_rqs w) \<and>
     votes_ok is_prepare_msg (ml_prepares (wl_message_log w))
       (dre_received_prepare_messages (wl_duplicate_detection w)) \<and>
     votes_ok is_commit_msg (ml_commits (wl_message_log w))
       (dre_received_commit_messages (wl_duplicate_detection w))"

subsection \<open>Counting filled slots\<close>

lemma ordered_digests_eq: "ordered_digests ds = (if None \<in> set ds then None else Some (map the ds))"
proof (induction ds)
  case (Cons d ds)
  then show ?case by (cases d) auto
qed simp

lemma calculate_instance_digest_eq:
  "calculate_instance_digest A w =
   (if wl_complete w
    then Some (hash_chunks A (map the (wl_pre_prepare_digests w)), map the (wl_pre_prepare_digests w))
    else None)"
  by (simp add: calculate_instance_digest_def ordered_digests_eq wl_complete_def)

lemma count_some_Cons [simp]:
  "count_some (x # xs) = (if x = None then count_some xs else Suc (count_some xs))"
  by (simp add: count_some_def)

lemma count_some_length_iff: "count_some xs = length xs \<longleftrightarrow> None \<notin> set xs"
proof (induction xs)
  case (Cons x xs)
  then show ?case using count_some_le [of xs] by auto
qed simp

lemma wl_complete_iff_count:
  "wl_complete w \<longleftrightarrow> count_some (wl_pre_prepare_digests w) = length (wl_pre_prepare_digests w)"
  by (simp add: wl_complete_def count_some_length_iff)

subsection \<open>Accepting a batch\<close>

definition log_pre_prepare :: "atlas \<Rightarrow> nat \<Rightarrow> 'o StoredConsensusMessage \<Rightarrow> 'o Request StoredMessage list
    \<Rightarrow> ClientRqInfo list \<Rightarrow> 'o WorkingDecisionLog \<Rightarrow> 'o WorkingDecisionLog" where
  \<comment> \<open>specification of an accepted batch: slot \<open>i\<close> filled everywhere, the digest recomputed\<close>
  "log_pre_prepare A i m rs infos w =
     (let ds = (wl_pre_prepare_digests w)[i := Some (hdr_digest (hdr m))];
          ml = wl_message_log w; dd = wl_duplicate_detection w in
      w\<lparr>wl_pre_prepare_digests := ds,
        wl_contained_requests := (wl_contained_requests w)[i := Some rs],
        wl_message_log := ml\<lparr>ml_pre_prepare := (ml_pre_prepare ml)[i := Some m]\<rparr>,
        wl_duplicate_detection := dd\<lparr>dre_received_pre_prepare_messages :=
           insert (sender m) (dre_received_pre_prepare_messages dd)\<rparr>,
        wl_current_received_pre_prepares := wl_current_received_pre_prepares w + 1,
        wl_current_batch_size := wl_current_batch_size w + length infos,
        wl_client_rqs := wl_client_rqs w @ infos,
        wl_batch_digest := (if None \<in> set ds then wl_batch_digest w
                            else Some (hash_chunks A (map the ds)))\<rparr>)"

lemma log_pre_prepare_simps [simp]:
  "wl_pre_prepare_digests (log_pre_prepare A i m rs infos w) =
     (wl_pre_prepare_digests w)[i := Some (hdr_digest (hdr m))]"
  "wl_contained_requests (log_pre_prepare A i m rs infos w) = (wl_contained_requests w)[i := Some rs]"
  "ml_pre_prepare (wl_message_log (log_pre_prepare A i m rs infos w)) =
     (ml_pre_prepare (wl_message_log w))[i := Some m]"
  "ml_prepares (wl_message_log (log_pre_prepare A i m rs infos w)) = ml_prepares (wl_message_log w)"
  "ml_commits (wl_message_log (log_pre_prepare A i m rs infos w)) = ml_commits (wl_message_log w)"
  "wl_leader_set (log_pre_prepare A i m rs infos w) = wl_leader_set w"
  "wl_request_space_slices (log_pre_prepare A i m rs infos w) = wl_request_space_slices w"
  "wl_seq_no (log_pre_prepare A i m rs infos w) = wl_seq_no w"
  "wl_node_id (log_pre_prepare A i m rs infos w) = wl_node_id w"
  "wl_client_rqs (log_pre_prepare A i m rs infos w) = wl_client_rqs w @ infos"
  "wl_current_batch_size (log_pre_prepare A i m rs infos w) = wl_current_batch_size w + length infos"
  "wl_current_received_pre_prepares (log_pre_prepare A i m rs infos w) =
     wl_current_received_pre_prepares w + 1"
  "dre_received_pre_prepare_messages (wl_duplicate_detection (log_pre_prepare A i m rs infos w)) =
     insert (sender m) (dre_received_pre_prepare_messages (wl_duplicate_detection w))"
  "dre_received_prepare_messages (wl_duplicate_detection (log_pre_prepare A i m rs infos w)) =
     dre_received_prepare_messages (wl_duplicate_detection w)"
  "dre_received_commit_messages (wl_duplicate_detection (log_pre_prepare A i m rs infos w)) =
     dre_received_commit_messages (wl_duplicate_detection w)"
  by (simp_all add: log_pre_prepare_def Let_def)

lemma wl_inv_slot:
  assumes "wl_inv A w" and "i < length (wl_leader_set w)"
  shows "slot_ok (wl_leader_set w ! i) (wl_pre_prepare_digests w ! i)
           (wl_contained_requests w ! i) (ml_pre_prepare (wl_message_log w) ! i)"
  using assms by (simp add: wl_inv_def slots_ok_def Let_def)

lemma wl_inv_lengths:
  assumes "wl_inv A w"
  shows "length (wl_pre_prepare_digests w) = length (wl_leader_set w)"
    and "length (wl_contained_requests w) = length (wl_leader_set w)"
    and "length (ml_pre_prepare (wl_message_log w)) = length (wl_leader_set w)"
    and "distinct (wl_leader_set w)" and "wl_leader_set w \<noteq> []"
    and "dom (wl_request_space_slices w) = set (wl_leader_set w)"
    and "wl_current_received_pre_prepares w = count_some (wl_pre_prepare_digests w)"
  using assms by (auto simp: wl_inv_def slots_ok_def Let_def)

lemma wl_inv_received:
  assumes "wl_inv A w" and "i < length (wl_leader_set w)"
  shows "wl_leader_set w ! i \<in> dre_received_pre_prepare_messages (wl_duplicate_detection w) \<longleftrightarrow>
    wl_pre_prepare_digests w ! i \<noteq> None"
proof -
  have "dre_received_pre_prepare_messages (wl_duplicate_detection w) =
      {wl_leader_set w ! j |j. j < length (wl_leader_set w) \<and> wl_pre_prepare_digests w ! j \<noteq> None}"
    using assms(1) by (simp add: wl_inv_def slots_ok_def Let_def)
  with assms(2) wl_inv_lengths(4) [OF assms(1)] show ?thesis
    by (auto simp: nth_eq_iff_index_eq)
qed

lemma slots_ok_log_pre_prepare:
  assumes inv: "slots_ok w" and i: "i < length (wl_leader_set w)" "wl_leader_set w ! i = sender m"
    and new: "wl_pre_prepare_digests w ! i = None" and pp: "is_pre_prepare_of m rs"
  shows "slots_ok (log_pre_prepare A i m rs infos w)"
proof -
  let ?n = "length (wl_leader_set w)"
  have len: "length (wl_pre_prepare_digests w) = ?n" "length (wl_contained_requests w) = ?n"
    "length (ml_pre_prepare (wl_message_log w)) = ?n"
    using inv by (simp_all add: slots_ok_def Let_def)
  have "insert (sender m) {wl_leader_set w ! j |j. j < ?n \<and> wl_pre_prepare_digests w ! j \<noteq> None} =
      {wl_leader_set w ! j |j. j < ?n \<and>
         (wl_pre_prepare_digests w)[i := Some (hdr_digest (hdr m))] ! j \<noteq> None}"
    using i new len by (auto simp: nth_list_update)
  moreover have "slot_ok (wl_leader_set w ! i) (Some (hdr_digest (hdr m))) (Some rs) (Some m)"
    using i pp by (simp add: slot_ok_def)
  ultimately show ?thesis
    using inv i(1) new len count_some_update [of i "wl_pre_prepare_digests w"]
    by (simp add: slots_ok_def Let_def nth_list_update)
qed

lemma wl_inv_log_pre_prepare:
  assumes inv: "wl_inv A w" and i: "i < length (wl_leader_set w)" "wl_leader_set w ! i = sender m"
    and new: "wl_pre_prepare_digests w ! i = None" and pp: "is_pre_prepare_of m rs"
  shows "wl_inv A (log_pre_prepare A i m rs infos w)"
proof -
  let ?w = "log_pre_prepare A i m rs infos w"
  have "\<not> wl_complete w"
    using i(1) new wl_inv_lengths(1) [OF inv] nth_mem [of i "wl_pre_prepare_digests w"]
    by (auto simp: wl_complete_def)
  then have "wl_batch_digest w = None"
    using inv by (simp add: wl_inv_def calculate_instance_digest_eq)
  then have "wl_batch_digest ?w = map_option fst (calculate_instance_digest A ?w)"
    by (simp add: calculate_instance_digest_eq wl_complete_def)
      (simp add: log_pre_prepare_def Let_def)
  moreover have "slots_ok ?w"
    using assms by (intro slots_ok_log_pre_prepare) (simp_all add: wl_inv_def)
  ultimately show ?thesis using inv by (simp add: wl_inv_def)
qed

lemma pre_prepare_index_of_member:
  assumes "distinct ls" and "i < length ls"
  shows "pre_prepare_index_of ls (ls ! i) = Ok i"
proof -
  have "position (\<lambda>node. node = ls ! i) ls = Some i"
    using assms by (auto simp: position_Some_iff nth_eq_iff_index_eq)
  then show ?thesis by (simp add: pre_prepare_index_of_def)
qed

lemma is_pre_prepare_ofE:
  assumes "is_pre_prepare_of m rs"
  obtains h s v k where "m = StoredMessage h (ConsensusMsg (ConsensusMessage s v k (PrePrepare rs)))"
proof (cases m)
  case (StoredMessage h x)
  with assms that show ?thesis
    by (cases x) (auto simp: is_pre_prepare_of_def, metis ConsensusMessage.collapse)
qed

lemma process_pre_prepare_accept:
  assumes inv: "wl_inv A w" and i: "i < length (wl_leader_set w)" "wl_leader_set w ! i = sender m"
    and new: "wl_pre_prepare_digests w ! i = None" and pp: "is_pre_prepare_of m rs"
    and space: "sender m = wl_node_id w \<or>
      (\<forall>r \<in> set infos. is_request_in_hash_space A (cri_digest r) (the (wl_request_space_slices w (sender m))))"
  defines "w' \<equiv> log_pre_prepare A i m rs infos w"
  shows "process_pre_prepare A m d infos w =
    (w', Ok (if wl_complete w'
             then Some (ProofMetadata (wl_seq_no w) (hash_chunks A (map the (wl_pre_prepare_digests w')))
                          (map the (wl_pre_prepare_digests w')) (length (wl_client_rqs w')))
             else None))"
proof -
  obtain h s v k where m: "m = StoredMessage h (ConsensusMsg (ConsensusMessage s v k (PrePrepare rs)))"
    using pp by (rule is_pre_prepare_ofE)
  note len = wl_inv_lengths [OF inv]
  have mem: "sender m \<in> set (wl_leader_set w)" using i by (metis nth_mem)
  then obtain sl where sl: "wl_request_space_slices w (sender m) = Some sl" using len(6) by (metis domD)
  have fresh: "sender m \<notin> dre_received_pre_prepare_messages (wl_duplicate_detection w)"
    using wl_inv_received [OF inv i(1)] i(2) new by simp
  have idx: "pre_prepare_index_of (wl_leader_set w) (sender m) = Ok i"
    using pre_prepare_index_of_member [OF len(4) i(1)] i(2) by simp
  have size: "wl_current_batch_size w = length (wl_client_rqs w)" using inv by (simp add: wl_inv_def)
  have full: "wl_complete w' \<longleftrightarrow> Suc (wl_current_received_pre_prepares w) = length (wl_leader_set w)"
    using i(1) new len count_some_update [of i "wl_pre_prepare_digests w" "hdr_digest (hdr m)"]
    by (simp add: w'_def wl_complete_iff_count)
  show ?thesis
    using m sl fresh idx space i(1) len size full
    by (simp add: process_pre_prepare_def store_pre_prepare_def insert_pre_prepare_received_def
        insert_pre_prepare_def sender_def Let_def calculate_instance_digest_eq wl_complete_def)
      (auto simp: w'_def log_pre_prepare_def Let_def sender_def)
qed

lemma process_pre_prepare_reject:
  assumes inv: "wl_inv A w" and pp: "is_pre_prepare_of m rs"
  shows "wl_request_space_slices w (sender m) = None \<Longrightarrow>
      process_pre_prepare A m d infos w = (w, Err (FailedToGetLeadersRequestSpace (sender m)))"
    and "wl_request_space_slices w (sender m) = Some sl \<Longrightarrow> sender m \<noteq> wl_node_id w \<Longrightarrow>
      \<exists>r \<in> set infos. \<not> is_request_in_hash_space A (cri_digest r) sl \<Longrightarrow>
      process_pre_prepare A m d infos w = (w, Err (BatchContainsRequestsNotInLeaderAddrSpace (sender m)))"
    and "wl_request_space_slices w (sender m) = Some sl \<Longrightarrow>
      sender m = wl_node_id w \<or> (\<forall>r \<in> set infos. is_request_in_hash_space A (cri_digest r) sl) \<Longrightarrow>
      sender m \<in> dre_received_pre_prepare_messages (wl_duplicate_detection w) \<Longrightarrow>
      process_pre_prepare A m d infos w = (w, Err (DuplicateVoteFromNode (sender m)))"
  using pp by (auto elim!: is_pre_prepare_ofE simp: process_pre_prepare_def sender_def Let_def
      insert_pre_prepare_received_def)

lemma process_pre_prepare_spec:
  assumes inv: "wl_inv A w" and pp: "is_pre_prepare_of m rs"
  shows "case process_pre_prepare A m d infos w of
      (w', Ok r) \<Rightarrow>
        (\<exists>sl. wl_request_space_slices w (sender m) = Some sl \<and>
           (sender m = wl_node_id w \<or> (\<forall>r \<in> set infos. is_request_in_hash_space A (cri_digest r) sl))) \<and>
        sender m \<notin> dre_received_pre_prepare_messages (wl_duplicate_detection w) \<and>
        (\<exists>i. i < length (wl_leader_set w) \<and> wl_leader_set w ! i = sender m \<and> w' = log_pre_prepare A i m rs infos w) \<and>
        wl_inv A w' \<and>
        wl_batch_digest w' = map_option pm_batch_digest r \<and>
        r = (if wl_complete w'
             then let ds = map the (wl_pre_prepare_digests w') in
                  Some (ProofMetadata (wl_seq_no w) (hash_chunks A ds) ds (length (wl_client_rqs w @ infos)))
             else None)
    | (w', Err e) \<Rightarrow>
        w' = w \<and>
        (case wl_request_space_slices w (sender m) of
           None \<Rightarrow> e = FailedToGetLeadersRequestSpace (sender m)
         | Some sl \<Rightarrow>
             if sender m \<noteq> wl_node_id w \<and> (\<exists>r \<in> set infos. \<not> is_request_in_hash_space A (cri_digest r) sl)
             then e = BatchContainsRequestsNotInLeaderAddrSpace (sender m)
             else sender m \<in> dre_received_pre_prepare_messages (wl_duplicate_detection w) \<and> e = DuplicateVoteFromNode (sender m))
    | (_, Panic) \<Rightarrow> False"
proof (cases "wl_request_space_slices w (sender m)")
  case None
  then show ?thesis by (simp add: process_pre_prepare_reject [OF inv pp])
next
  case (Some sl)
  then have mem: "sender m \<in> set (wl_leader_set w)" using wl_inv_lengths(6) [OF inv] by auto
  then obtain i where i: "i < length (wl_leader_set w)" "wl_leader_set w ! i = sender m"
    by (auto simp: in_set_conv_nth)
  consider (space) "sender m \<noteq> wl_node_id w" "\<exists>r \<in> set infos. \<not> is_request_in_hash_space A (cri_digest r) sl"
    | (dup) "sender m = wl_node_id w \<or> (\<forall>r \<in> set infos. is_request_in_hash_space A (cri_digest r) sl)"
        "sender m \<in> dre_received_pre_prepare_messages (wl_duplicate_detection w)"
    | (ok) "sender m = wl_node_id w \<or> (\<forall>r \<in> set infos. is_request_in_hash_space A (cri_digest r) sl)"
        "sender m \<notin> dre_received_pre_prepare_messages (wl_duplicate_detection w)"
    by blast
  then show ?thesis
  proof cases
    case space
    then show ?thesis by (simp add: process_pre_prepare_reject [OF inv pp] Some)
  next
    case dup
    then show ?thesis by (simp add: process_pre_prepare_reject [OF inv pp] Some)
  next
    case ok
    have new: "wl_pre_prepare_digests w ! i = None"
      using ok(2) wl_inv_received [OF inv i(1)] i(2) by simp
    let ?w = "log_pre_prepare A i m rs infos w"
    have "wl_inv A ?w" by (rule wl_inv_log_pre_prepare [OF inv i new pp])
    moreover from this have "wl_batch_digest ?w = map_option fst (calculate_instance_digest A ?w)"
      by (simp add: wl_inv_def)
    ultimately show ?thesis
      using ok i Some process_pre_prepare_accept [OF inv i new pp, of infos d]
      by (auto simp: calculate_instance_digest_eq Let_def)
  qed
qed

text \<open>
  C20. Processing a batch in any reachable log. It is accepted exactly if its sender has a slice of the
  hash space, every request is in that slice or the batch is the replica's own, and no batch of this
  leader is stored; each of the three reasons to reject it is reported with its error, in this
  order of precedence, and leaves the log exactly as it was. An accepted batch is stored in the slot of its leader, with its
  digest, its message and its requests, its leader is marked, the invariant is kept, and the metadata is returned, with
  the digest of the leaders' digests in the order of the leader set, exactly when this was the last
  missing batch. The other errors and the panics of the code are unreachable.
\<close>

theorem process_pre_prepare_correct:
  assumes inv: "wl_inv A w" and pp: "is_pre_prepare_of m rs"
  shows "case process_pre_prepare A m d infos w of
      (w', Ok r) \<Rightarrow>
        (\<exists>sl. wl_request_space_slices w (sender m) = Some sl \<and>
           (sender m = wl_node_id w \<or> (\<forall>r \<in> set infos. is_request_in_hash_space A (cri_digest r) sl))) \<and>
        sender m \<notin> dre_received_pre_prepare_messages (wl_duplicate_detection w) \<and>
        (\<exists>i. i < length (wl_leader_set w) \<and> wl_leader_set w ! i = sender m \<and>
           wl_pre_prepare_digests w' = (wl_pre_prepare_digests w)[i := Some (hdr_digest (hdr m))] \<and>
           wl_contained_requests w' = (wl_contained_requests w)[i := Some rs] \<and>
           ml_pre_prepare (wl_message_log w') = (ml_pre_prepare (wl_message_log w))[i := Some m]) \<and>
        wl_client_rqs w' = wl_client_rqs w @ infos \<and>
        dre_received_pre_prepare_messages (wl_duplicate_detection w') =
          insert (sender m) (dre_received_pre_prepare_messages (wl_duplicate_detection w)) \<and>
        wl_inv A w' \<and>
        wl_batch_digest w' = map_option pm_batch_digest r \<and>
        r = (if wl_complete w'
             then let ds = map the (wl_pre_prepare_digests w') in
                  Some (ProofMetadata (wl_seq_no w) (hash_chunks A ds) ds (length (wl_client_rqs w @ infos)))
             else None)
    | (w', Err e) \<Rightarrow>
        w' = w \<and>
        (case wl_request_space_slices w (sender m) of
           None \<Rightarrow> e = FailedToGetLeadersRequestSpace (sender m)
         | Some sl \<Rightarrow>
             if sender m \<noteq> wl_node_id w \<and> (\<exists>r \<in> set infos. \<not> is_request_in_hash_space A (cri_digest r) sl)
             then e = BatchContainsRequestsNotInLeaderAddrSpace (sender m)
             else sender m \<in> dre_received_pre_prepare_messages (wl_duplicate_detection w) \<and> e = DuplicateVoteFromNode (sender m))
    | (_, Panic) \<Rightarrow> False"
  using process_pre_prepare_spec [OF inv pp, of infos d]
  by (cases "process_pre_prepare A m d infos w"; cases "snd (process_pre_prepare A m d infos w)")
    (auto simp: log_pre_prepare_def Let_def)

lemma wl_inv_new:
  assumes "wf_view v" and "distinct (vi_leader_set v)"
  shows "wl_inv A (WorkingDecisionLog_new node seq v)"
  using assms
  by (auto simp: wl_inv_def slots_ok_def WorkingDecisionLog_new_def with_leader_count_def Let_def
      wf_view_def slot_ok_def votes_ok_def dre_default_def calculate_instance_digest_eq wl_complete_def)

definition sample_pre_prepare :: "nat StoredConsensusMessage" where
  "sample_pre_prepare = StoredMessage (Header 0 [7] [8])
     (ConsensusMsg (ConsensusMessage 5 0 0 (PrePrepare [StoredMessage (Header 9 [1] [2]) (Request 1 1 42)])))"

definition sample_log :: "nat WorkingDecisionLog" where
  "sample_log = WorkingDecisionLog_new 2 5 sample_view"

theorem process_pre_prepare_correct_witness:
  "case process_pre_prepare sample_atlas sample_pre_prepare [7] [ClientRqInfo [2] 9 1 1] sample_log of
     (w', Ok r) \<Rightarrow> wl_inv sample_atlas w' \<and> r = Some (ProofMetadata 5 [7] [[7]] 1)
   | _ \<Rightarrow> False"
proof -
  have inv: "wl_inv sample_atlas sample_log"
    unfolding sample_log_def by (rule wl_inv_new) simp_all
  have pp: "is_pre_prepare_of sample_pre_prepare [StoredMessage (Header 9 [1] [2]) (Request 1 1 42)]"
    by (simp add: is_pre_prepare_of_def sample_pre_prepare_def)
  have "\<exists>w'. process_pre_prepare sample_atlas sample_pre_prepare [7] [ClientRqInfo [2] 9 1 1] sample_log =
      (w', Ok (Some (ProofMetadata 5 [7] [[7]] 1)))"
    by (simp add: process_pre_prepare_def store_pre_prepare_def sample_pre_prepare_def sample_log_def
        WorkingDecisionLog_new_def with_leader_count_def dre_default_def insert_pre_prepare_received_def
        insert_pre_prepare_def pre_prepare_index_of_def is_request_in_hash_space_def
        calculate_instance_digest_def bytes_be_value_def Let_def)
  then show ?thesis
    using process_pre_prepare_correct [OF inv pp, where d = "[7]" and infos = "[ClientRqInfo [2] 9 1 1]"]
    by auto
qed

subsection \<open>Votes\<close>

text \<open>
  The contract of a vote store: a vote is appended when its sender has not voted and refused,
  with the store unchanged, otherwise. Under it the stored votes have pairwise distinct senders
  whatever is offered, so counting votes counts replicas.
\<close>

definition offer_all :: "('m \<Rightarrow> 's \<Rightarrow> 's \<times> 'r) \<Rightarrow> 'm list \<Rightarrow> 's \<Rightarrow> 's" where
  "offer_all offer ms s = foldl (\<lambda>s m. fst (offer m s)) s ms"

lemma offer_all_simps [simp]:
  "offer_all f [] s = s" "offer_all f (m # ms) s = offer_all f ms (fst (f m s))"
  by (simp_all add: offer_all_def)

locale vote_collector =
  fixes offer :: "'m \<Rightarrow> 's \<Rightarrow> 's \<times> (unit, DecidingLogError) res"
    and votes :: "'s \<Rightarrow> 'm list" and from_of :: "'m \<Rightarrow> NodeId"
    and vote :: "'m \<Rightarrow> bool" and invar :: "'s \<Rightarrow> bool"
  assumes accepted: "invar s \<Longrightarrow> vote m \<Longrightarrow> from_of m \<notin> from_of ` set (votes s) \<Longrightarrow>
      \<exists>s'. offer m s = (s', Ok ()) \<and> votes s' = votes s @ [m] \<and> invar s'"
    and refused: "invar s \<Longrightarrow> vote m \<Longrightarrow> from_of m \<in> from_of ` set (votes s) \<Longrightarrow>
      offer m s = (s, Err (DuplicateVoteFromNode (from_of m)))"
    and distinct_votes: "invar s \<Longrightarrow> distinct (map from_of (votes s))"
begin

lemma offer_invar: "invar s \<Longrightarrow> vote m \<Longrightarrow> invar (fst (offer m s))"
  using accepted [of s m] refused [of s m] by force

lemma offer_senders:
  assumes "invar s" and "vote m"
  shows "from_of ` set (votes (fst (offer m s))) = insert (from_of m) (from_of ` set (votes s))"
proof (cases "from_of m \<in> from_of ` set (votes s)")
  case True
  then show ?thesis using refused [OF assms] by auto
next
  case False
  then show ?thesis using accepted [OF assms] by auto
qed

lemma offer_all_invar: "invar s \<Longrightarrow> list_all vote ms \<Longrightarrow> invar (offer_all offer ms s)"
  by (induction ms arbitrary: s) (simp_all add: offer_invar)

lemma offer_all_senders:
  "invar s \<Longrightarrow> list_all vote ms \<Longrightarrow>
   from_of ` set (votes (offer_all offer ms s)) = from_of ` set (votes s) \<union> from_of ` set ms"
  by (induction ms arbitrary: s) (simp_all add: offer_invar offer_senders)

lemma votes_count:
  assumes "invar s" and "list_all vote ms"
  shows "length (votes (offer_all offer ms s)) = card (from_of ` set (votes s) \<union> from_of ` set ms)"
  using distinct_card [OF distinct_votes [OF offer_all_invar [OF assms]]] offer_all_senders [OF assms]
  by simp

end

lemma is_prepare_msgE:
  assumes "is_prepare_msg m"
  obtains h s v k d where "m = StoredMessage h (ConsensusMsg (ConsensusMessage s v k (Prepare d)))"
proof (cases m)
  case (StoredMessage h x)
  with assms obtain c d where "x = ConsensusMsg c" "cm_kind c = Prepare d"
    by (auto simp: is_prepare_msg_def split: PBFTMessage.splits ConsensusMessageKind.splits)
  with that StoredMessage show ?thesis by (cases c) simp
qed

lemma is_commit_msgE:
  assumes "is_commit_msg m"
  obtains h s v k d where "m = StoredMessage h (ConsensusMsg (ConsensusMessage s v k (Commit d)))"
proof (cases m)
  case (StoredMessage h x)
  with assms obtain c d where "x = ConsensusMsg c" "cm_kind c = Commit d"
    by (auto simp: is_commit_msg_def split: PBFTMessage.splits ConsensusMessageKind.splits)
  with that StoredMessage show ?thesis by (cases c) simp
qed

lemma votes_ok_snoc:
  "votes_ok P ms S \<Longrightarrow> P m \<Longrightarrow> sender m \<notin> S \<Longrightarrow> votes_ok P (ms @ [m]) (insert (sender m) S)"
  by (auto simp: votes_ok_def)

definition log_prepare :: "'o StoredConsensusMessage \<Rightarrow> 'o WorkingDecisionLog \<Rightarrow> 'o WorkingDecisionLog" where
  \<comment> \<open>specification of an accepted \<open>PREPARE\<close>\<close>
  "log_prepare m w = w\<lparr>
     wl_message_log := (wl_message_log w)\<lparr>ml_prepares := ml_prepares (wl_message_log w) @ [m]\<rparr>,
     wl_duplicate_detection := (wl_duplicate_detection w)\<lparr>dre_received_prepare_messages :=
        insert (sender m) (dre_received_prepare_messages (wl_duplicate_detection w))\<rparr>\<rparr>"

definition log_commit :: "'o StoredConsensusMessage \<Rightarrow> 'o WorkingDecisionLog \<Rightarrow> 'o WorkingDecisionLog" where
  \<comment> \<open>specification of an accepted \<open>COMMIT\<close>\<close>
  "log_commit m w = w\<lparr>
     wl_message_log := (wl_message_log w)\<lparr>ml_commits := ml_commits (wl_message_log w) @ [m]\<rparr>,
     wl_duplicate_detection := (wl_duplicate_detection w)\<lparr>dre_received_commit_messages :=
        insert (sender m) (dre_received_commit_messages (wl_duplicate_detection w))\<rparr>\<rparr>"

lemma wl_process_prepare:
  "is_prepare_msg m \<Longrightarrow> wl_process_message m w =
   (if sender m \<in> dre_received_prepare_messages (wl_duplicate_detection w)
    then (w, Err (DuplicateVoteFromNode (sender m))) else (log_prepare m w, Ok ()))"
  by (auto elim!: is_prepare_msgE simp: wl_process_message_def insert_prepare_received_def
      insert_prepare_def log_prepare_def sender_def)

lemma wl_process_commit:
  "is_commit_msg m \<Longrightarrow> wl_process_message m w =
   (if sender m \<in> dre_received_commit_messages (wl_duplicate_detection w)
    then (w, Err (DuplicateVoteFromNode (sender m))) else (log_commit m w, Ok ()))"
  by (auto elim!: is_commit_msgE simp: wl_process_message_def insert_commit_received_def
      insert_commit_def log_commit_def sender_def)

lemma wl_inv_log_prepare:
  assumes "wl_inv A w" and "is_prepare_msg m"
    and "sender m \<notin> dre_received_prepare_messages (wl_duplicate_detection w)"
  shows "wl_inv A (log_prepare m w)"
  using assms
  by (auto simp: wl_inv_def slots_ok_def log_prepare_def calculate_instance_digest_def Let_def
      intro!: votes_ok_snoc)

lemma wl_inv_log_commit:
  assumes "wl_inv A w" and "is_commit_msg m"
    and "sender m \<notin> dre_received_commit_messages (wl_duplicate_detection w)"
  shows "wl_inv A (log_commit m w)"
  using assms
  by (auto simp: wl_inv_def slots_ok_def log_commit_def calculate_instance_digest_def Let_def
      intro!: votes_ok_snoc)

lemma wl_inv_voters:
  assumes "wl_inv A w"
  shows "dre_received_prepare_messages (wl_duplicate_detection w) =
      sender ` set (ml_prepares (wl_message_log w))"
    and "dre_received_commit_messages (wl_duplicate_detection w) =
      sender ` set (ml_commits (wl_message_log w))"
    and "distinct (map sender (ml_prepares (wl_message_log w)))"
    and "distinct (map sender (ml_commits (wl_message_log w)))"
    and "list_all is_prepare_msg (ml_prepares (wl_message_log w))"
    and "list_all is_commit_msg (ml_commits (wl_message_log w))"
  using assms by (simp_all add: wl_inv_def votes_ok_def)

interpretation prepare_votes: vote_collector wl_process_message
  "\<lambda>w. ml_prepares (wl_message_log w)" sender is_prepare_msg "wl_inv A" for A
proof
  fix s :: "'a WorkingDecisionLog" and m :: "'a StoredConsensusMessage"
  assume a: "wl_inv A s" "is_prepare_msg m"
  show "\<exists>s'. wl_process_message m s = (s', Ok ()) \<and>
      ml_prepares (wl_message_log s') = ml_prepares (wl_message_log s) @ [m] \<and> wl_inv A s'"
    if "sender m \<notin> sender ` set (ml_prepares (wl_message_log s))"
    using a that wl_inv_log_prepare [OF a]
    by (simp add: wl_process_prepare wl_inv_voters(1) log_prepare_def)
  show "wl_process_message m s = (s, Err (DuplicateVoteFromNode (sender m)))"
    if "sender m \<in> sender ` set (ml_prepares (wl_message_log s))"
    using a that by (simp add: wl_process_prepare wl_inv_voters(1))
qed (rule wl_inv_voters(3))

interpretation commit_votes: vote_collector wl_process_message
  "\<lambda>w. ml_commits (wl_message_log w)" sender is_commit_msg "wl_inv A" for A
proof
  fix s :: "'a WorkingDecisionLog" and m :: "'a StoredConsensusMessage"
  assume a: "wl_inv A s" "is_commit_msg m"
  show "\<exists>s'. wl_process_message m s = (s', Ok ()) \<and>
      ml_commits (wl_message_log s') = ml_commits (wl_message_log s) @ [m] \<and> wl_inv A s'"
    if "sender m \<notin> sender ` set (ml_commits (wl_message_log s))"
    using a that wl_inv_log_commit [OF a]
    by (simp add: wl_process_commit wl_inv_voters(2) log_commit_def)
  show "wl_process_message m s = (s, Err (DuplicateVoteFromNode (sender m)))"
    if "sender m \<in> sender ` set (ml_commits (wl_message_log s))"
    using a that by (simp add: wl_process_commit wl_inv_voters(2))
qed (rule wl_inv_voters(4))

text \<open>
  Votes are counted once per replica: whatever sequence of \<open>COMMIT\<close> messages is offered to a
  log that satisfies the invariant, duplicates included, the number of logged commits is the
  number of distinct senders among the old and the offered ones, and the invariant holds.
\<close>

theorem commits_count_senders:
  assumes "wl_inv A w" and "list_all is_commit_msg ms"
  shows "wl_inv A (offer_all wl_process_message ms w) \<and>
    length (ml_commits (wl_message_log (offer_all wl_process_message ms w))) =
      card (sender ` set (ml_commits (wl_message_log w)) \<union> sender ` set ms)"
  using commit_votes.offer_all_invar [OF assms] commit_votes.votes_count [OF assms] by simp

definition sample_commit :: "NodeId \<Rightarrow> nat StoredConsensusMessage" where
  "sample_commit p = StoredMessage (Header p [of_nat p] [of_nat p])
     (ConsensusMsg (ConsensusMessage 5 0 0 (Commit [7])))"

theorem commits_count_senders_witness:
  "length (ml_commits (wl_message_log (offer_all wl_process_message
     [sample_commit 1, sample_commit 1, sample_commit 3] sample_log))) = 2"
proof -
  have inv: "wl_inv sample_atlas sample_log"
    unfolding sample_log_def by (rule wl_inv_new) simp_all
  have "ml_commits (wl_message_log sample_log) = []"
    by (simp add: sample_log_def WorkingDecisionLog_new_def with_leader_count_def Let_def)
  then show ?thesis
    using commits_count_senders [OF inv, of "[sample_commit 1, sample_commit 1, sample_commit 3]"]
    by (simp add: sample_commit_def is_commit_msg_def sender_def)
qed

subsection \<open>The completed batch\<close>

lemma unwrap_all_map_the: "None \<notin> set xs \<Longrightarrow> unwrap_all xs = Ok (map the xs)"
proof (induction xs)
  case (Cons x xs)
  then show ?case by (cases x) simp_all
qed simp

lemma wl_complete_slots:
  assumes inv: "wl_inv A w" and "wl_complete w"
  shows "None \<notin> set (wl_contained_requests w)" and "None \<notin> set (ml_pre_prepare (wl_message_log w))"
proof -
  have "wl_contained_requests w ! i \<noteq> None \<and> ml_pre_prepare (wl_message_log w) ! i \<noteq> None"
    if i: "i < length (wl_leader_set w)" for i
  proof -
    have "wl_pre_prepare_digests w ! i \<noteq> None"
      using assms(2) i wl_inv_lengths(1) [OF inv] by (metis nth_mem wl_complete_def)
    then show ?thesis
      using wl_inv_slot [OF inv i] by (auto simp: slot_ok_def split: option.splits)
  qed
  then show "None \<notin> set (wl_contained_requests w)" "None \<notin> set (ml_pre_prepare (wl_message_log w))"
    using wl_inv_lengths [OF inv] by (metis in_set_conv_nth)+
qed

lemma finish_processing_batch_spec:
  assumes inv: "wl_inv A w"
  shows "finish_processing_batch w = (Ok None :: ('o CompletedBatch option, 'e) res) \<and> \<not> wl_complete w \<or>
    (\<exists>b. finish_processing_batch w = (Ok (Some b) :: ('o CompletedBatch option, 'e) res) \<and> wl_complete w \<and>
       cb_seq b = wl_seq_no w \<and>
       cb_digest b = hash_chunks A (cb_pre_prepare_ordering b) \<and>
       cb_pre_prepare_ordering b = map (\<lambda>m. hdr_digest (hdr m)) (fml_pre_prepares (cb_contained_messages b)) \<and>
       map sender (fml_pre_prepares (cb_contained_messages b)) = wl_leader_set w \<and>
       list_all2 is_pre_prepare_of (fml_pre_prepares (cb_contained_messages b))
         (map the (wl_contained_requests w)) \<and>
       cb_client_requests b = concat (map the (wl_contained_requests w)) \<and>
       fml_prepares (cb_contained_messages b) = ml_prepares (wl_message_log w) \<and>
       fml_commits (cb_contained_messages b) = ml_commits (wl_message_log w))"
proof (cases "wl_complete w")
  case False
  then have "wl_batch_digest w = None" using inv by (simp add: wl_inv_def calculate_instance_digest_eq)
  then show ?thesis using False by (simp add: finish_processing_batch_def)
next
  case True
  let ?ds = "wl_pre_prepare_digests w" and ?rs = "wl_contained_requests w"
    and ?ms = "ml_pre_prepare (wl_message_log w)"
  have d: "wl_batch_digest w = Some (hash_chunks A (map the ?ds))"
    using inv True by (simp add: wl_inv_def calculate_instance_digest_eq)
  note none = True [unfolded wl_complete_def] wl_complete_slots [OF inv True]
  note len = wl_inv_lengths [OF inv]
  have slot: "\<exists>x r. ?ds ! i = Some (hdr_digest (hdr x)) \<and> ?ms ! i = Some x \<and> sender x = wl_leader_set w ! i \<and>
      ?rs ! i = Some r \<and> is_pre_prepare_of x r" if i: "i < length (wl_leader_set w)" for i
  proof -
    have "?ms ! i \<noteq> None" using none(3) i len(3) by (metis nth_mem)
    then show ?thesis using wl_inv_slot [OF inv i] by (auto simp: slot_ok_def)
  qed
  have "map the ?ds = map (\<lambda>m. hdr_digest (hdr m)) (map the ?ms)"
    using slot len by (intro nth_equalityI) force+
  moreover have "map sender (map the ?ms) = wl_leader_set w"
    using slot len by (intro nth_equalityI) force+
  moreover have "list_all2 is_pre_prepare_of (map the ?ms) (map the ?rs)"
    using slot len by (intro list_all2_all_nthI) force+
  ultimately show ?thesis using True d none
    by (simp add: finish_processing_batch_def ml_finalize_def unwrap_all_map_the)
qed

lemma finish_processing_batch_shape:
  assumes "wl_inv A w" and "finish_processing_batch w = (Ok (Some b) :: ('o CompletedBatch option, 'e) res)"
  shows "wl_complete w" and "cb_seq b = wl_seq_no w"
    and "cb_digest b = hash_chunks A (cb_pre_prepare_ordering b)"
    and "cb_pre_prepare_ordering b = map (\<lambda>m. hdr_digest (hdr m)) (fml_pre_prepares (cb_contained_messages b))"
    and "list_all2 is_pre_prepare_of (fml_pre_prepares (cb_contained_messages b))
         (map the (wl_contained_requests w))"
    and "cb_client_requests b = concat (map the (wl_contained_requests w))"
    and "fml_prepares (cb_contained_messages b) = ml_prepares (wl_message_log w)"
    and "fml_commits (cb_contained_messages b) = ml_commits (wl_message_log w)"
  using finish_processing_batch_spec [OF assms(1), where 'e = 'e] assms(2) by auto

lemma finish_processing_batch_total:
  assumes "wl_inv A w"
  shows "wl_complete w \<Longrightarrow> \<exists>b. finish_processing_batch w = (Ok (Some b) :: ('o CompletedBatch option, 'e) res)"
  using finish_processing_batch_spec [OF assms, where 'e = 'e] by auto

text \<open>
  C21. Finishing a decision: in a log that satisfies the invariant \<open>finish_processing_batch\<close>
  never panics; it gives a batch exactly when every leader's batch has arrived, and then the
  requests are those of the leaders' \<open>PRE-PREPARE\<close>s in the order of the leader set, the digest is
  the hash of their digests in that order, and the votes are the logged ones.
\<close>

theorem finish_processing_batch_correct:
  assumes inv: "wl_inv A w"
  shows "finish_processing_batch w = (Ok None :: ('o CompletedBatch option, 'e) res) \<and> \<not> wl_complete w \<or>
    (\<exists>b. finish_processing_batch w = (Ok (Some b) :: ('o CompletedBatch option, 'e) res) \<and> wl_complete w \<and>
       cb_seq b = wl_seq_no w \<and>
       cb_digest b = hash_chunks A (cb_pre_prepare_ordering b) \<and>
       cb_pre_prepare_ordering b = map (\<lambda>m. hdr_digest (hdr m)) (fml_pre_prepares (cb_contained_messages b)) \<and>
       map sender (fml_pre_prepares (cb_contained_messages b)) = wl_leader_set w \<and>
       list_all2 is_pre_prepare_of (fml_pre_prepares (cb_contained_messages b))
         (map the (wl_contained_requests w)) \<and>
       cb_client_requests b = concat (map the (wl_contained_requests w)) \<and>
       fml_prepares (cb_contained_messages b) = ml_prepares (wl_message_log w) \<and>
       fml_commits (cb_contained_messages b) = ml_commits (wl_message_log w))"
  by (rule finish_processing_batch_spec [OF inv])

definition sample_full_log :: "nat WorkingDecisionLog" where
  "sample_full_log = log_pre_prepare sample_atlas 0 sample_pre_prepare
     [StoredMessage (Header 9 [1] [2]) (Request 1 1 42)] [ClientRqInfo [2] 9 1 1] sample_log"

lemma sample_full_log_inv: "wl_inv sample_atlas sample_full_log"
  unfolding sample_full_log_def
proof (rule wl_inv_log_pre_prepare)
  show "wl_inv sample_atlas sample_log" unfolding sample_log_def by (rule wl_inv_new) simp_all
qed (simp_all add: sample_log_def WorkingDecisionLog_new_def sample_pre_prepare_def sender_def
    is_pre_prepare_of_def Let_def)

theorem finish_processing_batch_correct_witness:
  "\<exists>b. finish_processing_batch sample_full_log = (Ok (Some b) :: (nat CompletedBatch option, unit) res) \<and>
     cb_client_requests b = [StoredMessage (Header 9 [1] [2]) (Request 1 1 42)]"
proof -
  have "wl_pre_prepare_digests sample_full_log = [Some [7]]"
    "wl_contained_requests sample_full_log = [Some [StoredMessage (Header 9 [1] [2]) (Request 1 1 42)]]"
    by (simp_all add: sample_full_log_def sample_log_def WorkingDecisionLog_new_def
        sample_pre_prepare_def Let_def)
  then show ?thesis
    using finish_processing_batch_correct [OF sample_full_log_inv, where 'e = unit]
    by (auto simp: wl_complete_def)
qed

subsection \<open>The incomplete proof\<close>

definition vote_pair :: "'o StoredConsensusMessage \<Rightarrow> ViewDecisionPair" where
  \<comment> \<open>the view and the digest of a \<open>PREPARE\<close>\<close>
  "vote_pair m = (case prepare_pair m :: (ViewDecisionPair, unit) res of
      Ok p \<Rightarrow> p | _ \<Rightarrow> ViewDecisionPair 0 [])"

lemma prepare_pair_Ok: "is_prepare_msg m \<Longrightarrow> prepare_pair m = Ok (vote_pair m)"
  by (auto elim!: is_prepare_msgE simp: prepare_pair_def vote_pair_def)

lemma prepare_consensus:
  "is_prepare_msg m \<Longrightarrow> \<exists>c. consensus (msg m) = Ok c \<and> cm_view c = vdp_view (vote_pair m)"
  by (auto elim!: is_prepare_msgE simp: prepare_pair_def vote_pair_def)

lemma traverse_prepare_pair:
  "list_all is_prepare_msg ps \<Longrightarrow> res_traverse prepare_pair ps = Ok (map vote_pair ps)"
  by (induction ps) (simp_all add: prepare_pair_Ok)

lemma quorum_prepares_loop_sound:
  assumes "list_all is_prepare_msg ps"
  shows "\<exists>r. quorum_prepares_loop q lv c ps = (Ok r :: (_, 'e) res) \<and>
    (\<forall>p. r = Some p \<longrightarrow> p \<in> vote_pair ` set ps \<and>
       q \<le> (if lv = None \<or> lv = Some (vdp_view p) then c else 0) +
           length (filter (\<lambda>m. vdp_view (vote_pair m) = vdp_view p) ps))"
  using assms
proof (induction ps arbitrary: lv c)
  case (Cons m ps)
  then obtain k where k: "consensus (msg m) = (Ok k :: (_, 'e) res)" "cm_view k = vdp_view (vote_pair m)"
    using prepare_consensus [of m, where 'b = 'e] by auto
  let ?c = "(case lv of None \<Rightarrow> c | Some v \<Rightarrow> if cm_view k = v then c else 0) + 1"
  show ?case
  proof (cases "?c = q")
    case True
    with k Cons.prems show ?thesis
      by (auto simp: Let_def prepare_pair_Ok split: option.splits)
  next
    case False
    with Cons.IH [of "Some (cm_view k)" ?c] Cons.prems k show ?thesis
      by (fastforce simp: Let_def split: option.splits if_splits)
  qed
qed simp

lemma quorum_prepares_loop_same_view:
  assumes "list_all is_prepare_msg ps" and "\<forall>m \<in> set ps. vdp_view (vote_pair m) = v"
    and "lv = None \<or> lv = Some v" and "c < q" and "q \<le> c + length ps"
  shows "quorum_prepares_loop q lv c ps \<noteq> (Ok None :: (_, 'e) res)"
  using assms
proof (induction ps arbitrary: lv c)
  case (Cons m ps)
  then obtain k where k: "consensus (msg m) = (Ok k :: (_, 'e) res)" "cm_view k = v"
    using prepare_consensus [of m, where 'b = 'e] by auto
  with Cons.IH [of "Some v" "Suc c"] Cons.prems show ?case
    by (auto simp: Let_def prepare_pair_Ok)
qed simp

text \<open>
  C22. The incomplete proof of a running decision: collecting it never panics; the write set has
  one pair per logged \<open>PREPARE\<close>, the latest first; and a value is reported as prepared only
  when at least \<open>2f\<close> distinct replicas have prepared in its view and one of them prepared it.
  When all the logged \<open>PREPARE\<close>s are of one view and there are at least \<open>2f > 0\<close> of them,
  a value is reported.
\<close>

theorem wl_deciding_correct:
  assumes inv: "wl_inv A w" and f: "2 * f < 2 ^ 64"
  shows "\<exists>qp. wl_deciding f w = (Ok (IncompleteProof (wl_seq_no w)
        (PrepareSet (map vote_pair (rev (ml_prepares (wl_message_log w))))) qp) :: (_, 'e) res) \<and>
    (\<forall>p. qp = Some p \<longrightarrow> p \<in> vote_pair ` set (ml_prepares (wl_message_log w)) \<and>
       2 * f \<le> card {sender m |m. m \<in> set (ml_prepares (wl_message_log w)) \<and>
                        vdp_view (vote_pair m) = vdp_view p}) \<and>
    (\<forall>v. (\<forall>m \<in> set (ml_prepares (wl_message_log w)). vdp_view (vote_pair m) = v) \<and> 0 < f \<and>
       2 * f \<le> length (ml_prepares (wl_message_log w)) \<longrightarrow> qp \<noteq> None)"
proof -
  let ?ps = "ml_prepares (wl_message_log w)"
  have ps: "list_all is_prepare_msg (rev ?ps)" and dist: "distinct (map sender ?ps)"
    using wl_inv_voters [OF inv] by simp_all
  obtain qp where qp: "quorum_prepares_loop (2 * f) None 0 (rev ?ps) = (Ok qp :: (_, 'e) res)"
    and sound: "\<And>p. qp = Some p \<Longrightarrow> p \<in> vote_pair ` set ?ps \<and>
       2 * f \<le> length (filter (\<lambda>m. vdp_view (vote_pair m) = vdp_view p) ?ps)"
    using quorum_prepares_loop_sound [OF ps, of "2 * f" None 0, where 'e = 'e]
    by (auto simp: rev_filter [symmetric])
  have card: "length (filter P ?ps) = card {sender m |m. m \<in> set ?ps \<and> P m}" for P
  proof -
    have "distinct (map sender (filter P ?ps))" using dist by (rule distinct_map_filter)
    then have "length (filter P ?ps) = card (sender ` set (filter P ?ps))"
      using distinct_card [of "map sender (filter P ?ps)"] by simp
    also have "sender ` set (filter P ?ps) = {sender m |m. m \<in> set ?ps \<and> P m}" by auto
    finally show ?thesis .
  qed
  have "qp \<noteq> None" if "\<forall>m \<in> set ?ps. vdp_view (vote_pair m) = v" "0 < f" "2 * f \<le> length ?ps" for v
    using quorum_prepares_loop_same_view [OF ps, of v None 0 "2 * f", where 'e = 'e] that qp by auto
  then show ?thesis
    using qp sound f card
    by (auto simp: wl_deciding_def traverse_prepare_pair [OF ps])
qed

definition sample_prepare :: "NodeId \<Rightarrow> nat StoredConsensusMessage" where
  "sample_prepare p = StoredMessage (Header p [of_nat p] [of_nat p])
     (ConsensusMsg (ConsensusMessage 5 0 0 (Prepare [7])))"

theorem wl_deciding_correct_witness:
  "\<exists>p. wl_deciding 1 (log_prepare (sample_prepare 3) (log_prepare (sample_prepare 1) sample_log)) =
     (Ok (IncompleteProof 5 (PrepareSet [ViewDecisionPair 0 [7], ViewDecisionPair 0 [7]]) (Some p)) ::
       (_, unit) res)"
proof -
  let ?w = "log_prepare (sample_prepare 3) (log_prepare (sample_prepare 1) sample_log)"
  have fresh: "dre_received_prepare_messages (wl_duplicate_detection sample_log) = {}"
    "ml_prepares (wl_message_log sample_log) = []" "wl_seq_no sample_log = 5"
    by (simp_all add: sample_log_def WorkingDecisionLog_new_def dre_default_def with_leader_count_def Let_def)
  have "wl_inv sample_atlas sample_log" unfolding sample_log_def by (rule wl_inv_new) simp_all
  then have "wl_inv sample_atlas ?w"
    using fresh by (intro wl_inv_log_prepare)
      (simp_all add: is_prepare_msg_def sample_prepare_def sender_def log_prepare_def)
  from wl_deciding_correct [OF this, of 1, where 'e = unit] show ?thesis
    using fresh by (auto simp: log_prepare_def sample_prepare_def vote_pair_def prepare_pair_def)
qed

end
