(* ===== verification/Decisions.thy ===== *)
theory Decisions
  imports WorkingLog
begin

text \<open>
  Proofs of decisions and the log of decided instances: the operations of \<open>Proof\<close> in
  \<open>bft/log/decisions/mod.rs\<close>, \<open>DecisionLog\<close> in \<open>bft/log/decided/mod.rs\<close> and \<open>Log\<close> with
  \<open>install_proof\<close>, \<open>finalize_batch\<close>, \<open>operation_key\<close> and the conversion of a proof into the
  decision handed to the executor in \<open>bft/log/mod.rs\<close>.

  A \<open>ProtocolConsensusDecision\<close> and a \<open>Decision\<close> belong to \<open>atlas_core\<close>; they are represented by
  the arguments of the constructor the code calls. A \<open>BatchedDecision\<close> is the list of requests
  added to it.

  Shown: a proof is rebuilt from any arrangement of its messages; ordering succeeds exactly on
  permutations of the announced digests; the branches of \<open>install_proof\<close>; the stored proof of a
  finished batch reproduces the decision that was executed; operation keys identify the client
  and its session.
\<close>

datatype ProofError =
  PrePrepareNotContainedInMetadata | PrePrepareListNotComplete
| WrongPrePrepareCount nat nat | BatchDigestsDoNotMatch

datatype LogError =
  CannotInstallDecisionAlreadyAhead (install_attempt: SeqNo) (already_installed: SeqNo)
| CannotInstallWouldSkip (install_attempt: SeqNo) (currently_installed: SeqNo)

datatype 'o ProtocolConsensusDecision = ProtocolConsensusDecision
  (pcd_seq: SeqNo) (pcd_batch: "'o Request StoredMessage list")
  (pcd_client_rqs: "ClientRqInfo list") (pcd_digest: Digest)

datatype 'o FeDecision =
  DecisionFromMessage SeqNo "'o StoredConsensusMessage"
| DecisionFromMetadataAndMessages SeqNo ProofMetadata "'o StoredConsensusMessage list"
| FullDecisionInfo SeqNo ProofMetadata "'o StoredConsensusMessage list" "'o ProtocolConsensusDecision"
| CompletedDecision SeqNo "'o ProtocolConsensusDecision"

record 'o DecisionLog =
  dl_last_decision :: "'o Proof option"

record 'o Log =
  lg_decided :: "'o DecisionLog"

subsection \<open>Proofs\<close>

fun init_from_messages_loop :: "Digest list \<Rightarrow> 'o StoredConsensusMessage list
    \<Rightarrow> 'o StoredConsensusMessage option list \<times> 'o StoredConsensusMessage list \<times> 'o StoredConsensusMessage list
    \<Rightarrow> ('o StoredConsensusMessage option list \<times> 'o StoredConsensusMessage list \<times> 'o StoredConsensusMessage list,
        ProofError) res" where
  "init_from_messages_loop ord [] acc = Ok acc"
| "init_from_messages_loop ord (x # xs) (pre_prepares, prepares, commits) =
     (case msg x of
        ConsensusMsg c \<Rightarrow>
          (case cm_kind c of
             PrePrepare _ \<Rightarrow>
               (case position (\<lambda>digest. hdr_digest (hdr x) = digest) ord of
                  None \<Rightarrow> Err PrePrepareNotContainedInMetadata
                | Some index \<Rightarrow>
                    init_from_messages_loop ord xs (pre_prepares[index := Some x], prepares, commits))
           | Prepare _ \<Rightarrow> init_from_messages_loop ord xs (pre_prepares, prepares @ [x], commits)
           | Commit _ \<Rightarrow> init_from_messages_loop ord xs (pre_prepares, prepares, commits @ [x]))
      | _ \<Rightarrow> Panic)"

fun all_or_incomplete :: "'a option list \<Rightarrow> ('a list, ProofError) res" where
  "all_or_incomplete [] = Ok []"
| "all_or_incomplete (None # xs) = Err PrePrepareListNotComplete"
| "all_or_incomplete (Some x # xs) = res_map ((#) x) (all_or_incomplete xs)"

definition init_from_messages ::
    "ProofMetadata \<Rightarrow> 'o StoredConsensusMessage list \<Rightarrow> ('o Proof, ProofError) res" where
  "init_from_messages metadata messages =
     res_bind (init_from_messages_loop (pm_pre_prepare_ordering metadata) messages
                 (replicate (length (pm_pre_prepare_ordering metadata)) None, [], []))
       (\<lambda>(pre_prepares, prepares, commits).
          res_bind (all_or_incomplete pre_prepares) (\<lambda>pre_prepares_f.
            Ok (Proof metadata pre_prepares_f prepares commits)))"

definition check_pre_prepare_sizes :: "'o Proof \<Rightarrow> (unit, ProofError) res" where
  "check_pre_prepare_sizes p =
     (let ord = pm_pre_prepare_ordering (pf_metadata p) in
      if length ord \<noteq> length (pf_pre_prepares p)
      then Err (WrongPrePrepareCount (length ord) (length (pf_pre_prepares p))) else Ok ())"

definition are_pre_prepares_ordered :: "'o Proof \<Rightarrow> (bool, ProofError) res" where
  "are_pre_prepares_ordered p =
     res_bind (check_pre_prepare_sizes p) (\<lambda>_.
       let ord = pm_pre_prepare_ordering (pf_metadata p) in
       Ok (\<forall>index < length ord. ord ! index = hdr_digest (hdr (pf_pre_prepares p ! index))))"

fun order_pre_prepares_loop :: "Digest list \<Rightarrow> 'o StoredConsensusMessage list
    \<Rightarrow> 'o StoredConsensusMessage list
    \<Rightarrow> 'o StoredConsensusMessage list \<times> ('o StoredConsensusMessage list, ProofError) res" where
  \<comment> \<open>the remaining messages and the ordered ones; the last argument accumulates the latter\<close>
  "order_pre_prepares_loop [] pps ordered = (pps, Ok ordered)"
| "order_pre_prepares_loop (digest # ds) pps ordered =
     (case position (\<lambda>m. hdr_digest (hdr m) = digest) pps of
        Some index \<Rightarrow>
          order_pre_prepares_loop ds (swap_remove pps index) (ordered @ [pps ! index])
      | None \<Rightarrow> (pps, Err BatchDigestsDoNotMatch))"

definition order_pre_prepares :: "'o Proof \<Rightarrow> 'o Proof \<times> (unit, ProofError) res" where
  "order_pre_prepares p =
     (case check_pre_prepare_sizes p of
        Ok _ \<Rightarrow>
          (case order_pre_prepares_loop (pm_pre_prepare_ordering (pf_metadata p)) (pf_pre_prepares p) [] of
             (rest, Ok ordered) \<Rightarrow> (Proof (pf_metadata p) ordered (pf_prepares p) (pf_commits p), Ok ())
           | (rest, Err e) \<Rightarrow> (Proof (pf_metadata p) rest (pf_prepares p) (pf_commits p), Err e)
           | (rest, Panic) \<Rightarrow> (Proof (pf_metadata p) rest (pf_prepares p) (pf_commits p), Panic))
      | Err e \<Rightarrow> (p, Err e)
      | Panic \<Rightarrow> (p, Panic))"

definition into_parts :: "'o Proof \<Rightarrow> ProofMetadata \<times> 'o StoredConsensusMessage list" where
  "into_parts p = (pf_metadata p, pf_pre_prepares p @ pf_prepares p @ pf_commits p)"

subsection \<open>The log of decisions\<close>

definition DecisionLog_init :: "'o Proof option \<Rightarrow> 'o DecisionLog" where
  "DecisionLog_init last_proof = \<lparr>dl_last_decision = last_proof\<rparr>"

definition append_proof :: "'o Proof \<Rightarrow> 'o DecisionLog \<Rightarrow> 'o DecisionLog" where
  "append_proof p l = l\<lparr>dl_last_decision := Some p\<rparr>"

definition dl_install_proof :: "'o Proof \<Rightarrow> 'o DecisionLog \<Rightarrow> 'o DecisionLog" where
  "dl_install_proof p l = l\<lparr>dl_last_decision := Some p\<rparr>"

definition last_execution :: "'o DecisionLog \<Rightarrow> SeqNo option" where
  "last_execution l = map_option Proof_sequence_number (dl_last_decision l)"

definition DecisionLog_sequence_number :: "atlas \<Rightarrow> 'o DecisionLog \<Rightarrow> SeqNo" where
  "DecisionLog_sequence_number A l =
     (case dl_last_decision l of None \<Rightarrow> ZERO A | Some p \<Rightarrow> Proof_sequence_number p)"

definition initialize_decided_log :: "NodeId \<Rightarrow> 'o Log" where
  "initialize_decided_log node = \<lparr>lg_decided = DecisionLog_init None\<rparr>"

definition last_proof :: "'o Log \<Rightarrow> 'o Proof option" where
  "last_proof l = dl_last_decision (lg_decided l)"

definition proof_requests :: "'o StoredConsensusMessage \<Rightarrow> ('o Request StoredMessage list, 'e) res" where
  "proof_requests m =
     (case msg m of
        ConsensusMsg c \<Rightarrow> (case cm_kind c of PrePrepare reqs \<Rightarrow> Ok reqs | _ \<Rightarrow> Panic)
      | _ \<Rightarrow> Panic)"

definition decision_of_proof :: "atlas \<Rightarrow> 'o Proof \<Rightarrow> ('o ProtocolConsensusDecision, 'e) res" where
  \<comment> \<open>\<open>From<&Proof>\<close>; an unordered proof reaches \<open>todo!()\<close>\<close>
  "decision_of_proof A p =
     (case are_pre_prepares_ordered p of
        Ok True \<Rightarrow>
          res_bind (res_traverse proof_requests (pf_pre_prepares p)) (\<lambda>batches.
            Ok (ProtocolConsensusDecision (pm_seq_no (pf_metadata p)) (concat batches)
                  (map (rq_info A) (concat batches)) (pm_batch_digest (pf_metadata p))))
      | _ \<Rightarrow> Panic)"

definition full_decision :: "atlas \<Rightarrow> 'o Proof \<Rightarrow> ('o FeDecision, LogError) res" where
  "full_decision A p =
     res_bind (decision_of_proof A p) (\<lambda>batch_info.
       let (metadata, messages) = into_parts p in
       Ok (FullDecisionInfo (Proof_sequence_number p) metadata messages batch_info))"

definition install_proof :: "atlas \<Rightarrow> 'o Proof \<Rightarrow> 'o Log \<Rightarrow> 'o Log \<times> ('o FeDecision, LogError) res" where
  "install_proof A p l =
     (case last_execution (lg_decided l) of
        Some decision \<Rightarrow>
          (case index_seq A (pm_seq_no (pf_metadata p)) decision of
             Inl _ \<Rightarrow> (l, Err (CannotInstallDecisionAlreadyAhead (Proof_sequence_number p) decision))
           | Inr i \<Rightarrow>
               if i = 0 then (l, Err (CannotInstallDecisionAlreadyAhead (Proof_sequence_number p) decision))
               else if i = 1 then (l\<lparr>lg_decided := append_proof p (lg_decided l)\<rparr>, full_decision A p)
               else (l, Err (CannotInstallWouldSkip (Proof_sequence_number p) decision)))
      | None \<Rightarrow> (l, full_decision A p))"

definition finalize_batch ::
    "'o CompletedBatch \<Rightarrow> 'o Log \<Rightarrow> 'o Log \<times> 'o ProtocolConsensusDecision" where
  "finalize_batch completed l =
     (let metadata = ProofMetadata (cb_seq completed) (cb_digest completed)
            (cb_pre_prepare_ordering completed) (length (cb_client_requests completed));
          ml = cb_contained_messages completed;
          p = Proof metadata (fml_pre_prepares ml) (fml_prepares ml) (fml_commits ml)
      in (l\<lparr>lg_decided := append_proof p (lg_decided l)\<rparr>,
          ProtocolConsensusDecision (cb_seq completed) (cb_client_requests completed)
            (cb_client_request_info completed) (cb_digest completed)))"

unbundle bit_operations_syntax

definition operation_key_raw :: "32 word \<Rightarrow> 32 word \<Rightarrow> 64 word" where
  "operation_key_raw from session =
     (let client_id = ucast from :: 64 word; session_id = ucast session :: 64 word
      in client_id OR push_bit 32 session_id)"

definition operation_key :: "Header \<Rightarrow> 'o Request \<Rightarrow> 64 word" where
  "operation_key header message =
     operation_key_raw (of_nat (hdr_from header)) (of_nat (rq_session message))"

subsection \<open>Rebuilding a proof\<close>

definition is_pre_prepare_msg :: "'o StoredConsensusMessage \<Rightarrow> bool" where
  "is_pre_prepare_msg m \<longleftrightarrow>
     (case msg m of ConsensusMsg c \<Rightarrow> (case cm_kind c of PrePrepare _ \<Rightarrow> True | _ \<Rightarrow> False) | _ \<Rightarrow> False)"

abbreviation msg_digest :: "'o StoredConsensusMessage \<Rightarrow> Digest" where
  "msg_digest m \<equiv> hdr_digest (hdr m)"

definition proof_wf :: "'o Proof \<Rightarrow> bool" where
  "proof_wf p \<longleftrightarrow>
     map msg_digest (pf_pre_prepares p) = pm_pre_prepare_ordering (pf_metadata p) \<and>
     distinct (pm_pre_prepare_ordering (pf_metadata p)) \<and>
     list_all is_pre_prepare_msg (pf_pre_prepares p) \<and>
     list_all is_prepare_msg (pf_prepares p) \<and> list_all is_commit_msg (pf_commits p)"

definition filled_slots :: "'a list \<Rightarrow> 'a set \<Rightarrow> 'a option list" where
  "filled_slots target S = map (\<lambda>t. if t \<in> S then Some t else None) target"

lemma kinds_disjoint [dest]:
  "is_pre_prepare_msg m \<Longrightarrow> \<not> is_prepare_msg m \<and> \<not> is_commit_msg m"
  "is_prepare_msg m \<Longrightarrow> \<not> is_pre_prepare_msg m \<and> \<not> is_commit_msg m"
  "is_commit_msg m \<Longrightarrow> \<not> is_pre_prepare_msg m \<and> \<not> is_prepare_msg m"
  by (auto simp: is_pre_prepare_msg_def is_prepare_msg_def is_commit_msg_def
      split: PBFTMessage.splits ConsensusMessageKind.splits)

lemma kind_cases:
  "is_consensus (msg m) \<Longrightarrow> is_pre_prepare_msg m \<or> is_prepare_msg m \<or> is_commit_msg m"
  by (auto simp: is_consensus_def is_pre_prepare_msg_def is_prepare_msg_def is_commit_msg_def
      split: PBFTMessage.splits ConsensusMessageKind.splits)

lemma kind_consensus:
  "is_pre_prepare_msg m \<Longrightarrow> is_consensus (msg m)" "is_prepare_msg m \<Longrightarrow> is_consensus (msg m)"
  "is_commit_msg m \<Longrightarrow> is_consensus (msg m)"
  by (auto simp: is_consensus_def is_pre_prepare_msg_def is_prepare_msg_def is_commit_msg_def
      split: PBFTMessage.splits)

lemma init_loop_step:
  "is_pre_prepare_msg x \<Longrightarrow> init_from_messages_loop ord (x # xs) (pps, ps, cs) =
     (case position (\<lambda>digest. msg_digest x = digest) ord of
        None \<Rightarrow> Err PrePrepareNotContainedInMetadata
      | Some index \<Rightarrow> init_from_messages_loop ord xs (pps[index := Some x], ps, cs))"
  "is_prepare_msg x \<Longrightarrow> init_from_messages_loop ord (x # xs) (pps, ps, cs) =
     init_from_messages_loop ord xs (pps, ps @ [x], cs)"
  "is_commit_msg x \<Longrightarrow> init_from_messages_loop ord (x # xs) (pps, ps, cs) =
     init_from_messages_loop ord xs (pps, ps, cs @ [x])"
  by (auto simp: is_pre_prepare_msg_def is_prepare_msg_def is_commit_msg_def
      split: PBFTMessage.splits ConsensusMessageKind.splits)

declare init_from_messages_loop.simps(2) [simp del]

lemma filled_slots_update:
  assumes "distinct target" and "i < length target"
  shows "(filled_slots target S)[i := Some (target ! i)] = filled_slots target (insert (target ! i) S)"
  using assms by (intro nth_equalityI) (auto simp: filled_slots_def nth_list_update nth_eq_iff_index_eq)

lemma init_loop_collects:
  assumes "list_all (\<lambda>m. is_consensus (msg m)) ms"
    and "set (filter is_pre_prepare_msg ms) \<subseteq> set target"
    and ord: "distinct (map msg_digest target)"
  shows "init_from_messages_loop (map msg_digest target) ms (filled_slots target S, ps, cs) =
    Ok (filled_slots target (S \<union> set (filter is_pre_prepare_msg ms)),
        ps @ filter is_prepare_msg ms, cs @ filter is_commit_msg ms)"
  using assms(1,2)
proof (induction ms arbitrary: S ps cs)
  case (Cons m ms)
  from Cons.prems have "is_consensus (msg m)" by simp
  then consider (pp) "is_pre_prepare_msg m" | (p) "is_prepare_msg m" | (c) "is_commit_msg m"
    using kind_cases by blast
  then show ?case
  proof cases
    case pp
    with Cons.prems obtain i where i: "i < length target" "m = target ! i"
      by (auto simp: in_set_conv_nth)
    have "position (\<lambda>digest. msg_digest m = digest) (map msg_digest target) = Some i"
      using i ord by (auto simp: position_Some_iff distinct_conv_nth)
    moreover have "distinct target" using ord by (simp add: distinct_map)
    ultimately show ?thesis
      using pp kinds_disjoint(1) [OF pp] Cons i by (simp add: init_loop_step filled_slots_update)
  next
    case p
    then show ?thesis using kinds_disjoint(2) [OF p] Cons by (simp add: init_loop_step)
  next
    case c
    then show ?thesis using kinds_disjoint(3) [OF c] Cons by (simp add: init_loop_step)
  qed
qed simp

lemma all_or_incomplete_map_Some: "all_or_incomplete (map Some xs) = Ok xs"
  by (induction xs) simp_all

lemma filled_slots_all: "set target \<subseteq> S \<Longrightarrow> filled_slots target S = map Some target"
  by (auto simp: filled_slots_def)

lemma filled_slots_none: "filled_slots target {} = replicate (length target) None"
  by (simp add: filled_slots_def map_replicate_const)

lemma init_from_messages_rebuild:
  assumes "proof_wf p" and "list_all (\<lambda>m. is_consensus (msg m)) ms"
    and "set (filter is_pre_prepare_msg ms) = set (pf_pre_prepares p)"
    and "filter is_prepare_msg ms = pf_prepares p" "filter is_commit_msg ms = pf_commits p"
  shows "init_from_messages (pf_metadata p) ms = Ok p"
proof -
  have "pm_pre_prepare_ordering (pf_metadata p) = map msg_digest (pf_pre_prepares p)"
    "distinct (map msg_digest (pf_pre_prepares p))"
    using assms(1) by (simp_all add: proof_wf_def)
  with assms(2-) init_loop_collects [of ms "pf_pre_prepares p" "{}" "[]" "[]"] show ?thesis
    by (cases p) (simp add: init_from_messages_def filled_slots_none filled_slots_all
        all_or_incomplete_map_Some)
qed

lemma init_from_parts:
  assumes "proof_wf p"
  shows "init_from_messages (pf_metadata p) (snd (into_parts p)) = Ok p"
proof (rule init_from_messages_rebuild [OF assms])
  have k: "list_all is_pre_prepare_msg (pf_pre_prepares p)" "list_all is_prepare_msg (pf_prepares p)"
    "list_all is_commit_msg (pf_commits p)"
    using assms by (simp_all add: proof_wf_def)
  then show "list_all (\<lambda>m. is_consensus (msg m)) (snd (into_parts p))"
    by (auto simp: into_parts_def list_all_iff intro: kind_consensus)
  have "filter is_prepare_msg (pf_pre_prepares p) = []" "filter is_commit_msg (pf_pre_prepares p) = []"
    "filter is_pre_prepare_msg (pf_prepares p) = []" "filter is_commit_msg (pf_prepares p) = []"
    "filter is_pre_prepare_msg (pf_commits p) = []" "filter is_prepare_msg (pf_commits p) = []"
    using k by (auto simp: list_all_iff filter_empty_conv)
  with k show "set (filter is_pre_prepare_msg (snd (into_parts p))) = set (pf_pre_prepares p)"
    "filter is_prepare_msg (snd (into_parts p)) = pf_prepares p"
    "filter is_commit_msg (snd (into_parts p)) = pf_commits p"
    by (simp_all add: into_parts_def list_all_iff)
qed

text \<open>
  C34. A proof survives being taken apart: whatever order the messages of a well-formed proof
  arrive in, as long as the prepares and the commits keep their relative order,
  \<open>init_from_messages\<close> rebuilds the proof from its metadata; in particular from \<open>into_parts\<close>.
\<close>

theorem init_from_messages_roundtrip:
  assumes wf: "proof_wf p"
    and kinds: "list_all (\<lambda>m. is_consensus (msg m)) ms"
      "set (filter is_pre_prepare_msg ms) = set (pf_pre_prepares p)"
      "filter is_prepare_msg ms = pf_prepares p" "filter is_commit_msg ms = pf_commits p"
  shows "init_from_messages (pf_metadata p) ms = Ok p \<and>
    init_from_messages (fst (into_parts p)) (snd (into_parts p)) = Ok p"
  using init_from_messages_rebuild [OF assms] init_from_parts [OF wf] by (simp add: into_parts_def)

definition sample_proof :: "nat Proof" where
  "sample_proof = Proof (ProofMetadata 5 [7] [[7]] 1) [sample_pre_prepare] [sample_prepare 1] [sample_commit 2]"

theorem init_from_messages_roundtrip_witness:
  "init_from_messages (ProofMetadata 5 [7] [[7]] 1)
     [sample_commit 2, sample_prepare 1, sample_pre_prepare] = Ok sample_proof"
  using init_from_messages_roundtrip [of sample_proof "[sample_commit 2, sample_prepare 1, sample_pre_prepare]"]
  by (simp add: sample_proof_def proof_wf_def sample_pre_prepare_def sample_prepare_def sample_commit_def
      is_pre_prepare_msg_def is_prepare_msg_def is_commit_msg_def is_consensus_def)

subsection \<open>Ordering the batches of a proof\<close>

lemma order_loop_Ok:
  "order_pre_prepares_loop ds pps acc = (rest, Ok out) \<Longrightarrow>
   \<exists>new. out = acc @ new \<and> map msg_digest new = ds \<and> mset pps = mset new + mset rest"
proof (induction ds arbitrary: pps acc)
  case (Cons d ds)
  then obtain i where i: "position (\<lambda>m. msg_digest m = d) pps = Some i"
    by (auto split: option.splits)
  then have "i < length pps" "msg_digest (pps ! i) = d" by (auto simp: position_Some_iff)
  moreover from Cons.IH [of "swap_remove pps i" "acc @ [pps ! i]"] Cons.prems i
  obtain new where "out = (acc @ [pps ! i]) @ new" "map msg_digest new = ds"
      "mset (swap_remove pps i) = mset new + mset rest"
    by auto
  ultimately show ?case
    using mset_swap_remove [of i pps] by (intro exI [of _ "pps ! i # new"]) simp
qed simp

lemma order_loop_succeeds:
  "mset ds \<subseteq># mset (map msg_digest pps) \<Longrightarrow>
   \<exists>rest out. order_pre_prepares_loop ds pps acc = (rest, Ok out)"
proof (induction ds arbitrary: pps acc)
  case (Cons d ds)
  then have "d \<in> set (map msg_digest pps)"
    by (metis mset_subset_eqD list.set_intros(1) set_mset_mset)
  then have "\<exists>m \<in> set pps. msg_digest m = d" by auto
  then obtain i where i: "position (\<lambda>m. msg_digest m = d) pps = Some i"
    by (metis (mono_tags, lifting) not_None_eq position_None_iff)
  then have "i < length pps" "msg_digest (pps ! i) = d" by (auto simp: position_Some_iff)
  then have "mset (map msg_digest pps) = add_mset d (mset (map msg_digest (swap_remove pps i)))"
    using arg_cong [OF mset_swap_remove [of i pps], of "image_mset msg_digest"] by simp
  with Cons.prems have "mset ds \<subseteq># mset (map msg_digest (swap_remove pps i))" by simp
  with Cons.IH [of "swap_remove pps i" "acc @ [pps ! i]"] i show ?case by simp
qed simp

text \<open>
  \<open>order_pre_prepares\<close> succeeds exactly when the digests of the batches are a permutation of
  the announced ordering. It then keeps the batches (as a multiset), the metadata and the votes,
  and the proof passes \<open>are_pre_prepares_ordered\<close>.
\<close>

theorem order_pre_prepares_correct:
  shows "(snd (order_pre_prepares p) = Ok ()) =
      (mset (pm_pre_prepare_ordering (pf_metadata p)) = mset (map msg_digest (pf_pre_prepares p))) \<and>
    (snd (order_pre_prepares p) = Ok () \<longrightarrow>
      (let q = fst (order_pre_prepares p) in
       are_pre_prepares_ordered q = Ok True \<and> mset (pf_pre_prepares q) = mset (pf_pre_prepares p) \<and>
       pf_metadata q = pf_metadata p \<and> pf_prepares q = pf_prepares p \<and> pf_commits q = pf_commits p))"
proof -
  let ?ord = "pm_pre_prepare_ordering (pf_metadata p)" and ?pps = "pf_pre_prepares p"
  have ok: "mset ?ord = mset (map msg_digest ?pps) \<and> (let q = fst (order_pre_prepares p) in
       are_pre_prepares_ordered q = Ok True \<and> mset (pf_pre_prepares q) = mset ?pps \<and>
       pf_metadata q = pf_metadata p \<and> pf_prepares q = pf_prepares p \<and> pf_commits q = pf_commits p)"
    if succ: "snd (order_pre_prepares p) = Ok ()"
  proof -
    from succ have len: "length ?ord = length ?pps"
      by (auto simp: order_pre_prepares_def check_pre_prepare_sizes_def Let_def split: if_splits)
    with succ obtain rest out where loop: "order_pre_prepares_loop ?ord ?pps [] = (rest, Ok out)"
      by (auto simp: order_pre_prepares_def check_pre_prepare_sizes_def Let_def split: prod.splits res.splits)
    from order_loop_Ok [OF this] have out: "map msg_digest out = ?ord" "mset ?pps = mset out + mset rest"
      by auto
    have "length out = length ?ord" using out(1) by (metis length_map)
    with out(2) len have "rest = []"
      by (metis add_cancel_right_right length_0_conv size_mset size_union)
    with out loop len show ?thesis
      by (auto simp: order_pre_prepares_def check_pre_prepare_sizes_def are_pre_prepares_ordered_def Let_def
          simp flip: out(1))
  qed
  moreover have "snd (order_pre_prepares p) = Ok ()" if eq: "mset ?ord = mset (map msg_digest ?pps)"
  proof -
    have "length ?ord = length ?pps" using eq by (metis length_map size_mset)
    with order_loop_succeeds [of ?ord ?pps "[]"] eq show ?thesis
      by (auto simp: order_pre_prepares_def check_pre_prepare_sizes_def Let_def)
  qed
  ultimately show ?thesis by blast
qed

definition sample_unordered :: "nat Proof" where
  "sample_unordered = Proof (ProofMetadata 5 [9] [[1], [7]] 1) [sample_pre_prepare, sample_commit 1] [] []"

theorem order_pre_prepares_correct_witness:
  "snd (order_pre_prepares sample_unordered) = Ok () \<and>
   are_pre_prepares_ordered (fst (order_pre_prepares sample_unordered)) = Ok True"
proof -
  have "mset (pm_pre_prepare_ordering (pf_metadata sample_unordered)) =
      mset (map msg_digest (pf_pre_prepares sample_unordered))"
    by (simp add: sample_unordered_def sample_pre_prepare_def sample_commit_def)
  then show ?thesis using order_pre_prepares_correct [of sample_unordered] by (simp add: Let_def)
qed

subsection \<open>Installing and storing decisions\<close>

lemma decision_of_ordered_proof:
  assumes "map msg_digest (pf_pre_prepares p) = pm_pre_prepare_ordering (pf_metadata p)"
    and "list_all is_pre_prepare_msg (pf_pre_prepares p)"
  shows "\<exists>batches. list_all2 is_pre_prepare_of (pf_pre_prepares p) batches \<and>
    decision_of_proof A p = (Ok (ProtocolConsensusDecision (pm_seq_no (pf_metadata p)) (concat batches)
      (map (rq_info A) (concat batches)) (pm_batch_digest (pf_metadata p))) :: (_, 'e) res)"
proof -
  have "\<exists>batches. list_all2 is_pre_prepare_of ms batches \<and>
      res_traverse proof_requests ms = (Ok batches :: (_, 'e) res)"
    if "list_all is_pre_prepare_msg ms" for ms :: "'a StoredConsensusMessage list"
    using that
  proof (induction ms)
    case (Cons m ms)
    then obtain bs where "list_all2 is_pre_prepare_of ms bs"
        "res_traverse proof_requests ms = (Ok bs :: (_, 'e) res)"
      by auto
    moreover from Cons.prems obtain rs where "is_pre_prepare_of m rs"
        "proof_requests m = (Ok rs :: (_, 'e) res)"
      by (auto simp: is_pre_prepare_msg_def is_pre_prepare_of_def proof_requests_def
          split: PBFTMessage.splits ConsensusMessageKind.splits)
    ultimately show ?case by (intro exI [of _ "rs # bs"]) simp
  qed simp
  then obtain bs where "list_all2 is_pre_prepare_of (pf_pre_prepares p) bs"
      "res_traverse proof_requests (pf_pre_prepares p) = (Ok bs :: (_, 'e) res)"
    using assms by auto
  moreover have "are_pre_prepares_ordered p = Ok True"
    using assms(1)
    by (auto simp: are_pre_prepares_ordered_def check_pre_prepare_sizes_def Let_def
        simp flip: assms(1))
  ultimately show ?thesis by (auto simp: decision_of_proof_def)
qed

text \<open>
  C35. Installing a well-formed proof received from another replica: it is refused, with the log
  unchanged and both sequence numbers reported, when its number is at or behind the last
  decision and when it would skip one; the successor of the last decision becomes the last
  decision. On an empty log the decision is handed to the executor but the proof is not kept.
\<close>

theorem install_proof_cases:
  assumes laws: "seq_laws A W" "2 \<le> W" and wf: "proof_wf p"
  shows "case last_execution (lg_decided l) of
      None \<Rightarrow> fst (install_proof A p l) = l \<and> (\<exists>d. snd (install_proof A p l) = Ok d)
    | Some prev \<Rightarrow>
        (if Proof_sequence_number p = next_seq A prev
         then last_proof (fst (install_proof A p l)) = Some p \<and> (\<exists>d. snd (install_proof A p l) = Ok d)
         else fst (install_proof A p l) = l \<and>
              snd (install_proof A p l) \<in>
                {Err (CannotInstallDecisionAlreadyAhead (Proof_sequence_number p) prev),
                 Err (CannotInstallWouldSkip (Proof_sequence_number p) prev)})"
proof -
  have full: "\<exists>d. full_decision A p = Ok d"
    using decision_of_ordered_proof [of p A, where 'e = LogError] wf
    by (auto simp: proof_wf_def full_decision_def into_parts_def)
  show ?thesis
  proof (cases "last_execution (lg_decided l)")
    case None
    then show ?thesis using full by (simp add: install_proof_def)
  next
    case (Some prev)
    have "index_seq A (Proof_sequence_number p) prev = Inr 1 \<longleftrightarrow> Proof_sequence_number p = next_seq A prev"
      using index_seq_at_iff [OF laws(1), of 1 "Proof_sequence_number p" prev] laws(2) by simp
    then show ?thesis using Some full
      by (auto simp: install_proof_def Proof_sequence_number_def append_proof_def last_proof_def
          split: sum.splits if_splits)
  qed
qed

definition sample_decided :: "nat Log" where
  "sample_decided = \<lparr>lg_decided = \<lparr>dl_last_decision = Some (Proof (ProofMetadata 4 [] [] 0) [] [] [])\<rparr>\<rparr>"

theorem install_proof_cases_witness:
  "last_proof (fst (install_proof sample_atlas sample_proof sample_decided)) = Some sample_proof"
  using install_proof_cases [of sample_atlas 2 sample_proof sample_decided]
  by (simp add: sample_proof_def proof_wf_def sample_pre_prepare_def sample_prepare_def sample_commit_def
      is_pre_prepare_msg_def is_prepare_msg_def is_commit_msg_def sample_decided_def last_execution_def
      Proof_sequence_number_def)

lemma is_pre_prepare_of_msg: "is_pre_prepare_of m rs \<Longrightarrow> is_pre_prepare_msg m"
  by (auto simp: is_pre_prepare_of_def is_pre_prepare_msg_def split: PBFTMessage.splits)

lemma is_pre_prepare_of_unique: "is_pre_prepare_of m rs \<Longrightarrow> is_pre_prepare_of m rs' \<Longrightarrow> rs = rs'"
  by (auto simp: is_pre_prepare_of_def split: PBFTMessage.splits)

lemma batches_unique:
  "list_all2 is_pre_prepare_of ms bs \<Longrightarrow> list_all2 is_pre_prepare_of ms cs \<Longrightarrow> bs = cs"
proof (induction ms bs arbitrary: cs rule: list_all2_induct)
  case (Cons m ms rs bs)
  then obtain r cs' where "cs = r # cs'" "is_pre_prepare_of m r" "list_all2 is_pre_prepare_of ms cs'"
    by (auto simp: list_all2_Cons1)
  with Cons show ?case using is_pre_prepare_of_unique [of m rs r] by simp
qed simp

text \<open>
  The proof that the log of decisions keeps of a finished instance, and what it is converted back to.
\<close>

lemma finalize_batch_rebuilt:
  assumes inv: "wl_inv A w"
    and fin: "finish_processing_batch w = (Ok (Some b) :: ('o CompletedBatch option, 'f) res)"
  shows "\<exists>l' dec p. finalize_batch b l = (l', dec) \<and> last_proof l' = Some p \<and>
    Proof_sequence_number p = wl_seq_no w \<and> pf_prepares p = ml_prepares (wl_message_log w) \<and>
    pf_commits p = ml_commits (wl_message_log w) \<and>
    pm_contained_client_rqs (pf_metadata p) = length (pcd_batch dec) \<and>
    pcd_batch dec = concat (map the (wl_contained_requests w)) \<and> pcd_client_rqs dec = wl_client_rqs w \<and>
    decision_of_proof A p = (Ok (ProtocolConsensusDecision (pcd_seq dec) (pcd_batch dec)
      (map (rq_info A) (pcd_batch dec)) (pcd_digest dec)) :: (_, 'e) res)"
proof -
  let ?ml = "cb_contained_messages b"
  let ?p = "Proof (ProofMetadata (cb_seq b) (cb_digest b) (cb_pre_prepare_ordering b)
      (length (cb_client_requests b))) (fml_pre_prepares ?ml) (fml_prepares ?ml) (fml_commits ?ml)"
  have b: "cb_seq b = wl_seq_no w"
    "cb_pre_prepare_ordering b = map msg_digest (fml_pre_prepares ?ml)"
    "list_all2 is_pre_prepare_of (fml_pre_prepares ?ml) (map the (wl_contained_requests w))"
    "cb_client_requests b = concat (map the (wl_contained_requests w))"
    "fml_commits ?ml = ml_commits (wl_message_log w)" "fml_prepares ?ml = ml_prepares (wl_message_log w)"
    using finish_processing_batch_shape [OF inv fin] by simp_all
  have infos: "cb_client_request_info b = wl_client_rqs w"
    using fin by (auto simp: finish_processing_batch_def res_bind_Ok_iff split: option.splits)
  have "list_all is_pre_prepare_msg (fml_pre_prepares ?ml)"
    using b(3) by (auto simp: list_all_length list_all2_conv_all_nth intro: is_pre_prepare_of_msg)
  then obtain bs where bs: "list_all2 is_pre_prepare_of (fml_pre_prepares ?ml) bs"
      "decision_of_proof A ?p = (Ok (ProtocolConsensusDecision (cb_seq b) (concat bs)
        (map (rq_info A) (concat bs)) (cb_digest b)) :: (_, 'e) res)"
    using decision_of_ordered_proof [of ?p A, where 'e = 'e] b(2) by auto
  have "bs = map the (wl_contained_requests w)"
    by (rule batches_unique [OF bs(1) b(3)])
  with bs b infos show ?thesis
    by (simp add: finalize_batch_def Let_def last_proof_def append_proof_def Proof_sequence_number_def)
qed

text \<open>
  An operation key determines the client and its session: both are read back from the low
  and the high half of the key, so no two (client, session) pairs share a key.
\<close>

theorem operation_key_raw_roundtrip:
  "ucast (operation_key_raw from session) = from \<and>
   ucast (drop_bit 32 (operation_key_raw from session)) = session \<and>
   (operation_key_raw from session = operation_key_raw from' session' \<longleftrightarrow>
      from = from' \<and> session = session')"
proof -
  have low: "ucast (operation_key_raw f s) = f" for f s
    by (rule bit_word_eqI) (auto simp: operation_key_raw_def Let_def bit_simps)
  have high: "ucast (drop_bit 32 (operation_key_raw f s)) = s" for f s
    by (rule bit_word_eqI) (auto simp: operation_key_raw_def Let_def bit_simps dest: bit_imp_le_length)
  show ?thesis using low high by metis
qed

end
