(* ===== verification/DecisionInstance.thy ===== *)
theory DecisionInstance
  imports Decisions "HOL-Library.AList"
begin

text \<open>
  One consensus instance: \<open>ConsensusDecision\<close> with its message queue
  (\<open>bft/consensus/decision/mod.rs\<close>), its accessory, which sends the votes
  (\<open>bft/consensus/accessory\<close>), and the reading of a batch's requests
  (\<open>request_batch_received\<close> of \<open>bft/sync\<close>).

  \<open>process_message\<close> is split by phase as the code's \<open>match\<close> is; each part returns the new
  decision, the messages handed to the network and to the time-outs, in order, and the
  \<open>Result\<close>. The random nonces of the messages a step creates are an argument.

  The speculative commits are filled in by a task of the thread pool. The shared map is
  \<open>ra_speculative_commits\<close>, the insertions the task still has to do are \<open>ra_tasks\<close>, and
  \<open>run_speculative\<close> does one of them, so that the steps of the decision and of the task can
  interleave in any way. Time stamps, metrics and serialisation are left out.

  Shown: the invariant \<open>dn_inv\<close> is kept by polling, processing and the background task in any
  interleaving, no step panics, a decided instance has a quorum of distinct commit senders for
  its digest, and every vote the replica sends is for that digest.
\<close>

datatype DecisionPhase = Initialize | PrePreparing nat | Preparing nat | Committing nat | Decided

datatype 'o DecisionPollStatus =
  TryPropose | Recv | NextMessage "'o StoredConsensusMessage" | Decided

datatype 'o DecisionStatus =
  VotedTwice NodeId | MessageIgnored | MessageQueued
| Deciding "'o StoredConsensusMessage"
| Transitioned "ProofMetadata option" "'o StoredConsensusMessage"
| Decided "'o StoredConsensusMessage" | DecidedIgnored

datatype DecisionError =
  CannotFinalizeUndecidedBatch SeqNo | FailedToFinalizeBatch SeqNo

record 'o MessageQueue =
  mq_get_queue :: bool
  mq_pre_prepares :: "'o StoredConsensusMessage list"
  mq_prepares :: "'o StoredConsensusMessage list"
  mq_commits :: "'o StoredConsensusMessage list"

record 'o ReplicaAccessory =
  ra_speculative_commits :: "(NodeId \<times> 'o PBFTMessage) list"
  ra_tasks :: "(NodeId \<times> 'o PBFTMessage) list"

datatype 'o ConsensusDecisionAccessory = Follower | Replica "'o ReplicaAccessory"

datatype SynchronizerRole = ReplicaSynchronizer | FollowerSynchronizer

text \<open>What a step hands to other components: messages to send and calls of the time-outs.\<close>

datatype 'o effect =
  BroadcastSigned "'o PBFTMessage" "NodeId list"
| BroadcastSerialized "(NodeId \<times> 'o PBFTMessage) list"
| AcksReceived "ClientRqInfo list" NodeId
| CancelAllTimeouts

record 'o ConsensusDecision =
  dn_node_id :: NodeId
  dn_seq :: SeqNo
  dn_phase :: DecisionPhase
  dn_message_queue :: "'o MessageQueue"
  dn_working_log :: "'o WorkingDecisionLog"
  dn_accessory :: "'o ConsensusDecisionAccessory"

subsection \<open>Message queue\<close>

definition MessageQueue_new :: "'o MessageQueue" where
  "MessageQueue_new = \<lparr>mq_get_queue = False, mq_pre_prepares = [], mq_prepares = [], mq_commits = []\<rparr>"

definition from_messages :: "'o StoredConsensusMessage list \<Rightarrow> 'o StoredConsensusMessage list
    \<Rightarrow> 'o StoredConsensusMessage list \<Rightarrow> 'o MessageQueue" where
  "from_messages pre_prepares prepares commits =
     \<lparr>mq_get_queue = (pre_prepares \<noteq> [] \<or> prepares \<noteq> [] \<or> commits \<noteq> []),
      mq_pre_prepares = pre_prepares, mq_prepares = prepares, mq_commits = commits\<rparr>"

definition mq_signal :: "'o MessageQueue \<Rightarrow> 'o MessageQueue" where
  "mq_signal q = q\<lparr>mq_get_queue := True\<rparr>"

definition queue_pre_prepare :: "'o StoredConsensusMessage \<Rightarrow> 'o MessageQueue \<Rightarrow> 'o MessageQueue" where
  "queue_pre_prepare m q = mq_signal (q\<lparr>mq_pre_prepares := mq_pre_prepares q @ [m]\<rparr>)"

definition queue_prepare :: "'o StoredConsensusMessage \<Rightarrow> 'o MessageQueue \<Rightarrow> 'o MessageQueue" where
  "queue_prepare m q = mq_signal (q\<lparr>mq_prepares := mq_prepares q @ [m]\<rparr>)"

definition queue_commit :: "'o StoredConsensusMessage \<Rightarrow> 'o MessageQueue \<Rightarrow> 'o MessageQueue" where
  "queue_commit m q = mq_signal (q\<lparr>mq_commits := mq_commits q @ [m]\<rparr>)"

subsection \<open>The accessory\<close>

definition ReplicaAccessory_new :: "'o ReplicaAccessory" where
  "ReplicaAccessory_new = \<lparr>ra_speculative_commits = [], ra_tasks = []\<rparr>"

definition run_speculative :: "'o ReplicaAccessory \<Rightarrow> 'o ReplicaAccessory" where
  \<comment> \<open>one turn of the loop in the closure given to the thread pool\<close>
  "run_speculative ra =
     (case ra_tasks ra of
        [] \<Rightarrow> ra
      | (peer_id, stored) # rest \<Rightarrow>
          ra\<lparr>ra_speculative_commits := AList.update peer_id stored (ra_speculative_commits ra),
             ra_tasks := rest\<rparr>)"

definition rep_handle_pre_prepare_phase_completed :: "atlas \<Rightarrow> nat \<times> nat \<Rightarrow> 'o WorkingDecisionLog
    \<Rightarrow> ViewInfo \<Rightarrow> 'o ReplicaAccessory \<Rightarrow> ('o ReplicaAccessory \<times> 'o effect list, 'e) res" where
  "rep_handle_pre_prepare_phase_completed A nonces deciding_log view ra =
     (case wl_batch_digest deciding_log of
        None \<Rightarrow> Panic
      | Some current_digest \<Rightarrow>
          let seq = wl_seq_no deciding_log;
              commit = ConsensusMsg (ConsensusMessage_new (fst nonces) seq (vi_seq view) (Commit current_digest));
              task = map (\<lambda>peer_id. (peer_id, commit)) (node_targets A 0 (view_n view));
              message = ConsensusMsg (ConsensusMessage_new (snd nonces) seq (vi_seq view) (Prepare current_digest))
          in Ok (ra\<lparr>ra_tasks := ra_tasks ra @ task\<rparr>,
                 [BroadcastSigned message (vi_quorum_members view)]))"

definition take_speculative_commits ::
    "'o ReplicaAccessory \<Rightarrow> 'o ReplicaAccessory \<times> (NodeId \<times> 'o PBFTMessage) list" where
  "take_speculative_commits ra = (ra\<lparr>ra_speculative_commits := []\<rparr>, ra_speculative_commits ra)"

definition valid_spec_commits ::
    "atlas \<Rightarrow> (NodeId \<times> 'o PBFTMessage) list \<Rightarrow> SeqNo \<Rightarrow> ViewInfo \<Rightarrow> bool" where
  "valid_spec_commits A speculative_commits seq_no view =
     (if length speculative_commits \<noteq> view_n view then False
      else \<forall>commit \<in> snd ` set speculative_commits. PBFTMessage_sequence_number A commit = seq_no)"

definition rep_handle_preparing_quorum :: "atlas \<Rightarrow> nat \<Rightarrow> 'o WorkingDecisionLog
    \<Rightarrow> ViewInfo \<Rightarrow> 'o ReplicaAccessory \<Rightarrow> ('o ReplicaAccessory \<times> 'o effect list, 'e) res" where
  "rep_handle_preparing_quorum A nonce deciding_log view ra =
     (case wl_batch_digest deciding_log of
        None \<Rightarrow> Panic
      | Some current_digest \<Rightarrow>
          let seq = wl_seq_no deciding_log;
              (ra', speculative_commits) = take_speculative_commits ra
          in if valid_spec_commits A speculative_commits seq view
             then Ok (ra', [BroadcastSerialized speculative_commits])
             else Ok (ra', [BroadcastSigned
                    (ConsensusMsg (ConsensusMessage_new nonce seq (vi_seq view) (Commit current_digest)))
                    (vi_quorum_members view)]))"

definition handle_pre_prepare_phase_completed :: "atlas \<Rightarrow> nat \<times> nat \<Rightarrow> 'o WorkingDecisionLog
    \<Rightarrow> ViewInfo \<Rightarrow> 'o ConsensusDecisionAccessory
    \<Rightarrow> ('o ConsensusDecisionAccessory \<times> 'o effect list, 'e) res" where
  "handle_pre_prepare_phase_completed A nonces log view acc =
     (case acc of
        Follower \<Rightarrow> Ok (Follower, [])
      | Replica ra \<Rightarrow> res_map (\<lambda>(ra', es). (Replica ra', es))
                       (rep_handle_pre_prepare_phase_completed A nonces log view ra))"

definition handle_preparing_quorum :: "atlas \<Rightarrow> nat \<Rightarrow> 'o WorkingDecisionLog
    \<Rightarrow> ViewInfo \<Rightarrow> 'o ConsensusDecisionAccessory
    \<Rightarrow> ('o ConsensusDecisionAccessory \<times> 'o effect list, 'e) res" where
  "handle_preparing_quorum A nonce log view acc =
     (case acc of
        Follower \<Rightarrow> Ok (Follower, [])
      | Replica ra \<Rightarrow> res_map (\<lambda>(ra', es). (Replica ra', es))
                       (rep_handle_preparing_quorum A nonce log view ra))"

text \<open>The other callbacks of the accessory have an empty body for replicas and followers.\<close>

subsection \<open>Reading a batch\<close>

definition rq_info_list :: "'o Request StoredMessage list \<Rightarrow> ClientRqInfo list" where
  "rq_info_list requests = map (\<lambda>x.
     ClientRqInfo (hdr_unique_digest (hdr x)) (hdr_from (hdr x)) (rq_seq (msg x)) (rq_session (msg x))) requests"

definition received_request_batch ::
    "Header \<Rightarrow> 'o ConsensusMessage \<Rightarrow> (ClientRqInfo list \<times> 'o effect list, 'e) res" where
  "received_request_batch header pre_prepare =
     (case cm_kind pre_prepare of
        PrePrepare requests \<Rightarrow>
          Ok (rq_info_list requests, [AcksReceived (rq_info_list requests) (hdr_from header)])
      | _ \<Rightarrow> Panic)"

definition watch_request_batch :: "'o ConsensusMessage \<Rightarrow> (ClientRqInfo list, 'e) res" where
  "watch_request_batch pre_prepare =
     (case cm_kind pre_prepare of PrePrepare requests \<Rightarrow> Ok (rq_info_list requests) | _ \<Rightarrow> Panic)"

definition request_batch_received :: "SynchronizerRole \<Rightarrow> Header \<Rightarrow> 'o ConsensusMessage
    \<Rightarrow> (ClientRqInfo list \<times> 'o effect list, 'e) res" where
  "request_batch_received role header pre_prepare =
     (case role of
        ReplicaSynchronizer \<Rightarrow> received_request_batch header pre_prepare
      | FollowerSynchronizer \<Rightarrow> res_map (\<lambda>digests. (digests, [])) (watch_request_batch pre_prepare))"

subsection \<open>The decision\<close>

definition init_decision :: "NodeId \<Rightarrow> SeqNo \<Rightarrow> ViewInfo \<Rightarrow> 'o ConsensusDecision" where
  "init_decision node_id seq_no view =
     \<lparr>dn_node_id = node_id, dn_seq = seq_no, dn_phase = Initialize,
      dn_message_queue = MessageQueue_new, dn_working_log = WorkingDecisionLog_new node_id seq_no view,
      dn_accessory = Replica ReplicaAccessory_new\<rparr>"

definition init_with_msg_log ::
    "NodeId \<Rightarrow> SeqNo \<Rightarrow> ViewInfo \<Rightarrow> 'o MessageQueue \<Rightarrow> 'o ConsensusDecision" where
  "init_with_msg_log node_id seq_no view message_queue =
     \<lparr>dn_node_id = node_id, dn_seq = seq_no, dn_phase = Initialize,
      dn_message_queue = message_queue, dn_working_log = WorkingDecisionLog_new node_id seq_no view,
      dn_accessory = Replica ReplicaAccessory_new\<rparr>"

definition dn_queue :: "'o StoredConsensusMessage \<Rightarrow> 'o ConsensusDecision \<Rightarrow> ('o ConsensusDecision, 'e) res" where
  "dn_queue message d =
     res_bind (consensus (msg message)) (\<lambda>c.
       Ok (d\<lparr>dn_message_queue :=
         (case cm_kind c of
            PrePrepare _ \<Rightarrow> queue_pre_prepare message (dn_message_queue d)
          | Prepare _ \<Rightarrow> queue_prepare message (dn_message_queue d)
          | Commit _ \<Rightarrow> queue_commit message (dn_message_queue d))\<rparr>))"

definition dn_poll :: "'o ConsensusDecision \<Rightarrow> 'o ConsensusDecision \<times> 'o DecisionPollStatus" where
  "dn_poll d =
     (let q = dn_message_queue d in
      case dn_phase d of
        Initialize \<Rightarrow> (d\<lparr>dn_phase := PrePreparing 0\<rparr>, TryPropose)
      | PrePreparing _ \<Rightarrow>
          if mq_get_queue q
          then (case mq_pre_prepares q of
                  stored # rest \<Rightarrow> (d\<lparr>dn_message_queue := q\<lparr>mq_pre_prepares := rest\<rparr>\<rparr>, NextMessage stored)
                | [] \<Rightarrow> (d\<lparr>dn_message_queue := q\<lparr>mq_get_queue := False\<rparr>\<rparr>, Recv))
          else (d, Recv)
      | Preparing _ \<Rightarrow>
          if mq_get_queue q
          then (case mq_prepares q of
                  stored # rest \<Rightarrow> (d\<lparr>dn_message_queue := q\<lparr>mq_prepares := rest\<rparr>\<rparr>, NextMessage stored)
                | [] \<Rightarrow> (d\<lparr>dn_message_queue := q\<lparr>mq_get_queue := False\<rparr>\<rparr>, Recv))
          else (d, Recv)
      | Committing _ \<Rightarrow>
          if mq_get_queue q
          then (case mq_commits q of
                  stored # rest \<Rightarrow> (d\<lparr>dn_message_queue := q\<lparr>mq_commits := rest\<rparr>\<rparr>, NextMessage stored)
                | [] \<Rightarrow> (d\<lparr>dn_message_queue := q\<lparr>mq_get_queue := False\<rparr>\<rparr>, Recv))
          else (d, Recv)
      | DecisionPhase.Decided \<Rightarrow> (d, DecisionPollStatus.Decided))"

definition skip_init_phase :: "'o ConsensusDecision \<Rightarrow> 'o ConsensusDecision" where
  "skip_init_phase d = d\<lparr>dn_phase := PrePreparing 0\<rparr>"

definition dn_update_current_view :: "ViewInfo \<Rightarrow> 'o ConsensusDecision \<Rightarrow> 'o ConsensusDecision" where
  "dn_update_current_view view d = d\<lparr>dn_working_log := wl_update_current_view view (dn_working_log d)\<rparr>"

type_synonym 'o process_result =
  "'o ConsensusDecision \<times> 'o effect list \<times> ('o DecisionStatus, DecidingLogError) res"

text \<open>
  A batch that passed the checks of the pre-preparing phase. The result of the accessory is
  appended to what the reading of the batch already sent.
\<close>

definition accept_pre_prepare :: "atlas \<Rightarrow> SynchronizerRole \<Rightarrow> nat \<times> nat \<Rightarrow> ViewInfo
    \<Rightarrow> 'o StoredConsensusMessage \<Rightarrow> 'o ConsensusMessage \<Rightarrow> nat \<Rightarrow> 'o ConsensusDecision \<Rightarrow> 'o process_result" where
  "accept_pre_prepare A role nonces view s_message message received d =
     (case request_batch_received role (hdr s_message) message of
        Ok (digests, es) \<Rightarrow>
          (case process_pre_prepare A s_message (hdr_digest (hdr s_message)) digests (dn_working_log d) of
             (log, Ok batch_metadata) \<Rightarrow>
               if received = length (vi_leader_set view)
               then (case batch_metadata of
                       None \<Rightarrow> (d\<lparr>dn_working_log := log\<rparr>, es, Panic)
                     | Some metadata \<Rightarrow>
                         (case handle_pre_prepare_phase_completed A nonces log view (dn_accessory d) of
                            Ok (acc, es') \<Rightarrow>
                              (d\<lparr>dn_working_log := log, dn_accessory := acc,
                                 dn_message_queue := mq_signal (dn_message_queue d),
                                 dn_phase := Preparing 0\<rparr>,
                               es @ es', Ok (Transitioned (Some metadata) s_message))
                          | Err e \<Rightarrow> (d\<lparr>dn_working_log := log\<rparr>, es, Err e)
                          | Panic \<Rightarrow> (d\<lparr>dn_working_log := log\<rparr>, es, Panic)))
               else (d\<lparr>dn_working_log := log, dn_phase := PrePreparing received\<rparr>, es,
                     Ok (Deciding s_message))
           | (log, Err e) \<Rightarrow> (d\<lparr>dn_working_log := log\<rparr>, es, Err e)
           | (log, Panic) \<Rightarrow> (d\<lparr>dn_working_log := log\<rparr>, es, Panic))
      | Err e \<Rightarrow> (d, [], Err e)
      | Panic \<Rightarrow> (d, [], Panic))"

definition process_pre_preparing :: "atlas \<Rightarrow> SynchronizerRole \<Rightarrow> nat \<times> nat \<Rightarrow> ViewInfo
    \<Rightarrow> 'o StoredConsensusMessage \<Rightarrow> 'o ConsensusMessage \<Rightarrow> nat \<Rightarrow> 'o ConsensusDecision \<Rightarrow> 'o process_result" where
  "process_pre_preparing A role nonces view s_message message received d =
     (case cm_kind message of
        PrePrepare _ \<Rightarrow>
          if cm_view message \<noteq> vi_seq view then (d, [], Ok MessageIgnored)
          else if hdr_from (hdr s_message) \<notin> set (vi_leader_set view) then (d, [], Ok MessageIgnored)
          else if cm_seq message \<noteq> dn_seq d then (d, [], Ok MessageIgnored)
          else accept_pre_prepare A role nonces view s_message message (received + 1) d
      | Prepare _ \<Rightarrow>
          (d\<lparr>dn_message_queue := queue_prepare s_message (dn_message_queue d)\<rparr>, [], Ok MessageQueued)
      | Commit _ \<Rightarrow>
          (d\<lparr>dn_message_queue := queue_commit s_message (dn_message_queue d)\<rparr>, [], Ok MessageQueued))"

definition accept_prepare :: "atlas \<Rightarrow> nat \<Rightarrow> ViewInfo \<Rightarrow> 'o StoredConsensusMessage \<Rightarrow> nat
    \<Rightarrow> 'o ConsensusDecision \<Rightarrow> 'o process_result" where
  "accept_prepare A nonce view s_message received d =
     (case wl_process_message s_message (dn_working_log d) of
        (log, Ok _) \<Rightarrow>
          if received = sp_quorum (vi_params view)
          then (case handle_preparing_quorum A nonce log view (dn_accessory d) of
                  Ok (acc, es) \<Rightarrow>
                    (d\<lparr>dn_working_log := log, dn_accessory := acc,
                       dn_message_queue := mq_signal (dn_message_queue d), dn_phase := Committing 0\<rparr>,
                     es, Ok (Transitioned None s_message))
                | Err e \<Rightarrow> (d\<lparr>dn_working_log := log\<rparr>, [], Err e)
                | Panic \<Rightarrow> (d\<lparr>dn_working_log := log\<rparr>, [], Panic))
          else (d\<lparr>dn_working_log := log, dn_phase := Preparing received\<rparr>, [], Ok (Deciding s_message))
      | (log, Err e) \<Rightarrow> (d\<lparr>dn_working_log := log\<rparr>, [], Err e)
      | (log, Panic) \<Rightarrow> (d\<lparr>dn_working_log := log\<rparr>, [], Panic))"

definition process_preparing :: "atlas \<Rightarrow> nat \<Rightarrow> ViewInfo \<Rightarrow> 'o StoredConsensusMessage
    \<Rightarrow> 'o ConsensusMessage \<Rightarrow> nat \<Rightarrow> 'o ConsensusDecision \<Rightarrow> 'o process_result" where
  "process_preparing A nonce view s_message message received d =
     (case cm_kind message of
        PrePrepare _ \<Rightarrow> (d, [], Ok MessageIgnored)
      | Commit _ \<Rightarrow>
          (d\<lparr>dn_message_queue := queue_commit s_message (dn_message_queue d)\<rparr>, [], Ok MessageQueued)
      | Prepare dg \<Rightarrow>
          if cm_view message \<noteq> vi_seq view then (d, [], Ok MessageIgnored)
          else if cm_seq message \<noteq> dn_seq d then (d, [], Ok MessageIgnored)
          else (case wl_batch_digest (dn_working_log d) of
                  None \<Rightarrow> (d, [], Panic)
                | Some current_digest \<Rightarrow>
                    if dg \<noteq> current_digest then (d, [], Ok MessageIgnored)
                    else accept_prepare A nonce view s_message (received + 1) d))"

definition process_committing :: "ViewInfo \<Rightarrow> 'o StoredConsensusMessage
    \<Rightarrow> 'o ConsensusMessage \<Rightarrow> nat \<Rightarrow> 'o ConsensusDecision \<Rightarrow> 'o process_result" where
  "process_committing view s_message message received d =
     (case cm_kind message of
        Commit dg \<Rightarrow>
          if cm_seq message \<noteq> dn_seq d then (d, [], Ok MessageIgnored)
          else if cm_view message \<noteq> vi_seq view then (d, [], Ok MessageIgnored)
          else (case wl_batch_digest (dn_working_log d) of
                  None \<Rightarrow> (d, [], Panic)
                | Some current_digest \<Rightarrow>
                    if dg \<noteq> current_digest then (d, [], Ok MessageIgnored)
                    else
                      (case wl_process_message s_message (dn_working_log d) of
                         (log, Ok _) \<Rightarrow>
                           if received + 1 = sp_quorum (vi_params view)
                           then (d\<lparr>dn_working_log := log, dn_phase := DecisionPhase.Decided\<rparr>, [],
                                 Ok (DecisionStatus.Decided s_message))
                           else (d\<lparr>dn_working_log := log, dn_phase := Committing (received + 1)\<rparr>, [],
                                 Ok (Deciding s_message))
                       | (log, Err e) \<Rightarrow> (d\<lparr>dn_working_log := log\<rparr>, [], Err e)
                       | (log, Panic) \<Rightarrow> (d\<lparr>dn_working_log := log\<rparr>, [], Panic)))
      | _ \<Rightarrow> (d, [], Ok MessageIgnored))"

definition dn_process_message :: "atlas \<Rightarrow> SynchronizerRole \<Rightarrow> nat \<times> nat \<Rightarrow> ViewInfo
    \<Rightarrow> 'o StoredConsensusMessage \<Rightarrow> 'o ConsensusDecision \<Rightarrow> 'o process_result" where
  \<comment> \<open>\<open>view\<close> is the view of the synchronizer, \<open>role\<close> its accessory\<close>
  "dn_process_message A role nonces view s_message d =
     (case consensus (msg s_message) of
        Ok message \<Rightarrow>
          (case dn_phase d of
             Initialize \<Rightarrow>
               (case dn_queue s_message d of
                  Ok d' \<Rightarrow> (d', [], Ok MessageQueued)
                | Err e \<Rightarrow> (d, [], Err e)
                | Panic \<Rightarrow> (d, [], Panic))
           | PrePreparing received \<Rightarrow> process_pre_preparing A role nonces view s_message message received d
           | Preparing received \<Rightarrow> process_preparing A (fst nonces) view s_message message received d
           | Committing received \<Rightarrow> process_committing view s_message message received d
           | DecisionPhase.Decided \<Rightarrow> (d, [], Ok DecidedIgnored))
      | Err e \<Rightarrow> (d, [], Err e)
      | Panic \<Rightarrow> (d, [], Panic))"

definition is_finalizeable :: "'o ConsensusDecision \<Rightarrow> bool" where
  "is_finalizeable d \<longleftrightarrow> dn_phase d = DecisionPhase.Decided"

definition dn_finalize :: "'o ConsensusDecision \<Rightarrow> ('o CompletedBatch, DecisionError) res" where
  "dn_finalize d =
     (if dn_phase d = DecisionPhase.Decided
      then (case finish_processing_batch (dn_working_log d) of
              Ok (Some b) \<Rightarrow> Ok b
            | Ok None \<Rightarrow> Err (FailedToFinalizeBatch (dn_seq d))
            | Err e \<Rightarrow> Err e
            | Panic \<Rightarrow> Panic)
      else Err (CannotFinalizeUndecidedBatch (dn_seq d)))"

definition dn_deciding :: "nat \<Rightarrow> 'o ConsensusDecision \<Rightarrow> (IncompleteProof, 'e) res" where
  "dn_deciding f d = wl_deciding f (dn_working_log d)"

definition dn_run_speculative :: "'o ConsensusDecision \<Rightarrow> 'o ConsensusDecision" where
  "dn_run_speculative d =
     (case dn_accessory d of
        Follower \<Rightarrow> d
      | Replica ra \<Rightarrow> d\<lparr>dn_accessory := Replica (run_speculative ra)\<rparr>)"

subsection \<open>The invariant of a decision\<close>

definition vote_for :: "SeqNo \<Rightarrow> SeqNo \<Rightarrow> Digest \<Rightarrow> 'o StoredConsensusMessage \<Rightarrow> bool" where
  "vote_for view seq dg m \<longleftrightarrow>
     (case msg m of
        ConsensusMsg c \<Rightarrow> cm_seq c = seq \<and> cm_view c = view \<and> (cm_kind c = Prepare dg \<or> cm_kind c = Commit dg)
      | _ \<Rightarrow> False)"

definition commit_payload :: "SeqNo \<Rightarrow> SeqNo \<Rightarrow> Digest option \<Rightarrow> 'o PBFTMessage \<Rightarrow> bool" where
  "commit_payload view seq dgo x \<longleftrightarrow>
     (case x of
        ConsensusMsg c \<Rightarrow> cm_seq c = seq \<and> cm_view c = view \<and>
          (case cm_kind c of Commit dg \<Rightarrow> dgo = Some dg | _ \<Rightarrow> False)
      | _ \<Rightarrow> False)"

definition prepare_payload :: "SeqNo \<Rightarrow> SeqNo \<Rightarrow> Digest option \<Rightarrow> 'o PBFTMessage \<Rightarrow> bool" where
  "prepare_payload view seq dgo x \<longleftrightarrow>
     (case x of
        ConsensusMsg c \<Rightarrow> cm_seq c = seq \<and> cm_view c = view \<and>
          (case cm_kind c of Prepare dg \<Rightarrow> dgo = Some dg | _ \<Rightarrow> False)
      | _ \<Rightarrow> False)"

definition acc_ok :: "SeqNo \<Rightarrow> SeqNo \<Rightarrow> Digest option \<Rightarrow> 'o ConsensusDecisionAccessory \<Rightarrow> bool" where
  "acc_ok view seq dgo acc \<longleftrightarrow>
     (case acc of
        Follower \<Rightarrow> True
      | Replica ra \<Rightarrow> \<forall>(p, x) \<in> set (ra_speculative_commits ra) \<union> set (ra_tasks ra). commit_payload view seq dgo x)"

definition mq_ok :: "'o MessageQueue \<Rightarrow> bool" where
  "mq_ok q \<longleftrightarrow> list_all is_pre_prepare_msg (mq_pre_prepares q) \<and>
     list_all is_prepare_msg (mq_prepares q) \<and> list_all is_commit_msg (mq_commits q)"

definition phase_ok :: "nat \<Rightarrow> 'o WorkingDecisionLog \<Rightarrow> DecisionPhase \<Rightarrow> bool" where
  "phase_ok quorum w phase \<longleftrightarrow>
     (let p = length (ml_prepares (wl_message_log w)); c = length (ml_commits (wl_message_log w)) in
      case phase of
        Initialize \<Rightarrow> wl_current_received_pre_prepares w = 0 \<and> p = 0 \<and> c = 0
      | PrePreparing r \<Rightarrow> r = wl_current_received_pre_prepares w \<and> \<not> wl_complete w \<and> p = 0 \<and> c = 0
      | Preparing r \<Rightarrow> wl_complete w \<and> r = p \<and> p < quorum \<and> c = 0
      | Committing r \<Rightarrow> wl_complete w \<and> p = quorum \<and> r = c \<and> c < quorum
      | DecisionPhase.Decided \<Rightarrow> wl_complete w \<and> p = quorum \<and> c = quorum)"

definition votes_match :: "SeqNo \<Rightarrow> 'o WorkingDecisionLog \<Rightarrow> bool" where
  "votes_match view w \<longleftrightarrow>
     (\<forall>m \<in> set (ml_prepares (wl_message_log w)) \<union> set (ml_commits (wl_message_log w)).
        \<exists>dg. wl_batch_digest w = Some dg \<and> vote_for view (wl_seq_no w) dg m)"

definition infos_ok :: "'o WorkingDecisionLog \<Rightarrow> bool" where
  \<comment> \<open>the infos, in the order of arrival, are those of the stored requests\<close>
  "infos_ok w \<longleftrightarrow>
     (let infos = rq_info_list (concat (map (case_option [] id) (wl_contained_requests w))) in
      mset (wl_client_rqs w) = mset infos \<and> (length (wl_leader_set w) = 1 \<longrightarrow> wl_client_rqs w = infos))"

definition dn_inv :: "atlas \<Rightarrow> ViewInfo \<Rightarrow> 'o ConsensusDecision \<Rightarrow> bool" where
  "dn_inv A v d \<longleftrightarrow>
     (let w = dn_working_log d in
      wl_inv A w \<and> infos_ok w \<and> wl_seq_no w = dn_seq d \<and> wl_leader_set w = vi_leader_set v \<and>
      votes_match (vi_seq v) w \<and> mq_ok (dn_message_queue d) \<and>
      acc_ok (vi_seq v) (dn_seq d) (wl_batch_digest w) (dn_accessory d) \<and>
      phase_ok (view_quorum v) w (dn_phase d))"

text \<open>What a step may send: votes of this view and instance for the digest of the batch.\<close>

definition effect_ok :: "ViewInfo \<Rightarrow> SeqNo \<Rightarrow> Digest option \<Rightarrow> 'o effect \<Rightarrow> bool" where
  "effect_ok v seq dgo e \<longleftrightarrow>
     (case e of
        BroadcastSigned x targets \<Rightarrow> targets = vi_quorum_members v \<and>
          (prepare_payload (vi_seq v) seq dgo x \<or> commit_payload (vi_seq v) seq dgo x)
      | BroadcastSerialized xs \<Rightarrow> length xs = view_n v \<and> (\<forall>(p, x) \<in> set xs. commit_payload (vi_seq v) seq dgo x)
      | _ \<Rightarrow> True)"

definition step_ok :: "atlas \<Rightarrow> ViewInfo \<Rightarrow> 'o process_result \<Rightarrow> bool" where
  "step_ok A v r \<longleftrightarrow>
     (case r of (d', es, st) \<Rightarrow>
        dn_inv A v d' \<and> st \<noteq> Panic \<and>
        list_all (effect_ok v (dn_seq d') (wl_batch_digest (dn_working_log d'))) es)"

subsection \<open>Preservation\<close>

lemma infos_ok_votes [simp]: "infos_ok (log_prepare m w) = infos_ok w" "infos_ok (log_commit m w) = infos_ok w"
  by (simp_all add: infos_ok_def log_prepare_def log_commit_def)

lemma infos_ok_new: "infos_ok (WorkingDecisionLog_new node seq v)"
  by (simp add: infos_ok_def WorkingDecisionLog_new_def Let_def rq_info_list_def)

lemma concat_update_mset:
  "i < length xs \<Longrightarrow> xs ! i = None \<Longrightarrow>
   mset (concat (map (case_option [] id) (xs[i := Some r]))) = mset (concat (map (case_option [] id) xs)) + mset r"
proof (induction xs arbitrary: i)
  case (Cons x xs)
  then show ?case by (cases i) simp_all
qed simp

lemma infos_ok_log_pre_prepare:
  assumes "infos_ok w" and inv: "wl_inv A w" and i: "i < length (wl_leader_set w)" "wl_leader_set w ! i = sender m"
    and "sender m \<notin> dre_received_pre_prepare_messages (wl_duplicate_detection w)"
  shows "infos_ok (log_pre_prepare A i m rs (rq_info_list rs) w)"
proof -
  have "wl_pre_prepare_digests w ! i = None" using wl_inv_received [OF inv i(1)] i(2) assms(5) by simp
  then have free: "wl_contained_requests w ! i = None"
    using wl_inv_slot [OF inv i(1)] by (simp add: slot_ok_def split: option.splits)
  have len: "length (wl_contained_requests w) = length (wl_leader_set w)" by (rule wl_inv_lengths [OF inv])
  let ?cs = "wl_contained_requests w"
  have m: "mset (wl_client_rqs w) = mset (rq_info_list (concat (map (case_option [] id) ?cs)))"
    using assms(1) by (simp add: infos_ok_def Let_def)
  have "mset (rq_info_list (concat (map (case_option [] id) (?cs[i := Some rs])))) =
      mset (rq_info_list (concat (map (case_option [] id) ?cs))) + mset (rq_info_list rs)"
    using concat_update_mset [of i ?cs rs] free len i(1) by (simp add: rq_info_list_def)
  moreover have "wl_client_rqs w = [] \<and> ?cs[i := Some rs] = [Some rs]" if "length (wl_leader_set w) = 1"
  proof -
    have "length ?cs = Suc 0" using that len by simp
    then obtain x where "?cs = [x]" by (auto simp: length_Suc_conv)
    moreover have "i = 0" using that i(1) by simp
    ultimately show ?thesis using m free by (simp add: rq_info_list_def)
  qed
  ultimately show ?thesis using m by (simp add: infos_ok_def Let_def)
qed

lemma log_vote_simps [simp]:
  "ml_prepares (wl_message_log (log_prepare m w)) = ml_prepares (wl_message_log w) @ [m]"
  "ml_commits (wl_message_log (log_prepare m w)) = ml_commits (wl_message_log w)"
  "wl_batch_digest (log_prepare m w) = wl_batch_digest w" "wl_seq_no (log_prepare m w) = wl_seq_no w"
  "wl_leader_set (log_prepare m w) = wl_leader_set w" "wl_complete (log_prepare m w) = wl_complete w"
  "ml_commits (wl_message_log (log_commit m w)) = ml_commits (wl_message_log w) @ [m]"
  "ml_prepares (wl_message_log (log_commit m w)) = ml_prepares (wl_message_log w)"
  "wl_batch_digest (log_commit m w) = wl_batch_digest w" "wl_seq_no (log_commit m w) = wl_seq_no w"
  "wl_leader_set (log_commit m w) = wl_leader_set w" "wl_complete (log_commit m w) = wl_complete w"
  by (simp_all add: log_prepare_def log_commit_def wl_complete_def)

lemma mq_ok_queue:
  "mq_ok q \<Longrightarrow> is_pre_prepare_msg m \<Longrightarrow> mq_ok (queue_pre_prepare m q)"
  "mq_ok q \<Longrightarrow> is_prepare_msg m \<Longrightarrow> mq_ok (queue_prepare m q)"
  "mq_ok q \<Longrightarrow> is_commit_msg m \<Longrightarrow> mq_ok (queue_commit m q)"
  "mq_ok q \<Longrightarrow> mq_ok (mq_signal q)"
  by (simp_all add: mq_ok_def queue_pre_prepare_def queue_prepare_def queue_commit_def mq_signal_def)

lemma complete_digest: "wl_inv A w \<Longrightarrow> wl_complete w \<Longrightarrow> \<exists>dg. wl_batch_digest w = Some dg"
  by (simp add: wl_inv_def calculate_instance_digest_eq)

lemma dn_inv_queue:
  "dn_inv A v d \<Longrightarrow> mq_ok q \<Longrightarrow> dn_inv A v (d\<lparr>dn_message_queue := q\<rparr>)"
  by (simp add: dn_inv_def Let_def)

lemma AList_update_set: "set (AList.update k v xs) \<subseteq> insert (k, v) (set xs)"
  by (induction xs) auto

lemma run_speculative_ok:
  "acc_ok v s dgo (Replica ra) \<Longrightarrow> acc_ok v s dgo (Replica (run_speculative ra))"
  using AList_update_set by (fastforce simp: acc_ok_def run_speculative_def split: list.splits prod.splits)

lemma dn_run_speculative_inv: "dn_inv A v d \<Longrightarrow> dn_inv A v (dn_run_speculative d)"
  by (auto simp: dn_inv_def dn_run_speculative_def Let_def intro: run_speculative_ok
      split: ConsensusDecisionAccessory.splits)

lemma votes_match_log_prepare:
  "votes_match v w \<Longrightarrow> wl_batch_digest w = Some dg \<Longrightarrow> vote_for v (wl_seq_no w) dg m \<Longrightarrow>
   votes_match v (log_prepare m w)"
  by (auto simp: votes_match_def)

lemma votes_match_log_commit:
  "votes_match v w \<Longrightarrow> wl_batch_digest w = Some dg \<Longrightarrow> vote_for v (wl_seq_no w) dg m \<Longrightarrow>
   votes_match v (log_commit m w)"
  by (auto simp: votes_match_def)

lemma handle_preparing_quorum_ok:
  assumes "wl_batch_digest w = Some dg" and "acc_ok (vi_seq v) (wl_seq_no w) (Some dg) acc"
  shows "\<exists>acc' es. handle_preparing_quorum A n w v acc = (Ok (acc', es) :: (_, 'e) res) \<and>
    acc_ok (vi_seq v) (wl_seq_no w) (Some dg) acc' \<and> list_all (effect_ok v (wl_seq_no w) (Some dg)) es"
proof (cases acc)
  case Follower
  with assms show ?thesis by (simp add: handle_preparing_quorum_def)
next
  case (Replica ra)
  have "length (ra_speculative_commits ra) = view_n v"
    if "valid_spec_commits A (ra_speculative_commits ra) (wl_seq_no w) v"
    using that by (simp add: valid_spec_commits_def split: if_splits)
  moreover have "commit_payload (vi_seq v) (wl_seq_no w) (Some dg)
      (ConsensusMsg (ConsensusMessage_new n (wl_seq_no w) (vi_seq v) (Commit dg)))"
    by (simp add: commit_payload_def ConsensusMessage_new_def)
  ultimately show ?thesis using assms Replica
    by (cases "valid_spec_commits A (ra_speculative_commits ra) (wl_seq_no w) v")
      (auto simp: handle_preparing_quorum_def rep_handle_preparing_quorum_def
        take_speculative_commits_def acc_ok_def effect_ok_def Let_def)
qed

lemma accept_prepare_step:
  assumes inv: "dn_inv A v d" and ph: "dn_phase d = Preparing r" and p: "is_prepare_msg m"
    and dg: "wl_batch_digest (dn_working_log d) = Some dg" and vf: "vote_for (vi_seq v) (dn_seq d) dg m"
  shows "step_ok A v (accept_prepare A n v m (r + 1) d)"
proof (cases "sender m \<in> dre_received_prepare_messages (wl_duplicate_detection (dn_working_log d))")
  case True
  with inv p show ?thesis by (simp add: accept_prepare_def wl_process_prepare step_ok_def)
next
  case False
  let ?w = "log_prepare m (dn_working_log d)"
  have w: "wl_inv A ?w" "votes_match (vi_seq v) ?w" "wl_seq_no ?w = dn_seq d"
      "wl_leader_set ?w = vi_leader_set v" "wl_complete ?w" "wl_batch_digest ?w = Some dg"
    using inv ph p dg vf False wl_inv_log_prepare [of A "dn_working_log d" m]
    by (auto simp: dn_inv_def Let_def phase_ok_def intro: votes_match_log_prepare)
  have ph': "r = length (ml_prepares (wl_message_log (dn_working_log d)))" "r < view_quorum v"
      "ml_commits (wl_message_log (dn_working_log d)) = []"
    using inv ph by (simp_all add: dn_inv_def Let_def phase_ok_def)
  have acc: "acc_ok (vi_seq v) (dn_seq d) (Some dg) (dn_accessory d)"
    using inv dg by (simp add: dn_inv_def Let_def)
  obtain acc' es where h: "handle_preparing_quorum A n ?w v (dn_accessory d) = (Ok (acc', es) :: (_, DecidingLogError) res)"
      "acc_ok (vi_seq v) (dn_seq d) (Some dg) acc'" "list_all (effect_ok v (dn_seq d) (Some dg)) es"
    using handle_preparing_quorum_ok [of ?w dg v "dn_accessory d" A n, where 'e = DecidingLogError] w acc
    by auto
  show ?thesis
    using False p w ph' h inv acc
    by (simp add: accept_prepare_def wl_process_prepare step_ok_def dn_inv_def Let_def phase_ok_def
        mq_ok_queue view_quorum_def)
qed

lemma accept_commit_step:
  assumes inv: "dn_inv A v d" and ph: "dn_phase d = Committing r" and m: "consensus (msg m) = (Ok c :: (_, unit) res)"
    and k: "cm_kind c = Commit x"
  shows "step_ok A v (process_committing v m c r d)"
proof -
  let ?w = "dn_working_log d"
  have base: "wl_inv A ?w" "wl_complete ?w" "wl_seq_no ?w = dn_seq d" "votes_match (vi_seq v) ?w"
    using inv ph by (simp_all add: dn_inv_def Let_def phase_ok_def)
  then obtain dg where dg: "wl_batch_digest ?w = Some dg" using complete_digest by blast
  have cm: "is_commit_msg m" using m k by (simp add: consensus_Ok_iff is_commit_msg_def)
  have same: "step_ok A v (d, [], st)" if "st \<noteq> Panic" for st
    using inv that by (simp add: step_ok_def)
  show ?thesis
  proof (cases "cm_seq c = dn_seq d \<and> cm_view c = vi_seq v \<and> x = dg \<and>
      sender m \<notin> dre_received_commit_messages (wl_duplicate_detection ?w)")
    case False
    then show ?thesis using k dg cm same by (auto simp: process_committing_def wl_process_commit)
  next
    case True
    then have "vote_for (vi_seq v) (dn_seq d) dg m"
      using m k by (simp add: vote_for_def consensus_Ok_iff)
    then have "votes_match (vi_seq v) (log_commit m ?w)"
      using base dg by (intro votes_match_log_commit) simp_all
    moreover have "wl_inv A (log_commit m ?w)" using base cm True by (intro wl_inv_log_commit) simp_all
    ultimately show ?thesis using True k dg cm inv ph
      by (simp add: process_committing_def wl_process_commit step_ok_def dn_inv_def Let_def phase_ok_def
          view_quorum_def)
  qed
qed

lemma handle_pre_prepare_completed_ok:
  assumes "wl_batch_digest w = Some dg" and "acc_ok (vi_seq v) (wl_seq_no w) (Some dg) acc"
  shows "\<exists>acc' es. handle_pre_prepare_phase_completed A nn w v acc = (Ok (acc', es) :: (_, 'e) res) \<and>
    acc_ok (vi_seq v) (wl_seq_no w) (Some dg) acc' \<and> list_all (effect_ok v (wl_seq_no w) (Some dg)) es"
proof (cases acc)
  case Follower
  with assms show ?thesis by (simp add: handle_pre_prepare_phase_completed_def)
next
  case (Replica ra)
  with assms show ?thesis
    by (auto simp: handle_pre_prepare_phase_completed_def rep_handle_pre_prepare_phase_completed_def
        acc_ok_def effect_ok_def commit_payload_def prepare_payload_def ConsensusMessage_new_def Let_def)
qed

lemma request_batch_received_ok:
  assumes "cm_kind c = PrePrepare rs"
  shows "\<exists>es. request_batch_received role h c = (Ok (rq_info_list rs, es) :: (_, 'e) res) \<and>
    list_all (effect_ok v s dgo) es"
  using assms
  by (cases role) (simp_all add: request_batch_received_def received_request_batch_def
      watch_request_batch_def effect_ok_def)

lemma commit_payload_None: "\<not> commit_payload v s None x"
  by (auto simp: commit_payload_def split: PBFTMessage.splits ConsensusMessageKind.splits)

lemma acc_ok_weaken: "acc_ok v s None acc \<Longrightarrow> acc_ok v s dgo acc"
  by (auto simp: acc_ok_def commit_payload_None split: ConsensusDecisionAccessory.splits)

lemma batch_requests_ok:
  assumes "cm_kind c = PrePrepare rs"
  obtains es where "request_batch_received role h c = (Ok (rq_info_list rs, es) :: (_, DecidingLogError) res)"
    "\<And>dgo. list_all (effect_ok v s dgo) es"
  using request_batch_received_ok [OF assms, of role h, where 'e = DecidingLogError] assms
  by (cases role) (auto simp: request_batch_received_def received_request_batch_def watch_request_batch_def effect_ok_def)

lemma pre_preparingD:
  assumes "dn_inv A v d" and "dn_phase d = PrePreparing r"
  shows "wl_inv A (dn_working_log d)" "wl_seq_no (dn_working_log d) = dn_seq d"
    "infos_ok (dn_working_log d)" "wl_leader_set (dn_working_log d) = vi_leader_set v" "r = wl_current_received_pre_prepares (dn_working_log d)"
    "\<not> wl_complete (dn_working_log d)" "ml_prepares (wl_message_log (dn_working_log d)) = []"
    "ml_commits (wl_message_log (dn_working_log d)) = []" "mq_ok (dn_message_queue d)"
    "acc_ok (vi_seq v) (dn_seq d) dgo (dn_accessory d)"
proof -
  show base: "wl_inv A (dn_working_log d)" "wl_seq_no (dn_working_log d) = dn_seq d"
    "infos_ok (dn_working_log d)" "wl_leader_set (dn_working_log d) = vi_leader_set v" "r = wl_current_received_pre_prepares (dn_working_log d)"
    "\<not> wl_complete (dn_working_log d)" "ml_prepares (wl_message_log (dn_working_log d)) = []"
    "ml_commits (wl_message_log (dn_working_log d)) = []" "mq_ok (dn_message_queue d)"
    using assms by (simp_all add: dn_inv_def Let_def phase_ok_def)
  then have "wl_batch_digest (dn_working_log d) = None" by (simp add: wl_inv_def calculate_instance_digest_eq)
  then show "acc_ok (vi_seq v) (dn_seq d) dgo (dn_accessory d)" using assms(1) by (simp add: dn_inv_def Let_def acc_ok_weaken)
qed

lemma accept_pre_prepare_step:
  assumes inv: "dn_inv A v d" and ph: "dn_phase d = PrePreparing r" and q: "0 < view_quorum v"
    and m: "consensus (msg m) = (Ok c :: (_, unit) res)" and k: "cm_kind c = PrePrepare rs"
  shows "step_ok A v (accept_pre_prepare A role nn v m c (r + 1) d)"
proof -
  let ?w = "dn_working_log d" and ?infos = "rq_info_list rs"
  note base = pre_preparingD [OF inv ph]
  have pp: "is_pre_prepare_of m rs" using m k by (simp add: consensus_Ok_iff is_pre_prepare_of_def)
  obtain es where es: "request_batch_received role (hdr m) c = (Ok (?infos, es) :: (_, DecidingLogError) res)"
      "\<And>dgo. list_all (effect_ok v (dn_seq d) dgo) es" using batch_requests_ok [OF k] by blast
  obtain w' st where p: "process_pre_prepare A m (hdr_digest (hdr m)) ?infos ?w = (w', st)"
    by fastforce
  note spec = process_pre_prepare_spec [OF base(1) pp, of ?infos "hdr_digest (hdr m)", unfolded p]
  show ?thesis
  proof (cases st)
    case (Ok md)
    with spec obtain i where w': "w' = log_pre_prepare A i m rs ?infos ?w" and inv': "wl_inv A w'"
      and md: "md \<noteq> None \<longleftrightarrow> wl_complete w'"
      and i: "i < length (wl_leader_set ?w)" "wl_leader_set ?w ! i = sender m"
        "sender m \<notin> dre_received_pre_prepare_messages (wl_duplicate_detection ?w)" by (auto simp: Let_def)
    have infos: "infos_ok w'" unfolding w' by (rule infos_ok_log_pre_prepare [OF base(3,1) i])
    have full: "r + 1 = length (vi_leader_set v) \<longleftrightarrow> wl_complete w'"
      using wl_inv_lengths(1,7) [OF inv'] base w' by (simp add: wl_complete_iff_count)
    have fields: "wl_seq_no w' = dn_seq d" "wl_leader_set w' = vi_leader_set v"
        "ml_prepares (wl_message_log w') = []" "ml_commits (wl_message_log w') = []"
        "wl_current_received_pre_prepares w' = r + 1" "votes_match (vi_seq v) w'"
      using base w' by (simp_all add: votes_match_def)
    show ?thesis
    proof (cases "wl_complete w'")
      case False
      then show ?thesis using Ok p es full fields inv' infos base
        by (simp add: accept_pre_prepare_def step_ok_def dn_inv_def Let_def phase_ok_def)
    next
      case True
      then obtain dg where dg: "wl_batch_digest w' = Some dg" using complete_digest [OF inv'] by blast
      from handle_pre_prepare_completed_ok [of w' dg v "dn_accessory d" A nn, where 'e = DecidingLogError] True md
      show ?thesis using Ok p es full fields inv' infos dg base q
        by (auto simp: accept_pre_prepare_def step_ok_def dn_inv_def Let_def phase_ok_def mq_ok_queue)
    qed
  qed (use spec es p inv in \<open>auto simp: accept_pre_prepare_def step_ok_def\<close>)
qed

lemma same_step: "dn_inv A v d \<Longrightarrow> step_ok A v (d, [], Ok st)"
  by (simp add: step_ok_def)

lemma queued_step: "dn_inv A v d \<Longrightarrow> mq_ok mq \<Longrightarrow> step_ok A v (d\<lparr>dn_message_queue := mq\<rparr>, [], Ok st)"
  using dn_inv_queue by (simp add: step_ok_def)

lemma kind_of_consensus:
  assumes "msg m = ConsensusMsg c"
  shows "cm_kind c = PrePrepare rs \<Longrightarrow> is_pre_prepare_msg m" "cm_kind c = Prepare x \<Longrightarrow> is_prepare_msg m"
    "cm_kind c = Commit x \<Longrightarrow> is_commit_msg m"
  using assms by (simp_all add: is_pre_prepare_msg_def is_prepare_msg_def is_commit_msg_def)

lemma process_preparing_step:
  assumes inv: "dn_inv A v d" and ph: "dn_phase d = Preparing r" and c: "msg m = ConsensusMsg c"
  shows "step_ok A v (process_preparing A n v m c r d)"
proof -
  obtain dg where dg: "wl_batch_digest (dn_working_log d) = Some dg"
    using inv ph complete_digest by (fastforce simp: dn_inv_def Let_def phase_ok_def)
  have mq: "mq_ok (dn_message_queue d)" using inv by (simp add: dn_inv_def Let_def)
  show ?thesis
  proof (cases "cm_kind c")
    case (Prepare x)
    then have "vote_for (cm_view c) (cm_seq c) x m" by (simp add: vote_for_def c)
    with Prepare dg inv show ?thesis
      using accept_prepare_step [OF inv ph kind_of_consensus(2) [OF c Prepare] dg]
      by (auto simp: process_preparing_def same_step)
  qed (use inv mq kind_of_consensus [OF c] in
      \<open>simp_all add: process_preparing_def same_step queued_step mq_ok_queue\<close>)
qed

lemma dn_process_step:
  assumes inv: "dn_inv A v d" and q: "0 < view_quorum v" and m: "is_consensus (msg m)"
  shows "step_ok A v (dn_process_message A role nn v m d)"
proof -
  obtain c where c: "msg m = ConsensusMsg c"
    using m by (auto simp: is_consensus_def split: PBFTMessage.splits)
  note same = same_step [OF inv]
  have mq: "mq_ok (dn_message_queue d)" using inv by (simp add: dn_inv_def Let_def)
  note kinds = kind_of_consensus [OF c]
  show ?thesis
  proof (cases "dn_phase d")
    case Initialize
    then show ?thesis using c mq kinds
      by (cases "cm_kind c") (simp_all add: dn_process_message_def dn_queue_def queued_step [OF inv] mq_ok_queue)
  next
    case (PrePreparing r)
    then show ?thesis
      using c mq kinds same accept_pre_prepare_step [OF inv PrePreparing q, of m c]
      by (cases "cm_kind c")
        (simp_all add: dn_process_message_def process_pre_preparing_def queued_step [OF inv] mq_ok_queue)
  next
    case (Preparing r)
    then show ?thesis using process_preparing_step [OF inv Preparing c] c by (simp add: dn_process_message_def)
  next
    case (Committing r)
    then show ?thesis using accept_commit_step [OF inv Committing, of m c] c same
      by (cases "cm_kind c") (simp_all add: dn_process_message_def process_committing_def [where message = c])
  next
    case Decided
    then show ?thesis using c same by (simp add: dn_process_message_def)
  qed
qed

lemma dn_inv_started:
  assumes "dn_inv A v d" and "dn_phase d = Initialize"
  shows "dn_inv A v (d\<lparr>dn_phase := PrePreparing 0\<rparr>)"
proof -
  have w: "wl_inv A (dn_working_log d)" "wl_current_received_pre_prepares (dn_working_log d) = 0"
    using assms by (simp_all add: dn_inv_def Let_def phase_ok_def)
  then have "\<not> wl_complete (dn_working_log d)"
    using wl_inv_lengths(1,5,7) [OF w(1)] by (simp add: wl_complete_iff_count)
  with w assms show ?thesis by (simp add: dn_inv_def Let_def phase_ok_def)
qed

lemma dn_poll_inv: "dn_inv A v d \<Longrightarrow> dn_inv A v (fst (dn_poll d))"
proof -
  assume inv: "dn_inv A v d"
  let ?q = "dn_message_queue d"
  have mq: "mq_ok ?q" using inv by (simp add: dn_inv_def Let_def)
  have "mq_ok (?q\<lparr>mq_get_queue := False\<rparr>)"
    "mq_pre_prepares ?q = x # xs \<Longrightarrow> mq_ok (?q\<lparr>mq_pre_prepares := xs\<rparr>)"
    "mq_prepares ?q = x # xs \<Longrightarrow> mq_ok (?q\<lparr>mq_prepares := xs\<rparr>)"
    "mq_commits ?q = x # xs \<Longrightarrow> mq_ok (?q\<lparr>mq_commits := xs\<rparr>)" for x xs
    using mq by (simp_all add: mq_ok_def)
  then show ?thesis
    using inv dn_inv_started [OF inv] dn_inv_queue [OF inv]
    by (cases "dn_phase d") (simp_all add: dn_poll_def Let_def split: list.split)
qed

lemma dn_queue_inv:
  assumes "dn_inv A v d" and "dn_queue m d = (Ok d' :: (_, 'e) res)"
  shows "dn_inv A v d'"
proof -
  obtain c where c: "msg m = ConsensusMsg c"
    using assms(2) by (cases "msg m") (simp_all add: dn_queue_def)
  have "mq_ok (dn_message_queue d)" using assms(1) by (simp add: dn_inv_def Let_def)
  with assms c show ?thesis
    by (cases "cm_kind c")
      (auto simp: dn_queue_def is_pre_prepare_msg_def is_prepare_msg_def is_commit_msg_def
        intro!: dn_inv_queue mq_ok_queue)
qed

lemma dn_inv_init:
  assumes "wf_view v" and "distinct (vi_leader_set v)" and "mq_ok q"
  shows "dn_inv A v (init_with_msg_log node seq v q)"
  using assms wl_inv_new [OF assms(1,2), of A node seq] infos_ok_new [of node seq v]
  by (simp add: dn_inv_def Let_def init_with_msg_log_def phase_ok_def votes_match_def acc_ok_def
      ReplicaAccessory_new_def WorkingDecisionLog_new_def with_leader_count_def)

lemma init_decision_eq: "init_decision node seq v = init_with_msg_log node seq v MessageQueue_new"
  by (simp add: init_decision_def init_with_msg_log_def)

subsection \<open>Runs of an instance\<close>

text \<open>
  The steps an instance makes in one view: polling, queueing and processing of any consensus
  message, from any sender, and turns of the background task, in any order. A run collects
  what the steps sent.
\<close>

inductive decision_step :: "atlas \<Rightarrow> SynchronizerRole \<Rightarrow> ViewInfo \<Rightarrow> 'o ConsensusDecision
    \<Rightarrow> 'o effect list \<Rightarrow> 'o ConsensusDecision \<Rightarrow> bool" for A role v where
  polled: "dn_poll d = (d', st) \<Longrightarrow> decision_step A role v d [] d'"
| queued: "dn_queue m d = (Ok d' :: (_, unit) res) \<Longrightarrow> decision_step A role v d [] d'"
| processed: "is_consensus (msg m) \<Longrightarrow> dn_process_message A role nn v m d = (d', es, r) \<Longrightarrow>
    decision_step A role v d es d'"
| background: "decision_step A role v d [] (dn_run_speculative d)"

inductive decision_run :: "atlas \<Rightarrow> SynchronizerRole \<Rightarrow> ViewInfo \<Rightarrow> NodeId \<Rightarrow> SeqNo
    \<Rightarrow> 'o effect list \<Rightarrow> 'o ConsensusDecision \<Rightarrow> bool" for A role v node seq where
  start: "mq_ok q \<Longrightarrow> decision_run A role v node seq [] (init_with_msg_log node seq v q)"
| step: "decision_run A role v node seq es d \<Longrightarrow> decision_step A role v d es' d' \<Longrightarrow>
    decision_run A role v node seq (es @ es') d'"

lemma decision_step_inv:
  assumes "decision_step A role v d es d'" and "dn_inv A v d" and "0 < view_quorum v"
  shows "dn_inv A v d' \<and> list_all (effect_ok v (dn_seq d') (wl_batch_digest (dn_working_log d'))) es"
  using assms(1)
proof cases
  case (polled st)
  then show ?thesis using dn_poll_inv [OF assms(2)] by simp
next
  case (queued m)
  then show ?thesis using dn_queue_inv [OF assms(2)] by auto
next
  case (processed m nn r)
  then show ?thesis using dn_process_step [OF assms(2,3), of m role nn] by (simp add: step_ok_def)
next
  case background
  then show ?thesis using dn_run_speculative_inv [OF assms(2)] by simp
qed

lemma dn_queue_keeps:
  "dn_queue m d = Ok d' \<Longrightarrow> dn_seq d' = dn_seq d \<and> dn_working_log d' = dn_working_log d"
  by (cases "msg m") (auto simp: dn_queue_def)

lemma dn_poll_keeps: "dn_seq (fst (dn_poll d)) = dn_seq d \<and> dn_working_log (fst (dn_poll d)) = dn_working_log d"
  by (auto simp: dn_poll_def Let_def split: DecisionPhase.splits list.splits)

lemma dn_run_speculative_keeps:
  "dn_seq (dn_run_speculative d) = dn_seq d" "dn_working_log (dn_run_speculative d) = dn_working_log d"
  by (auto simp: dn_run_speculative_def split: ConsensusDecisionAccessory.splits)

lemma wl_process_message_keeps:
  "is_prepare_msg m \<or> is_commit_msg m \<Longrightarrow>
   wl_batch_digest (fst (wl_process_message m w)) = wl_batch_digest w"
  by (auto simp: wl_process_prepare wl_process_commit)

lemma accept_prepare_keeps:
  "is_prepare_msg m \<Longrightarrow> accept_prepare A n v m r d = (d', es, st) \<Longrightarrow>
   dn_seq d' = dn_seq d \<and> wl_batch_digest (dn_working_log d') = wl_batch_digest (dn_working_log d)"
  using wl_process_message_keeps [of m "dn_working_log d"]
  by (auto simp: accept_prepare_def split: prod.splits res.splits if_splits)

lemma process_committing_keeps:
  "consensus (msg m) = (Ok c :: (_, unit) res) \<Longrightarrow> process_committing v m c r d = (d', es, st) \<Longrightarrow>
   dn_seq d' = dn_seq d \<and> wl_batch_digest (dn_working_log d') = wl_batch_digest (dn_working_log d)"
  using wl_process_message_keeps [of m "dn_working_log d"]
  by (auto simp: process_committing_def consensus_Ok_iff is_commit_msg_def
      split: ConsensusMessageKind.splits prod.splits res.splits if_splits option.splits)

lemma accept_pre_prepare_seq:
  "accept_pre_prepare A role nn v m c r d = (d', es, st) \<Longrightarrow> dn_seq d' = dn_seq d"
  by (auto simp: accept_pre_prepare_def split: prod.splits res.splits if_splits option.splits)

lemma dn_process_keeps:
  assumes inv: "dn_inv A v d" and eq: "dn_process_message A role nn v m d = (d', es, r)"
  shows "dn_seq d' = dn_seq d \<and> (wl_batch_digest (dn_working_log d) = Some dg \<longrightarrow>
    wl_batch_digest (dn_working_log d') = Some dg)"
proof (cases "consensus (msg m) :: ('a ConsensusMessage, unit) res")
  case (Ok c)
  then have c: "msg m = ConsensusMsg c" by (simp add: consensus_Ok_iff)
  show ?thesis
  proof (cases "dn_phase d")
    case Initialize
    then show ?thesis using eq c dn_queue_keeps [of m d, where 'b = DecidingLogError]
      by (auto simp: dn_process_message_def split: res.splits)
  next
    case (PrePreparing k)
    then have "wl_batch_digest (dn_working_log d) = None"
      using inv by (simp add: dn_inv_def Let_def phase_ok_def wl_inv_def calculate_instance_digest_eq)
    then show ?thesis using eq c PrePreparing
      by (auto simp: dn_process_message_def process_pre_preparing_def
          split: ConsensusMessageKind.splits if_splits dest: accept_pre_prepare_seq)
  next
    case (Preparing k)
    then show ?thesis using eq c
      by (auto simp: dn_process_message_def process_preparing_def is_prepare_msg_def
          split: ConsensusMessageKind.splits if_splits option.splits dest!: accept_prepare_keeps [rotated])
  next
    case (Committing k)
    then show ?thesis using eq c process_committing_keeps [OF Ok, of v k d d' es r]
      by (simp add: dn_process_message_def)
  next
    case Decided
    then show ?thesis using eq c by (simp add: dn_process_message_def)
  qed
qed (use eq in \<open>cases "msg m"; simp add: dn_process_message_def consensus_def\<close>)+

lemma decision_step_keeps:
  assumes "decision_step A role v d es d'" and "dn_inv A v d"
  shows "dn_seq d' = dn_seq d \<and> (wl_batch_digest (dn_working_log d) = Some dg \<longrightarrow>
    wl_batch_digest (dn_working_log d') = Some dg)"
  using assms(1)
proof cases
  case (polled st)
  then show ?thesis using dn_poll_keeps [of d] by simp
next
  case (queued m)
  then show ?thesis by (simp add: dn_queue_keeps)
next
  case (processed m nn r)
  then show ?thesis using dn_process_keeps [OF assms(2)] by blast
next
  case background
  then show ?thesis by (simp add: dn_run_speculative_keeps)
qed

lemma prepare_payload_None: "\<not> prepare_payload v s None x"
  by (auto simp: prepare_payload_def split: PBFTMessage.splits ConsensusMessageKind.splits)

lemma effect_ok_mono:
  assumes "effect_ok v s x e" and "\<And>dg. x = Some dg \<Longrightarrow> y = Some dg"
  shows "effect_ok v s y e"
proof (cases x)
  case None
  with assms(1) show ?thesis
    by (cases e) (auto simp: effect_ok_def commit_payload_None prepare_payload_None)
next
  case (Some dg)
  with assms show ?thesis by simp
qed

lemma decision_run_inv:
  assumes "decision_run A role v node seq es d" and "wf_view v" and "distinct (vi_leader_set v)"
  shows "dn_inv A v d \<and> dn_seq d = seq \<and>
    list_all (effect_ok v seq (wl_batch_digest (dn_working_log d))) es"
  using assms(1)
proof induction
  case (start q)
  then show ?case using dn_inv_init [OF assms(2,3)] by (simp add: init_with_msg_log_def)
next
  case (step es d es' d')
  have q: "0 < view_quorum v" using assms(2) by (simp add: wf_view_def)
  have d': "dn_inv A v d'" "list_all (effect_ok v (dn_seq d') (wl_batch_digest (dn_working_log d'))) es'"
    using decision_step_inv [OF step(2)] step.IH q by auto
  have keep: "dn_seq d' = seq"
    "\<And>dg. wl_batch_digest (dn_working_log d) = Some dg \<Longrightarrow> wl_batch_digest (dn_working_log d') = Some dg"
    using decision_step_keeps [OF step(2)] step.IH by auto
  have "list_all (effect_ok v seq (wl_batch_digest (dn_working_log d'))) es"
    using step.IH effect_ok_mono [of v seq "wl_batch_digest (dn_working_log d)" _
        "wl_batch_digest (dn_working_log d')", OF _ keep(2)]
    by (auto simp: list_all_iff)
  with d' keep show ?case by simp
qed

subsection \<open>Properties of an instance\<close>

definition sent_votes :: "'o effect list \<Rightarrow> 'o PBFTMessage set" where
  "sent_votes es = (\<Union>e \<in> set es. case e of
     BroadcastSigned x _ \<Rightarrow> {x} | BroadcastSerialized xs \<Rightarrow> snd ` set xs | _ \<Rightarrow> {})"

lemma sent_votes_payload:
  assumes "list_all (effect_ok v s dgo) es" and "x \<in> sent_votes es"
  shows "prepare_payload (vi_seq v) s dgo x \<or> commit_payload (vi_seq v) s dgo x"
proof -
  from assms obtain e where e: "effect_ok v s dgo e" "x \<in> sent_votes [e]"
    by (auto simp: sent_votes_def list_all_iff)
  then show ?thesis by (cases e) (auto simp: sent_votes_def effect_ok_def)
qed

lemma vote_for_commit:
  "is_commit_msg m \<Longrightarrow> vote_for v s dg m \<Longrightarrow> commit_payload v s (Some dg) (msg m)"
  by (auto elim!: is_commit_msgE simp: vote_for_def commit_payload_def)

lemma vote_for_prepare:
  "is_prepare_msg m \<Longrightarrow> vote_for v s dg m \<Longrightarrow> prepare_payload v s (Some dg) (msg m)"
  by (auto simp: is_prepare_msg_def vote_for_def prepare_payload_def
      split: PBFTMessage.split_asm ConsensusMessageKind.split_asm)

lemma decided_facts:
  assumes "dn_inv A v d" and "dn_phase d = DecisionPhase.Decided"
  shows "\<exists>dg. wl_batch_digest (dn_working_log d) = Some dg \<and>
    card (sender ` set (ml_commits (wl_message_log (dn_working_log d)))) = view_quorum v \<and>
    card (sender ` set (ml_prepares (wl_message_log (dn_working_log d)))) = view_quorum v \<and>
    (\<forall>m \<in> set (ml_commits (wl_message_log (dn_working_log d))). commit_payload (vi_seq v) (dn_seq d) (Some dg) (msg m)) \<and>
    (\<forall>m \<in> set (ml_prepares (wl_message_log (dn_working_log d))). prepare_payload (vi_seq v) (dn_seq d) (Some dg) (msg m))"
proof -
  let ?w = "dn_working_log d"
  have w: "wl_inv A ?w" "wl_complete ?w" "wl_seq_no ?w = dn_seq d" "votes_match (vi_seq v) ?w"
      "length (ml_prepares (wl_message_log ?w)) = view_quorum v"
      "length (ml_commits (wl_message_log ?w)) = view_quorum v"
    using assms by (simp_all add: dn_inv_def Let_def phase_ok_def)
  obtain dg where dg: "wl_batch_digest ?w = Some dg" using complete_digest [OF w(1,2)] by blast
  have "card (sender ` set (ml_commits (wl_message_log ?w))) = view_quorum v"
    "card (sender ` set (ml_prepares (wl_message_log ?w))) = view_quorum v"
    using distinct_card [OF wl_inv_voters(3) [OF w(1)]] distinct_card [OF wl_inv_voters(4) [OF w(1)]] w
    by simp_all
  moreover have "commit_payload (vi_seq v) (dn_seq d) (Some dg) (msg m)"
    if "m \<in> set (ml_commits (wl_message_log ?w))" for m
    using that w(3,4) dg wl_inv_voters(6) [OF w(1)]
    by (auto simp: votes_match_def list_all_iff intro: vote_for_commit)
  moreover have "prepare_payload (vi_seq v) (dn_seq d) (Some dg) (msg m)"
    if "m \<in> set (ml_prepares (wl_message_log ?w))" for m
    using that w(3,4) dg wl_inv_voters(5) [OF w(1)]
    by (auto simp: votes_match_def list_all_iff intro: vote_for_prepare)
  ultimately show ?thesis using dg by blast
qed

lemma dn_finalize_ok:
  assumes "dn_inv A v d" and "dn_phase d = DecisionPhase.Decided"
  shows "\<exists>b. dn_finalize d = Ok b \<and> wl_batch_digest (dn_working_log d) = Some (cb_digest b) \<and>
    cb_seq b = dn_seq d"
proof -
  let ?w = "dn_working_log d"
  have w: "wl_inv A ?w" "wl_complete ?w" "wl_seq_no ?w = dn_seq d"
    using assms by (simp_all add: dn_inv_def Let_def phase_ok_def)
  obtain b where b: "finish_processing_batch ?w = (Ok (Some b) :: (_, DecisionError) res)"
    using finish_processing_batch_total [OF w(1,2)] by blast
  have "cb_seq b = dn_seq d" using finish_processing_batch_shape [OF w(1) b] w by simp
  moreover have "wl_batch_digest ?w = Some (cb_digest b)"
    using b by (auto simp: finish_processing_batch_def res_bind_Ok_iff split: option.splits)
  moreover have "dn_finalize d = Ok b" using assms(2) b by (simp add: dn_finalize_def)
  ultimately show ?thesis by blast
qed

text \<open>
  C2. Safety of one instance, whatever messages arrive from whomever and however the background
  task interleaves with them: no step of the instance panics, and every \<open>PREPARE\<close> and
  \<open>COMMIT\<close> the replica sends, speculative or not, is of the view and the sequence number of the
  instance and for the digest of its batch, so it never votes for two batches.
\<close>

theorem instance_votes_once:
  assumes "decision_run A role v node seq es d" and "wf_view v" and "distinct (vi_leader_set v)"
  shows "(\<forall>x \<in> sent_votes es. prepare_payload (vi_seq v) seq (wl_batch_digest (dn_working_log d)) x \<or>
      commit_payload (vi_seq v) seq (wl_batch_digest (dn_working_log d)) x) \<and>
    (\<forall>m nn. is_consensus (msg m) \<longrightarrow> snd (snd (dn_process_message A role nn v m d)) \<noteq> Panic)"
proof -
  have q: "0 < view_quorum v" using assms(2) by (simp add: wf_view_def)
  note inv = decision_run_inv [OF assms]
  have "snd (snd (dn_process_message A role nn v m d)) \<noteq> Panic" if "is_consensus (msg m)" for m nn
    using dn_process_step [of A v d m role nn] inv q that by (auto simp: step_ok_def split: prod.splits)
  with inv sent_votes_payload show ?thesis by blast
qed

text \<open>
  C3. A decided instance is backed by quorums: its log holds \<open>COMMIT\<close>s of exactly a quorum of
  distinct replicas and \<open>PREPARE\<close>s of exactly a quorum of distinct replicas, all of them for the digest
  of its batch in its view and with its number; and finalizing it succeeds with that digest.
\<close>

theorem decided_by_quorum:
  assumes "decision_run A role v node seq es d" and "wf_view v" and "distinct (vi_leader_set v)"
    and "is_finalizeable d"
  shows "\<exists>dg b. wl_batch_digest (dn_working_log d) = Some dg \<and>
    card (sender ` set (ml_commits (wl_message_log (dn_working_log d)))) = view_quorum v \<and>
    card (sender ` set (ml_prepares (wl_message_log (dn_working_log d)))) = view_quorum v \<and>
    (\<forall>m \<in> set (ml_commits (wl_message_log (dn_working_log d))). commit_payload (vi_seq v) seq (Some dg) (msg m)) \<and>
    (\<forall>m \<in> set (ml_prepares (wl_message_log (dn_working_log d))). prepare_payload (vi_seq v) seq (Some dg) (msg m)) \<and>
    dn_finalize d = Ok b \<and> cb_digest b = dg \<and> cb_seq b = seq"
proof -
  have inv: "dn_inv A v d" "dn_seq d = seq" using decision_run_inv [OF assms(1-3)] by simp_all
  have ph: "dn_phase d = DecisionPhase.Decided" using assms(4) by (simp add: is_finalizeable_def)
  show ?thesis using decided_facts [OF inv(1) ph] dn_finalize_ok [OF inv(1) ph] inv(2) by auto
qed

lemma rq_info_list_eq: "rq_info_law A \<Longrightarrow> rq_info_list rs = map (rq_info A) rs"
  by (simp add: rq_info_list_def rq_info_def rq_info_law_def)

lemma complete_requests:
  assumes "wl_inv A w" and "wl_complete w"
  shows "map (case_option [] id) (wl_contained_requests w) = map the (wl_contained_requests w)"
proof -
  have "wl_contained_requests w ! i \<noteq> None" if i: "i < length (wl_leader_set w)" for i
    using wl_inv_slot [OF assms(1) i] assms(2) i wl_inv_lengths(1) [OF assms(1)]
    by (auto simp: slot_ok_def wl_complete_def split: option.splits) (metis nth_mem)
  then show ?thesis using wl_inv_lengths(2) [OF assms(1)] by (intro nth_equalityI) (fastforce split: option.split)+
qed

text \<open>
  C33. What is executed can be proved. When a decided instance is finalized, whatever messages led
  to the decision, the proof that the log of decisions keeps has the number and the votes of the
  instance, and converting it back gives the decision that was handed to the executor: the same number,
  digest and requests in the same order, and the same request infos. The infos of the decision handed over are in
  the order in which the batches arrived, those of the converted proof in the order of the leaders, so in
  general they agree up to their order; with one leader the two decisions are equal.
\<close>

theorem decision_reproducible:
  assumes "decision_run A role v node seq es d" and "wf_view v" and "distinct (vi_leader_set v)"
    and "is_finalizeable d" and "rq_info_law A"
  shows "\<exists>b l' dec p dec'. dn_finalize d = Ok b \<and> finalize_batch b l = (l', dec) \<and> last_proof l' = Some p \<and>
    Proof_sequence_number p = seq \<and> pf_prepares p = ml_prepares (wl_message_log (dn_working_log d)) \<and>
    pf_commits p = ml_commits (wl_message_log (dn_working_log d)) \<and>
    pm_contained_client_rqs (pf_metadata p) = length (pcd_batch dec) \<and>
    decision_of_proof A p = (Ok dec' :: (_, 'e) res) \<and>
    pcd_seq dec' = pcd_seq dec \<and> pcd_batch dec' = pcd_batch dec \<and> pcd_digest dec' = pcd_digest dec \<and>
    mset (pcd_client_rqs dec') = mset (pcd_client_rqs dec) \<and>
    (length (vi_leader_set v) = 1 \<longrightarrow> dec' = dec)"
proof -
  let ?w = "dn_working_log d"
  have inv: "dn_inv A v d" "dn_seq d = seq" using decision_run_inv [OF assms(1-3)] by simp_all
  have ph: "dn_phase d = DecisionPhase.Decided" using assms(4) by (simp add: is_finalizeable_def)
  have w: "wl_inv A ?w" "infos_ok ?w" "wl_complete ?w" "wl_seq_no ?w = seq" "wl_leader_set ?w = vi_leader_set v"
    using inv ph by (simp_all add: dn_inv_def Let_def phase_ok_def)
  obtain b where b: "finish_processing_batch ?w = (Ok (Some b) :: (_, DecisionError) res)"
    using finish_processing_batch_total [OF w(1,3)] by blast
  obtain l' dec p where p: "finalize_batch b l = (l', dec)" "last_proof l' = Some p" "Proof_sequence_number p = seq"
    "pf_prepares p = ml_prepares (wl_message_log ?w)" "pf_commits p = ml_commits (wl_message_log ?w)"
    "pm_contained_client_rqs (pf_metadata p) = length (pcd_batch dec)"
    "pcd_batch dec = concat (map the (wl_contained_requests ?w))" "pcd_client_rqs dec = wl_client_rqs ?w"
    "decision_of_proof A p = (Ok (ProtocolConsensusDecision (pcd_seq dec) (pcd_batch dec)
      (map (rq_info A) (pcd_batch dec)) (pcd_digest dec)) :: (_, 'e) res)"
    using finalize_batch_rebuilt [OF w(1) b, where 'e = 'e] w(4) by blast
  have "mset (wl_client_rqs ?w) = mset (map (rq_info A) (pcd_batch dec))"
    "length (vi_leader_set v) = 1 \<Longrightarrow> wl_client_rqs ?w = map (rq_info A) (pcd_batch dec)"
    using w(2,5) p(7) by (simp_all add: infos_ok_def Let_def complete_requests [OF w(1,3)] rq_info_list_eq [OF assms(5)])
  moreover have "dn_finalize d = Ok b" using ph b by (simp add: dn_finalize_def)
  ultimately show ?thesis using p by (cases dec) auto
qed

subsection \<open>A concrete run\<close>

text \<open>A quorum of one replica that proposes to itself and goes through the three phases.\<close>

definition solo_view :: ViewInfo where
  "solo_view = \<lparr>vi_seq = 0, vi_quorum_members = [0], vi_leader_set = [0],
     vi_leader_hash_space_division = [0 \<mapsto> ([0], [255])], vi_params = SystemParams 1 0 1\<rparr>"

lemma solo_view_wf: "wf_view solo_view" "distinct (vi_leader_set solo_view)"
  by (simp_all add: solo_view_def wf_view_def view_n_def view_f_def view_quorum_def)

definition solo_step :: "nat StoredConsensusMessage \<Rightarrow> nat ConsensusDecision
    \<Rightarrow> nat ConsensusDecision \<times> nat effect list \<times> (nat DecisionStatus, DecidingLogError) res" where
  "solo_step m d = dn_process_message sample_atlas ReplicaSynchronizer (0, 0) solo_view m d"

definition solo_start :: "nat ConsensusDecision" where
  "solo_start = fst (dn_poll (init_decision 0 5 solo_view))"

definition solo_proposed :: "nat ConsensusDecision" where
  "solo_proposed = fst (solo_step sample_pre_prepare solo_start)"

definition solo_prepared :: "nat ConsensusDecision" where
  "solo_prepared = fst (solo_step (sample_prepare 0) solo_proposed)"

definition solo_decided :: "nat ConsensusDecision" where
  "solo_decided = fst (solo_step (sample_commit 0) solo_prepared)"

definition solo_effects :: "nat effect list" where
  "solo_effects = fst (snd (solo_step sample_pre_prepare solo_start)) @
     fst (snd (solo_step (sample_prepare 0) solo_proposed)) @
     fst (snd (solo_step (sample_commit 0) solo_prepared))"

lemma solo_processed:
  assumes "decision_run sample_atlas ReplicaSynchronizer solo_view 0 5 es d" and "is_consensus (msg m)"
  shows "decision_run sample_atlas ReplicaSynchronizer solo_view 0 5
    (es @ fst (snd (solo_step m d))) (fst (solo_step m d))"
  using assms by (intro decision_run.step) (auto simp: solo_step_def intro!: decision_step.processed prod_eqI)

lemma solo_run: "decision_run sample_atlas ReplicaSynchronizer solo_view 0 5 solo_effects solo_decided"
proof -
  let ?run = "decision_run sample_atlas ReplicaSynchronizer solo_view 0 5"
  have "?run [] (init_decision 0 5 solo_view)"
    unfolding init_decision_eq by (rule decision_run.start) (simp add: mq_ok_def MessageQueue_new_def)
  then have "?run ([] @ []) solo_start"
    by (rule decision_run.step) (auto simp: solo_start_def intro!: decision_step.polled prod_eqI)
  from solo_processed [OF this, of sample_pre_prepare]
  have "?run (fst (snd (solo_step sample_pre_prepare solo_start))) solo_proposed"
    by (simp add: solo_proposed_def) (simp add: sample_pre_prepare_def is_consensus_def)
  from solo_processed [OF this, of "sample_prepare 0"]
  have "?run (fst (snd (solo_step sample_pre_prepare solo_start)) @
      fst (snd (solo_step (sample_prepare 0) solo_proposed))) solo_prepared"
    by (simp add: solo_prepared_def) (simp add: sample_prepare_def is_consensus_def)
  from solo_processed [OF this, of "sample_commit 0"]
  show ?thesis by (simp add: solo_decided_def solo_effects_def) (simp add: sample_commit_def is_consensus_def)
qed

lemma solo_is_finalizeable: "is_finalizeable solo_decided"
  by code_simp

theorem instance_votes_once_witness:
  "\<exists>x. x \<in> sent_votes solo_effects \<and> (prepare_payload 0 5 (Some [7]) x \<or> commit_payload 0 5 (Some [7]) x)"
proof -
  have dg: "wl_batch_digest (dn_working_log solo_decided) = Some [7]" by code_simp
  have "list_ex (\<lambda>e. case e of BroadcastSigned x _ \<Rightarrow> True | _ \<Rightarrow> False) solo_effects"
    by code_simp
  then obtain e where "e \<in> set solo_effects" "case e of BroadcastSigned x _ \<Rightarrow> True | _ \<Rightarrow> False"
    by (auto simp only: list_ex_iff)
  then obtain x ts where "BroadcastSigned x ts \<in> set solo_effects"
    by - (cases e; simp)
  then have "x \<in> sent_votes solo_effects"
    by (auto simp: sent_votes_def intro!: bexI [of _ "BroadcastSigned x ts"])
  then show ?thesis
    using instance_votes_once [OF solo_run solo_view_wf] dg by (auto simp: solo_view_def)
qed

theorem decided_by_quorum_witness:
  "\<exists>b. dn_finalize solo_decided = Ok b \<and> cb_digest b = [7] \<and>
     card (sender ` set (ml_commits (wl_message_log (dn_working_log solo_decided)))) = 1"
proof -
  have dg: "wl_batch_digest (dn_working_log solo_decided) = Some [7]" by code_simp
  show ?thesis
    using decided_by_quorum [OF solo_run solo_view_wf solo_is_finalizeable] dg
    by (auto simp: solo_view_def view_quorum_def)
qed

theorem decision_reproducible_witness:
  "\<exists>b l dec p. dn_finalize solo_decided = Ok b \<and> finalize_batch b sample_decided = (l, dec) \<and> last_proof l = Some p \<and>
     decision_of_proof sample_atlas p = (Ok dec :: (_, unit) res) \<and> Proof_sequence_number p = 5"
proof -
  have "rq_info_law sample_atlas" by simp
  from decision_reproducible [OF solo_run solo_view_wf solo_is_finalizeable this, of sample_decided, where 'e = unit]
  show ?thesis by (auto simp: solo_view_def)
qed

end
