(* ===== verification/Agreement.thy ===== *)
theory Agreement
  imports DecisionInstance
begin

text \<open>
  Properties across the replicas of one view: agreement on the decided batch, from the
  intersection of quorums (theory \<open>Quorums\<close>) and the voting discipline of an instance (theory
  \<open>DecisionInstance\<close>), and progress once a quorum has voted.
\<close>

subsection \<open>Agreement\<close>

lemma commit_payload_unique:
  assumes "commit_payload v s (Some x) m" and "prepare_payload v s y m \<or> commit_payload v s y m"
  shows "y = Some x"
  using assms by (auto simp: commit_payload_def prepare_payload_def
      split: PBFTMessage.splits ConsensusMessageKind.splits)

text \<open>
  A quorum that committed to \<open>x\<close>: its correct members voted \<open>x\<close> themselves.
\<close>

lemma decided_voters:
  assumes run: "\<And>p. p \<in> set (vi_quorum_members v) - B \<Longrightarrow> decision_run A (role p) v p seq (es p) (st p)"
    and v: "wf_view v" "distinct (vi_leader_set v)"
    and auth: "\<And>m. m \<in> set (ml_commits (wl_message_log (dn_working_log d))) \<Longrightarrow>
      sender m \<in> set (vi_quorum_members v) \<and> (sender m \<notin> B \<longrightarrow> msg m \<in> sent_votes (es (sender m)))"
    and inv: "dn_inv A v d" "dn_seq d = seq" and dec: "dn_phase d = DecisionPhase.Decided"
  obtains x Q where "wl_batch_digest (dn_working_log d) = Some x" "Q \<subseteq> set (vi_quorum_members v)"
    "card Q = view_quorum v" "\<And>p. p \<in> Q \<Longrightarrow> p \<notin> B \<Longrightarrow> wl_batch_digest (dn_working_log (st p)) = Some x"
proof -
  let ?cs = "ml_commits (wl_message_log (dn_working_log d))"
  obtain x where x: "wl_batch_digest (dn_working_log d) = Some x"
      "card (sender ` set ?cs) = view_quorum v"
      "\<And>m. m \<in> set ?cs \<Longrightarrow> commit_payload (vi_seq v) seq (Some x) (msg m)"
    using decided_facts [OF inv(1) dec] inv(2) by auto
  have "wl_batch_digest (dn_working_log (st p)) = Some x" if p: "p \<in> sender ` set ?cs" "p \<notin> B" for p
  proof -
    obtain m where m: "m \<in> set ?cs" "sender m = p" using p(1) by auto
    have "msg m \<in> sent_votes (es p)" "p \<in> set (vi_quorum_members v) - B" using auth [OF m(1)] m(2) p(2) by auto
    with sent_votes_payload decision_run_inv [OF run v, of p] commit_payload_unique [OF x(3) [OF m(1)]]
    show ?thesis by blast
  qed
  with x auth that [of x "sender ` set ?cs"] show ?thesis by blast
qed

text \<open>
  C1. Agreement: in a view of \<open>3f + 1\<close> members of which at most \<open>f\<close> are faulty, two correct
  replicas that decide an instance decide the same batch digest, whatever the faulty replicas
  send and however messages and background tasks interleave. The correct replicas run the
  instance as the code does; the votes they log come from members of the view, and a vote
  logged with a correct sender was sent by that sender.
\<close>

theorem agreement:
  assumes v: "tight_view v" "distinct (vi_leader_set v)"
    and faulty: "finite B" "card B \<le> view_f v"
    and run: "\<And>p. p \<in> set (vi_quorum_members v) - B \<Longrightarrow> decision_run A (role p) v p seq (es p) (st p)"
    and auth: "\<And>p m. p \<in> set (vi_quorum_members v) - B \<Longrightarrow>
      m \<in> set (ml_commits (wl_message_log (dn_working_log (st p)))) \<Longrightarrow>
      sender m \<in> set (vi_quorum_members v) \<and> (sender m \<notin> B \<longrightarrow> msg m \<in> sent_votes (es (sender m)))"
    and p: "p \<in> set (vi_quorum_members v) - B" "is_finalizeable (st p)"
    and q: "q \<in> set (vi_quorum_members v) - B" "is_finalizeable (st q)"
  shows "\<exists>x. wl_batch_digest (dn_working_log (st p)) = Some x \<and>
    wl_batch_digest (dn_working_log (st q)) = Some x"
proof -
  have wf: "wf_view v" using v(1) by (simp add: tight_view_def)
  have inv: "dn_inv A v (st r)" "dn_seq (st r) = seq" if "r \<in> set (vi_quorum_members v) - B" for r
    using decision_run_inv [OF run [OF that] wf v(2)] by simp_all
  obtain x P where x: "wl_batch_digest (dn_working_log (st p)) = Some x" "P \<subseteq> set (vi_quorum_members v)"
      "card P = view_quorum v" "\<And>r. r \<in> P \<Longrightarrow> r \<notin> B \<Longrightarrow> wl_batch_digest (dn_working_log (st r)) = Some x"
    using decided_voters [OF run wf v(2) auth [OF p(1)] inv [OF p(1)]] p(2)
    unfolding is_finalizeable_def by metis
  obtain y Q where y: "wl_batch_digest (dn_working_log (st q)) = Some y" "Q \<subseteq> set (vi_quorum_members v)"
      "card Q = view_quorum v" "\<And>r. r \<in> Q \<Longrightarrow> r \<notin> B \<Longrightarrow> wl_batch_digest (dn_working_log (st r)) = Some y"
    using decided_voters [OF run wf v(2) auth [OF q(1)] inv [OF q(1)]] q(2)
    unfolding is_finalizeable_def by metis
  have "x = y"
    by (rule vq.one_value [OF v(1) faulty, of P "\<lambda>r z. wl_batch_digest (dn_working_log (st r)) = Some z" x Q y])
      (use x y in simp_all)
  with x(1) y(1) show ?thesis by simp
qed

text \<open>Four replicas, the last one silent: the others go through the instance with votes of each other.\<close>

fun drive :: "nat StoredConsensusMessage list \<Rightarrow> nat effect list \<times> nat ConsensusDecision
    \<Rightarrow> nat effect list \<times> nat ConsensusDecision" where
  "drive [] s = s"
| "drive (m # ms) (es, d) =
     (case dn_process_message sample_atlas ReplicaSynchronizer (0, 0) sample_view m d of
        (d', es', _) \<Rightarrow> drive ms (es @ es', d'))"

definition quad_messages :: "nat StoredConsensusMessage list" where
  "quad_messages = [sample_pre_prepare, sample_prepare 0, sample_prepare 1, sample_prepare 2,
     sample_commit 0, sample_commit 1, sample_commit 2]"

definition quad_state :: "NodeId \<Rightarrow> nat effect list \<times> nat ConsensusDecision" where
  "quad_state p = drive quad_messages ([], fst (dn_poll (init_decision p 5 sample_view)))"

lemma drive_run:
  "decision_run sample_atlas ReplicaSynchronizer sample_view p 5 es d \<Longrightarrow>
   list_all (\<lambda>m. is_consensus (msg m)) ms \<Longrightarrow>
   decision_run sample_atlas ReplicaSynchronizer sample_view p 5 (fst (drive ms (es, d))) (snd (drive ms (es, d)))"
proof (induction ms arbitrary: es d)
  case (Cons m ms)
  obtain d' es' r where "dn_process_message sample_atlas ReplicaSynchronizer (0, 0) sample_view m d = (d', es', r)"
    by (metis prod.collapse)
  with Cons show ?case by (auto intro!: Cons.IH decision_run.step decision_step.processed)
qed simp

lemma polled_run:
  "decision_run sample_atlas ReplicaSynchronizer sample_view p 5 []
     (fst (dn_poll (init_decision p 5 sample_view :: nat ConsensusDecision)))"
proof -
  have "decision_run sample_atlas ReplicaSynchronizer sample_view p 5 [] (init_decision p 5 sample_view :: nat ConsensusDecision)"
    unfolding init_decision_eq by (rule decision_run.start) (simp add: mq_ok_def MessageQueue_new_def)
  then have "decision_run sample_atlas ReplicaSynchronizer sample_view p 5 ([] @ [])
      (fst (dn_poll (init_decision p 5 sample_view :: nat ConsensusDecision)))"
    by (rule decision_run.step) (auto intro!: decision_step.polled prod_eqI)
  then show ?thesis by simp
qed

lemma quad_run:
  "decision_run sample_atlas ReplicaSynchronizer sample_view p 5 (fst (quad_state p)) (snd (quad_state p))"
  unfolding quad_state_def
  by (rule drive_run [OF polled_run])
    (simp add: quad_messages_def sample_pre_prepare_def sample_prepare_def sample_commit_def is_consensus_def)

definition quad_commit :: "nat ConsensusMessage" where
  "quad_commit = ConsensusMessage 5 0 0 (Commit [7])"

definition is_quad_commit :: "nat PBFTMessage \<Rightarrow> bool" where
  "is_quad_commit x = (case x of ConsensusMsg c \<Rightarrow> c = quad_commit | _ \<Rightarrow> False)"

definition sends_quad_commit :: "nat effect \<Rightarrow> bool" where
  "sends_quad_commit e = (case e of BroadcastSigned x _ \<Rightarrow> is_quad_commit x | _ \<Rightarrow> False)"

lemma quad_decided:
  "list_all (\<lambda>p. is_finalizeable (snd (quad_state p)) \<and> list_ex sends_quad_commit (fst (quad_state p)) \<and>
     list_all (\<lambda>m. sender m \<in> {0, 1, 2} \<and> is_quad_commit (msg m))
       (ml_commits (wl_message_log (dn_working_log (snd (quad_state p)))))) [0, 1, 2]"
  by code_simp

lemma is_quad_commit_eq: "is_quad_commit x \<longleftrightarrow> x = ConsensusMsg quad_commit"
  by (auto simp: is_quad_commit_def split: PBFTMessage.splits)

lemma sends_quad_commit_sent: "list_ex sends_quad_commit es \<Longrightarrow> ConsensusMsg quad_commit \<in> sent_votes es"
proof (induction es)
  case (Cons e es)
  then show ?case by (cases e) (auto simp: sent_votes_def sends_quad_commit_def is_quad_commit_eq)
qed simp

theorem agreement_witness:
  "\<exists>x. wl_batch_digest (dn_working_log (snd (quad_state 0))) = Some x \<and>
    wl_batch_digest (dn_working_log (snd (quad_state 2))) = Some x"
proof (rule agreement [where v = sample_view and B = "{3}" and A = sample_atlas and seq = 5
      and role = "\<lambda>_. ReplicaSynchronizer" and es = "\<lambda>p. fst (quad_state p)" and st = "\<lambda>p. snd (quad_state p)"])
  show "tight_view sample_view" by (simp add: tight_view_def)
  show "decision_run sample_atlas ReplicaSynchronizer sample_view p 5 (fst (quad_state p)) (snd (quad_state p))" for p
    by (rule quad_run)
  have d: "is_finalizeable (snd (quad_state p))" "ConsensusMsg quad_commit \<in> sent_votes (fst (quad_state p))"
    "\<And>m. m \<in> set (ml_commits (wl_message_log (dn_working_log (snd (quad_state p))))) \<Longrightarrow>
       sender m \<in> {0, 1, 2} \<and> msg m = ConsensusMsg quad_commit"
    if "p \<in> {0, 1, 2}" for p
    using quad_decided that sends_quad_commit_sent by (auto simp: list_all_iff is_quad_commit_eq)
  show "is_finalizeable (snd (quad_state 0))" "is_finalizeable (snd (quad_state 2))" using d(1) by simp_all
  fix p m
  assume p: "p \<in> set (vi_quorum_members sample_view) - {3}"
    and m: "m \<in> set (ml_commits (wl_message_log (dn_working_log (snd (quad_state p)))))"
  from p have "p \<in> {0, 1, 2}" by auto
  from d(3) [OF this m] have s: "sender m \<in> {0, 1, 2}" "msg m = ConsensusMsg quad_commit" by simp_all
  with d(2) [OF s(1)] show "sender m \<in> set (vi_quorum_members sample_view) \<and>
      (sender m \<notin> {3} \<longrightarrow> msg m \<in> sent_votes (fst (quad_state (sender m))))"
    by auto
qed simp_all

subsection \<open>Progress\<close>

definition process_all :: "atlas \<Rightarrow> SynchronizerRole \<Rightarrow> nat \<times> nat \<Rightarrow> ViewInfo
    \<Rightarrow> 'o StoredConsensusMessage list \<Rightarrow> 'o ConsensusDecision \<Rightarrow> 'o ConsensusDecision" where
  "process_all A role nn v ms d = foldl (\<lambda>d m. fst (dn_process_message A role nn v m d)) d ms"

lemma process_commit_new:
  assumes inv: "dn_inv A v d" and ph: "dn_phase d = Committing r" and m: "is_commit_msg m"
    and dg: "wl_batch_digest (dn_working_log d) = Some x" and vf: "vote_for (vi_seq v) (dn_seq d) x m"
    and new: "sender m \<notin> sender ` set (ml_commits (wl_message_log (dn_working_log d)))"
  shows "fst (dn_process_message A role nn v m d) = d\<lparr>dn_working_log := log_commit m (dn_working_log d),
    dn_phase := (if r + 1 = view_quorum v then DecisionPhase.Decided else Committing (r + 1))\<rparr>"
proof -
  have "sender m \<notin> dre_received_commit_messages (wl_duplicate_detection (dn_working_log d))"
    using inv new wl_inv_voters(2) by (auto simp: dn_inv_def Let_def)
  then have log: "wl_process_message m (dn_working_log d) = (log_commit m (dn_working_log d), Ok ())"
    using m by (simp add: wl_process_commit)
  obtain h s w k y where shape: "m = StoredMessage h (ConsensusMsg (ConsensusMessage s w k (Commit y)))"
    using m by (rule is_commit_msgE)
  with vf have "s = dn_seq d" "w = vi_seq v" "y = x" by (simp_all add: vote_for_def)
  with shape log dg ph show ?thesis
    by (simp add: dn_process_message_def process_committing_def view_quorum_def)
qed

text \<open>
  C4. Progress of the commit phase: an instance in the commit phase that processes \<open>COMMIT\<close>s
  for its batch of enough further replicas to make up a quorum, in any order, decides.
\<close>

theorem commit_quorum_decides:
  assumes "dn_inv A v d" and "0 < view_quorum v" and "dn_phase d = Committing r"
    and "wl_batch_digest (dn_working_log d) = Some x"
    and "list_all (\<lambda>m. is_commit_msg m \<and> vote_for (vi_seq v) (dn_seq d) x m) ms"
    and "distinct (map sender ms)"
    and "sender ` set ms \<inter> sender ` set (ml_commits (wl_message_log (dn_working_log d))) = {}"
    and "r + length ms = view_quorum v"
  shows "is_finalizeable (process_all A role nn v ms d)"
  using assms
proof (induction ms arbitrary: d r)
  case Nil
  then show ?case by (simp add: dn_inv_def Let_def phase_ok_def)
next
  case (Cons m ms)
  let ?d = "fst (dn_process_message A role nn v m d)"
  have d': "?d = d\<lparr>dn_working_log := log_commit m (dn_working_log d),
      dn_phase := (if r + 1 = view_quorum v then DecisionPhase.Decided else Committing (r + 1))\<rparr>"
    using Cons.prems by (intro process_commit_new) auto
  show ?case
  proof (cases "ms = []")
    case True
    with Cons.prems(8) d' show ?thesis by (simp add: process_all_def is_finalizeable_def)
  next
    case False
    have "is_consensus (msg m)" using Cons.prems(5) by (auto elim!: is_commit_msgE simp: is_consensus_def)
    then have "dn_inv A v ?d"
      using dn_process_step [OF Cons.prems(1,2), of m role nn] by (auto simp: step_ok_def split: prod.splits)
    moreover have "dn_phase ?d = Committing (r + 1)"
      using d' False Cons.prems(8) by (cases ms) auto
    ultimately have "is_finalizeable (process_all A role nn v ms ?d)"
      using Cons.prems d' by (intro Cons.IH) auto
    then show ?thesis by (simp add: process_all_def)
  qed
qed

definition quad_committing :: "nat ConsensusDecision" where
  "quad_committing = snd (drive (take 5 quad_messages) ([], fst (dn_poll (init_decision 0 5 sample_view))))"

theorem commit_quorum_decides_witness:
  "is_finalizeable (process_all sample_atlas ReplicaSynchronizer (0, 0) sample_view
     [sample_commit 2, sample_commit 1] quad_committing)"
proof (rule commit_quorum_decides)
  have "decision_run sample_atlas ReplicaSynchronizer sample_view 0 5
      (fst (drive (take 5 quad_messages) ([], fst (dn_poll (init_decision 0 5 sample_view))))) quad_committing"
    unfolding quad_committing_def
    by (rule drive_run [OF polled_run])
      (simp add: quad_messages_def sample_pre_prepare_def sample_prepare_def sample_commit_def is_consensus_def)
  then show "dn_inv sample_atlas sample_view quad_committing"
    using decision_run_inv by fastforce
  show "dn_phase quad_committing = Committing 1" by code_simp
  show "wl_batch_digest (dn_working_log quad_committing) = Some [7]" by code_simp
  have "dn_seq quad_committing = 5" by code_simp
  then show "list_all (\<lambda>m. is_commit_msg m \<and> vote_for (vi_seq sample_view) (dn_seq quad_committing) [7] m)
      [sample_commit 2, sample_commit 1]"
    by (simp add: sample_commit_def is_commit_msg_def vote_for_def)
  have "map sender (ml_commits (wl_message_log (dn_working_log quad_committing))) = [0]" by code_simp
  then have "sender ` set (ml_commits (wl_message_log (dn_working_log quad_committing))) = {0}"
    by (metis list.set(1) list.set(2) set_map)
  then show "sender ` set [sample_commit 2, sample_commit 1] \<inter>
      sender ` set (ml_commits (wl_message_log (dn_working_log quad_committing))) = {}"
    by (simp add: sample_commit_def sender_def)
qed (simp_all add: sample_commit_def sender_def)

end
