(* ===== verification/Guard.thy ===== *)
theory Guard
  imports Views "HOL-Library.AList"
begin

text \<open>
  The two small shared structures of \<open>bft/consensus/mod.rs\<close>: \<open>Signals\<close>, the consensus
  instances that wait to be polled, and \<open>ProposerConsensusGuard\<close>, which tells the proposer
  which sequence numbers it may propose to and which requests the last view change already
  carried.

  Mutexes and atomics are not modelled: each operation holds its lock for its whole body, so
  it is one step on the state. \<open>event_waker\<close> only wakes threads up and has no state here;
  \<open>BTreeMap\<close>s are association lists.

  Shown: \<open>Signals\<close> implements a set whose least element is taken out first, whatever the
  interleaving of the two containers it is made of (locale \<open>priority_set\<close>); installing a
  sequence number removes exactly the smaller ones; the requests of a \<open>SYNC\<close> message are
  summarised by the largest number of each session.
\<close>

subsection \<open>Signals\<close>

record Signals =
  signaled_nos :: "SeqNo set"
  signaled_seq_no :: "SeqNo list"

definition Signals_new :: Signals where
  "Signals_new = \<lparr>signaled_nos = {}, signaled_seq_no = []\<rparr>"

definition pop_signalled :: "Signals \<Rightarrow> (SeqNo \<times> Signals) option" where
  "pop_signalled s =
     map_option (\<lambda>(seq_no, heap).
       (seq_no, s\<lparr>signaled_seq_no := heap, signaled_nos := signaled_nos s - {seq_no}\<rparr>))
       (heap_pop (signaled_seq_no s))"

definition push_signalled :: "SeqNo \<Rightarrow> Signals \<Rightarrow> Signals" where
  "push_signalled seq s =
     (if seq \<notin> signaled_nos s
      then s\<lparr>signaled_nos := insert seq (signaled_nos s),
             signaled_seq_no := heap_push seq (signaled_seq_no s)\<rparr>
      else s)"

definition Signals_clear :: "Signals \<Rightarrow> Signals" where
  "Signals_clear s = s\<lparr>signaled_nos := {}, signaled_seq_no := []\<rparr>"

subsection \<open>The proposer's guard\<close>

type_synonym session_map = "(NodeId \<times> (SeqNo \<times> SeqNo) list) list"

record ProposerConsensusGuard =
  pg_can_propose :: bool
  pg_seq_no_queue :: "SeqNo list"
  pg_view :: ViewInfo
  pg_has_pending_view_change_reqs :: bool
  pg_last_view_change :: "session_map option"

definition ProposerConsensusGuard_new :: "ViewInfo \<Rightarrow> ProposerConsensusGuard" where
  "ProposerConsensusGuard_new view =
     \<lparr>pg_can_propose = False, pg_seq_no_queue = [], pg_view = view,
      pg_has_pending_view_change_reqs = False, pg_last_view_change = None\<rparr>"

definition lock_consensus :: "ProposerConsensusGuard \<Rightarrow> ProposerConsensusGuard" where
  "lock_consensus g = g\<lparr>pg_can_propose := False\<rparr>"

definition unlock_consensus :: "ProposerConsensusGuard \<Rightarrow> ProposerConsensusGuard" where
  "unlock_consensus g = g\<lparr>pg_can_propose := True\<rparr>"

definition next_seq_no ::
    "ProposerConsensusGuard \<Rightarrow> ProposerConsensusGuard \<times> (SeqNo \<times> ViewInfo) option" where
  "next_seq_no g =
     (case heap_pop (pg_seq_no_queue g) of
        None \<Rightarrow> (g, None)
      | Some (first, rest) \<Rightarrow> (g\<lparr>pg_seq_no_queue := rest\<rparr>, Some (first, pg_view g)))"

definition make_seq_available :: "SeqNo \<Rightarrow> ProposerConsensusGuard \<Rightarrow> ProposerConsensusGuard" where
  "make_seq_available seq g = g\<lparr>pg_seq_no_queue := heap_push seq (pg_seq_no_queue g)\<rparr>"

lemma heap_pop_length: "heap_pop h = Some (x, h') \<Longrightarrow> length h' < length h"
  by (auto simp: heap_pop_def split: list.splits)

function drop_older :: "SeqNo \<Rightarrow> SeqNo list \<Rightarrow> SeqNo list" where
  \<comment> \<open>the loop of \<open>install_seq_no\<close>: peek, compare, pop\<close>
  "drop_older installed_seq heap =
     (case heap_peek heap of
        Some seq \<Rightarrow>
          if seq < installed_seq
          then (case heap_pop heap of
                  Some (x, heap') \<Rightarrow> drop_older installed_seq heap'
                | None \<Rightarrow> heap)
          else heap
      | None \<Rightarrow> heap)"
  by pat_completeness auto
termination
  by (relation "measure (\<lambda>(s, h). length h)") (auto dest: heap_pop_length)

declare drop_older.simps [simp del]

definition install_seq_no :: "SeqNo \<Rightarrow> ProposerConsensusGuard \<Rightarrow> ProposerConsensusGuard" where
  "install_seq_no installed_seq g =
     g\<lparr>pg_seq_no_queue := drop_older installed_seq (pg_seq_no_queue g)\<rparr>"

definition guard_install_view :: "ViewInfo \<Rightarrow> ProposerConsensusGuard \<Rightarrow> ProposerConsensusGuard" where
  "guard_install_view view g = g\<lparr>pg_view := view, pg_seq_no_queue := []\<rparr>"

definition add_sync_request :: "session_map \<Rightarrow> ClientRqInfo \<Rightarrow> session_map" where
  \<comment> \<open>one turn of the loop over the requests: \<open>entry\<close> and \<open>session_entry\<close> are the two
      \<open>or_insert_with\<close> look-ups\<close>
  "add_sync_request client_map req =
     (let entry = (case map_of client_map (cri_sender req) of Some e \<Rightarrow> e | None \<Rightarrow> []);
          session_entry = (case map_of entry (cri_session req) of Some s \<Rightarrow> s | None \<Rightarrow> cri_seq_no req);
          session_entry = (if session_entry < cri_seq_no req then cri_seq_no req else session_entry)
      in AList.update (cri_sender req) (AList.update (cri_session req) session_entry entry) client_map)"

definition install_sync_message_requests ::
    "ClientRqInfo list \<Rightarrow> ProposerConsensusGuard \<Rightarrow> ProposerConsensusGuard" where
  "install_sync_message_requests rqs g =
     g\<lparr>pg_last_view_change := Some (foldl add_sync_request [] rqs),
       pg_has_pending_view_change_reqs := True\<rparr>"

definition sync_messages_clear :: "ProposerConsensusGuard \<Rightarrow> ProposerConsensusGuard" where
  "sync_messages_clear g = g\<lparr>pg_last_view_change := None, pg_has_pending_view_change_reqs := False\<rparr>"

definition guard_clear :: "ProposerConsensusGuard \<Rightarrow> ProposerConsensusGuard" where
  "guard_clear g = g\<lparr>pg_seq_no_queue := []\<rparr>"

subsection \<open>Signals as a set\<close>

text \<open>What the poll loop relies on: a set of pending keys, each at most once, least first.\<close>

locale priority_set =
  fixes empty :: "'s"
    and push :: "'a::linorder \<Rightarrow> 's \<Rightarrow> 's"
    and pop :: "'s \<Rightarrow> ('a \<times> 's) option"
    and abs :: "'s \<Rightarrow> 'a set"
    and invar :: "'s \<Rightarrow> bool"
  assumes invar_empty: "invar empty" and abs_empty: "abs empty = {}"
    and finite_abs: "invar s \<Longrightarrow> finite (abs s)"
    and invar_push: "invar s \<Longrightarrow> invar (push x s)"
    and abs_push: "invar s \<Longrightarrow> abs (push x s) = insert x (abs s)"
    and pop_None: "invar s \<Longrightarrow> pop s = None \<longleftrightarrow> abs s = {}"
    and invar_pop: "invar s \<Longrightarrow> pop s = Some (x, s') \<Longrightarrow> invar s'"
    and pop_in: "invar s \<Longrightarrow> pop s = Some (x, s') \<Longrightarrow> x \<in> abs s"
    and pop_least: "invar s \<Longrightarrow> pop s = Some (x, s') \<Longrightarrow> y \<in> abs s \<Longrightarrow> x \<le> y"
    and abs_pop: "invar s \<Longrightarrow> pop s = Some (x, s') \<Longrightarrow> abs s' = abs s - {x}"
begin

lemma pop_Min: "invar s \<Longrightarrow> pop s = Some (x, s') \<Longrightarrow> x = Min (abs s)"
  by (metis Min_eqI finite_abs pop_in pop_least)

lemma pop_card: "invar s \<Longrightarrow> pop s = Some (x, s') \<Longrightarrow> card (abs s) = Suc (card (abs s'))"
  by (metis abs_pop card_Suc_Diff1 finite_abs pop_in)

lemma pop_strict: "invar s \<Longrightarrow> pop s = Some (x, s') \<Longrightarrow> y \<in> abs s' \<Longrightarrow> x < y"
  by (metis Diff_iff abs_pop insertI1 order_le_neq_trans pop_least)

lemma pop_pushed:
  assumes "invar s" and "abs s \<noteq> {}"
  shows "\<exists>x s'. pop (push y s) = Some (x, s') \<and> x = min y (Min (abs s)) \<and>
    abs s' = insert y (abs s) - {x}"
proof -
  have i: "invar (push y s)" using assms(1) by (rule invar_push)
  obtain x s' where p: "pop (push y s) = Some (x, s')"
    using pop_None [OF i] abs_push [OF assms(1)] by (cases "pop (push y s)") auto
  have "x = Min (insert y (abs s))" using pop_Min [OF i p] abs_push [OF assms(1)] by simp
  then show ?thesis
    using p abs_pop [OF i p] abs_push [OF assms(1)] Min_insert [OF finite_abs [OF assms(1)] assms(2)]
    by simp
qed

end

definition signals_ok :: "Signals \<Rightarrow> bool" where
  "signals_ok s \<longleftrightarrow> sorted (signaled_seq_no s) \<and> distinct (signaled_seq_no s) \<and>
     set (signaled_seq_no s) = signaled_nos s"

interpretation sig: priority_set Signals_new push_signalled pop_signalled signaled_nos signals_ok
proof unfold_locales
  show "signals_ok s \<Longrightarrow> pop_signalled s = None \<longleftrightarrow> signaled_nos s = {}" for s
    by (auto simp: signals_ok_def pop_signalled_def heap_pop_def split: list.splits)
  show "signals_ok s \<Longrightarrow> finite (signaled_nos s)" for s
    by (metis List.finite_set signals_ok_def)
  show "x \<le> y" if "signals_ok s" "pop_signalled s = Some (x, s')" "y \<in> signaled_nos s" for s x s' y
  proof -
    have "y \<in> set (signaled_seq_no s)" using that(1,3) by (simp add: signals_ok_def)
    with that(1,2) show ?thesis
      by (auto simp: signals_ok_def pop_signalled_def heap_pop_def split: list.splits)
  qed
qed (auto simp: signals_ok_def Signals_new_def push_signalled_def pop_signalled_def heap_push_def
    heap_pop_def set_insort_key distinct_insort sorted_insort split: list.splits)

lemma Signals_clear_eq: "Signals_clear s = Signals_new"
  by (simp add: Signals_clear_def Signals_new_def)

text \<open>The use of the queue: signals of the instances, polls and resets in any order.\<close>

datatype SignalOp = Signal SeqNo | TakeSignal | ClearSignals

fun run_signals :: "SignalOp list \<Rightarrow> Signals \<Rightarrow> SeqNo option list" where
  "run_signals [] s = []"
| "run_signals (Signal x # ops) s = run_signals ops (push_signalled x s)"
| "run_signals (TakeSignal # ops) s =
     (case pop_signalled s of None \<Rightarrow> None # run_signals ops s | Some (x, s') \<Rightarrow> Some x # run_signals ops s')"
| "run_signals (ClearSignals # ops) s = run_signals ops (Signals_clear s)"

fun run_set :: "SignalOp list \<Rightarrow> SeqNo set \<Rightarrow> SeqNo option list" where
  \<comment> \<open>the specification: a set whose least element is taken out\<close>
  "run_set [] S = []"
| "run_set (Signal x # ops) S = run_set ops (insert x S)"
| "run_set (TakeSignal # ops) S = (if S = {} then None # run_set ops S else Some (Min S) # run_set ops (S - {Min S}))"
| "run_set (ClearSignals # ops) S = run_set ops {}"

lemma run_signals_set: "signals_ok s \<Longrightarrow> run_signals ops s = run_set ops (signaled_nos s)"
proof (induction ops s rule: run_signals.induct)
  case (3 ops s)
  show ?case
  proof (cases "pop_signalled s")
    case None
    then show ?thesis using "3.IH"(1) [OF None "3.prems"] sig.pop_None [OF "3.prems"] by simp
  next
    case (Some p)
    then obtain x s' where p: "pop_signalled s = Some (x, s')" by (cases p) simp
    have "signaled_nos s \<noteq> {}" using sig.pop_None [OF "3.prems"] p by simp
    then show ?thesis
      using p "3.IH"(2) [OF p refl] sig.invar_pop [OF "3.prems" p] sig.abs_pop [OF "3.prems" p] sig.pop_Min [OF "3.prems" p]
      by simp
  qed
qed (simp_all add: sig.invar_push sig.abs_push Signals_clear_eq sig.invar_empty sig.abs_empty)

text \<open>
  C25. \<open>Signals\<close> implements a set from which polling takes the least number. In whatever order
  instances are signalled, taken out and the queue is cleared, every poll gets what it would get from the set: a number
  that was signalled since it was last taken out, the least of them, once however often
  it was signalled, and again if it is signalled again; nothing if there is none.
\<close>

theorem signals_refine_set: "run_signals ops Signals_new = run_set ops {}"
  using run_signals_set [OF sig.invar_empty, of ops] by (simp add: sig.abs_empty)

subsection \<open>The queue of the proposer\<close>

lemma drop_older_eq: "sorted h \<Longrightarrow> drop_older s h = filter (\<lambda>x. s \<le> x) h"
proof (induction h)
  case Nil
  then show ?case by (simp add: drop_older.simps heap_peek_def)
next
  case (Cons x h)
  show ?case
  proof (cases "x < s")
    case True
    with Cons show ?thesis by (subst drop_older.simps) (simp add: heap_peek_def heap_pop_def)
  next
    case False
    with Cons.prems have "filter (\<lambda>x. s \<le> x) h = h" by (auto intro!: filter_True)
    with False show ?thesis by (subst drop_older.simps) (simp add: heap_peek_def)
  qed
qed

definition guard_ok :: "ProposerConsensusGuard \<Rightarrow> bool" where
  "guard_ok g \<longleftrightarrow> sorted (pg_seq_no_queue g) \<and>
     (pg_has_pending_view_change_reqs g \<longleftrightarrow> pg_last_view_change g \<noteq> None)"

lemma sorted_filter_ge: "sorted h \<Longrightarrow> sorted (filter (\<lambda>x. s \<le> x) h)"
  using sorted_filter [of id h] by simp

lemma guard_ok_ops [intro]:
  "guard_ok (ProposerConsensusGuard_new v)"
  "guard_ok g \<Longrightarrow> guard_ok (lock_consensus g)" "guard_ok g \<Longrightarrow> guard_ok (unlock_consensus g)"
  "guard_ok g \<Longrightarrow> guard_ok (fst (next_seq_no g))" "guard_ok g \<Longrightarrow> guard_ok (make_seq_available s g)"
  "guard_ok g \<Longrightarrow> guard_ok (install_seq_no s g)" "guard_ok g \<Longrightarrow> guard_ok (guard_install_view v g)"
  "guard_ok g \<Longrightarrow> guard_ok (install_sync_message_requests rqs g)"
  "guard_ok g \<Longrightarrow> guard_ok (sync_messages_clear g)" "guard_ok g \<Longrightarrow> guard_ok (guard_clear g)"
  by (simp_all add: guard_ok_def ProposerConsensusGuard_new_def lock_consensus_def unlock_consensus_def
      next_seq_no_def make_seq_available_def install_seq_no_def guard_install_view_def
      install_sync_message_requests_def sync_messages_clear_def guard_clear_def drop_older_eq
      heap_push_def heap_pop_def sorted_insort sorted_filter_ge split: list.splits)
    auto

text \<open>
  C26. Installing a sequence number removes exactly the smaller ones from the numbers offered to
  the proposer, so the next number it is handed is the least one not below the installed one.
\<close>

theorem install_seq_no_correct:
  assumes "guard_ok g"
  shows "mset (pg_seq_no_queue (install_seq_no s g)) = filter_mset (\<lambda>x. s \<le> x) (mset (pg_seq_no_queue g)) \<and>
    (case snd (next_seq_no (install_seq_no s g)) of
       None \<Rightarrow> list_all (\<lambda>x. x < s) (pg_seq_no_queue g)
     | Some (x, v) \<Rightarrow> v = pg_view g \<and> s \<le> x \<and> x \<in> set (pg_seq_no_queue g) \<and>
         list_all (\<lambda>y. y < s \<or> x \<le> y) (pg_seq_no_queue g))"
proof -
  have s: "sorted (pg_seq_no_queue g)" using assms by (simp add: guard_ok_def)
  let ?h = "filter (\<lambda>x. s \<le> x) (pg_seq_no_queue g)"
  have q: "pg_seq_no_queue (install_seq_no s g) = ?h"
    by (simp add: install_seq_no_def drop_older_eq [OF s])
  have m: "pg_view (install_seq_no s g) = pg_view g" by (simp add: install_seq_no_def)
  have n: "snd (next_seq_no (install_seq_no s g)) =
      (case ?h of [] \<Rightarrow> None | x # _ \<Rightarrow> Some (x, pg_view g))"
    by (simp add: next_seq_no_def q m heap_pop_def split: list.splits)
  have so: "sorted ?h" using s by (rule sorted_filter_ge)
  show ?thesis
  proof (cases ?h)
    case Nil
    then have "list_all (\<lambda>x. x < s) (pg_seq_no_queue g)"
      by (simp add: filter_empty_conv list_all_iff not_le)
    then show ?thesis unfolding n Nil by (simp add: q)
  next
    case (Cons x xs)
    have "x \<le> y" if "y \<in> set (pg_seq_no_queue g)" "s \<le> y" for y
    proof -
      have "y \<in> set ?h" using that by simp
      then show ?thesis using so unfolding Cons by auto
    qed
    then have "list_all (\<lambda>y. y < s \<or> x \<le> y) (pg_seq_no_queue g)"
      unfolding list_all_iff using not_le by blast
    moreover have "s \<le> x \<and> x \<in> set (pg_seq_no_queue g)"
      using arg_cong [OF Cons, of set] by auto
    ultimately show ?thesis unfolding n Cons by (simp add: q)
  qed
qed

theorem install_seq_no_correct_witness:
  "snd (next_seq_no (install_seq_no 4 (make_seq_available 5 (make_seq_available 3
     (make_seq_available 7 (ProposerConsensusGuard_new sample_view)))))) = Some (5, sample_view)"
proof -
  let ?g = "make_seq_available 5 (make_seq_available 3 (make_seq_available 7 (ProposerConsensusGuard_new sample_view)))"
  have "guard_ok ?g" by (intro guard_ok_ops)
  note f = install_seq_no_correct [OF this, of 4]
  have "pg_seq_no_queue ?g = [3, 5, 7]" "pg_view ?g = sample_view"
    by (simp_all add: make_seq_available_def heap_push_def ProposerConsensusGuard_new_def)
  with f show ?thesis by (cases "snd (next_seq_no (install_seq_no 4 ?g))") auto
qed

subsection \<open>The requests of a view change\<close>

definition session_seqs :: "NodeId \<Rightarrow> SeqNo \<Rightarrow> ClientRqInfo list \<Rightarrow> SeqNo set" where
  "session_seqs client session rqs =
     cri_seq_no ` {r \<in> set rqs. cri_sender r = client \<and> cri_session r = session}"

definition last_of_session :: "session_map \<Rightarrow> NodeId \<Rightarrow> SeqNo \<Rightarrow> SeqNo option" where
  "last_of_session m client session = Option.bind (map_of m client) (\<lambda>sessions. map_of sessions session)"

lemma last_of_session_add:
  "last_of_session (add_sync_request m r) c s =
   (if cri_sender r = c \<and> cri_session r = s
    then Some (case last_of_session m c s of None \<Rightarrow> cri_seq_no r | Some x \<Rightarrow> max x (cri_seq_no r))
    else last_of_session m c s)"
  by (auto simp: last_of_session_def add_sync_request_def Let_def max_def update_conv' split: option.splits)

lemma session_seqs_snoc:
  "session_seqs c s (rqs @ [r]) =
   (if cri_sender r = c \<and> cri_session r = s then insert (cri_seq_no r) (session_seqs c s rqs)
    else session_seqs c s rqs)"
  by (auto simp: session_seqs_def)

lemma finite_session_seqs [simp]: "finite (session_seqs c s rqs)"
  by (simp add: session_seqs_def)

text \<open>
  After the requests of a \<open>SYNC\<close> message are installed, the guard answers for every client and
  session with the largest sequence number among its requests, and with none when the message
  has no request of that session.
\<close>

theorem install_sync_message_requests_max:
  "(case pg_last_view_change (install_sync_message_requests rqs g) of
      None \<Rightarrow> False
    | Some m \<Rightarrow> last_of_session m client session =
        (if session_seqs client session rqs = {} then None
         else Some (Max (session_seqs client session rqs))))"
proof -
  have "last_of_session (foldl add_sync_request [] rqs) client session =
        (if session_seqs client session rqs = {} then None
         else Some (Max (session_seqs client session rqs)))"
  proof (induction rqs rule: rev_induct)
    case Nil
    then show ?case by (simp add: session_seqs_def last_of_session_def)
  next
    case (snoc r rqs)
    then show ?case by (simp add: session_seqs_snoc last_of_session_add max.commute)
  qed
  then show ?thesis by (simp add: install_sync_message_requests_def)
qed

end
