(* ===== verification/ConsensusHandler.thy ===== *)
theory ConsensusHandler
  imports DecisionInstance Guard
begin

text \<open>
  The consensus handler: \<open>TboQueue\<close> and \<open>Consensus\<close> of \<open>bft/consensus/mod.rs\<close>, which runs a
  window of consecutive instances, keeps the messages of later instances and of later views,
  and moves the window on.

  The functions on queues of queues (\<open>tbo_queue_message_arc\<close>, \<open>tbo_advance_message_queue\<close>,
  \<open>tbo_advance_message_queue_return\<close>) belong to \<open>atlas_core\<close> and are the fields of the
  parameter \<open>tbo\<close>; \<open>tbo_laws\<close> states what they document. The proposer's guard is shared with
  the proposer's thread; here it is a field, and \<open>Guard\<close> has the operations of both sides.

  The loops are recursive functions with their termination proofs; the loop of \<open>poll\<close> ends
  because an instance asks for a proposal only once. The two \<open>assert_eq!\<close> at the end of
  \<open>install_sequence_number\<close>, the \<open>unwrap\<close>s and the indexing of \<open>decisions\<close> are \<open>Panic\<close>.

  Shown: the invariant \<open>cs_inv\<close> (a full window of consecutive instances, each within its own
  invariant, the message queue in step with it, only instances of the window or of the past
  signalled) is kept by every operation, none of them panics, and the batches handed out are
  numbered consecutively.
\<close>

record 'm tbo =
  tbo_queue_message_arc :: "SeqNo \<Rightarrow> 'm list list \<Rightarrow> SeqNo \<times> 'm \<Rightarrow> 'm list list"
  tbo_advance_message_queue :: "'m list list \<Rightarrow> 'm list list"
  tbo_advance_message_queue_return :: "'m list list \<Rightarrow> 'm list list \<times> 'm list option"

type_synonym 'o pbft_tbo = "'o StoredConsensusMessage tbo"

datatype 'o ConsensusStatus =
  VotedTwice NodeId | MessageIgnored | MessageQueued
| Deciding "'o FeDecision list" | Decided "'o FeDecision list"

datatype 'o ConsensusPollStatus =
  Recv | NextMessage "'o StoredConsensusMessage" | Decided "'o FeDecision list"

subsection \<open>The queue of later instances\<close>

record 'o TboQueue =
  tq_curr_seq :: SeqNo
  tq_watermark :: nat
  tq_get_queue :: bool
  tq_pre_prepares :: "'o StoredConsensusMessage list list"
  tq_prepares :: "'o StoredConsensusMessage list list"
  tq_commits :: "'o StoredConsensusMessage list list"

definition TboQueue_new :: "SeqNo \<Rightarrow> nat \<Rightarrow> 'o TboQueue" where
  "TboQueue_new curr_seq watermark =
     \<lparr>tq_curr_seq = curr_seq, tq_watermark = watermark, tq_get_queue = False,
      tq_pre_prepares = [], tq_prepares = [], tq_commits = []\<rparr>"

definition base_seq :: "atlas \<Rightarrow> 'o TboQueue \<Rightarrow> SeqNo" where
  "base_seq A q = add_seq A (tq_curr_seq q) (seq_of_u32 A (tq_watermark q))"

definition tq_signal :: "'o TboQueue \<Rightarrow> 'o TboQueue" where
  "tq_signal q = q\<lparr>tq_get_queue := True\<rparr>"

definition advance_queue :: "'o pbft_tbo \<Rightarrow> atlas \<Rightarrow> 'o TboQueue \<Rightarrow> 'o TboQueue \<times> 'o MessageQueue" where
  "advance_queue T A q =
     (let (pre_prepares_q, pre_prepares) = tbo_advance_message_queue_return T (tq_pre_prepares q);
          (prepares_q, prepares) = tbo_advance_message_queue_return T (tq_prepares q);
          (commits_q, commits) = tbo_advance_message_queue_return T (tq_commits q);
          unwrap_or_default = case_option [] id
      in (q\<lparr>tq_curr_seq := next_seq A (tq_curr_seq q), tq_pre_prepares := pre_prepares_q,
            tq_prepares := prepares_q, tq_commits := commits_q\<rparr>,
          from_messages (unwrap_or_default pre_prepares) (unwrap_or_default prepares)
            (unwrap_or_default commits)))"

definition next_instance_queue :: "'o pbft_tbo \<Rightarrow> atlas \<Rightarrow> 'o TboQueue \<Rightarrow> 'o TboQueue" where
  "next_instance_queue T A q =
     q\<lparr>tq_curr_seq := next_seq A (tq_curr_seq q),
       tq_pre_prepares := tbo_advance_message_queue T (tq_pre_prepares q),
       tq_prepares := tbo_advance_message_queue T (tq_prepares q),
       tq_commits := tbo_advance_message_queue T (tq_commits q)\<rparr>"

definition tq_queue_pre_prepare ::
    "'o pbft_tbo \<Rightarrow> atlas \<Rightarrow> 'o StoredConsensusMessage \<Rightarrow> 'o TboQueue \<Rightarrow> 'o TboQueue" where
  "tq_queue_pre_prepare T A message q =
     q\<lparr>tq_pre_prepares := tbo_queue_message_arc T (base_seq A q) (tq_pre_prepares q)
          (PBFTMessage_sequence_number A (msg message), message)\<rparr>"

definition tq_queue_prepare ::
    "'o pbft_tbo \<Rightarrow> atlas \<Rightarrow> 'o StoredConsensusMessage \<Rightarrow> 'o TboQueue \<Rightarrow> 'o TboQueue" where
  "tq_queue_prepare T A message q =
     q\<lparr>tq_prepares := tbo_queue_message_arc T (base_seq A q) (tq_prepares q)
          (PBFTMessage_sequence_number A (msg message), message)\<rparr>"

definition tq_queue_commit ::
    "'o pbft_tbo \<Rightarrow> atlas \<Rightarrow> 'o StoredConsensusMessage \<Rightarrow> 'o TboQueue \<Rightarrow> 'o TboQueue" where
  "tq_queue_commit T A message q =
     q\<lparr>tq_commits := tbo_queue_message_arc T (base_seq A q) (tq_commits q)
          (PBFTMessage_sequence_number A (msg message), message)\<rparr>"

definition tq_queue :: "'o pbft_tbo \<Rightarrow> atlas \<Rightarrow> 'o StoredConsensusMessage \<Rightarrow> 'o TboQueue
    \<Rightarrow> ('o TboQueue, unit) res" where
  "tq_queue T A message q =
     res_bind (consensus (msg message)) (\<lambda>c.
       Ok (case cm_kind c of
             PrePrepare _ \<Rightarrow> tq_queue_pre_prepare T A message q
           | Prepare _ \<Rightarrow> tq_queue_prepare T A message q
           | Commit _ \<Rightarrow> tq_queue_commit T A message q))"

definition tq_clear :: "'o TboQueue \<Rightarrow> 'o TboQueue" where
  "tq_clear q = q\<lparr>tq_get_queue := False, tq_pre_prepares := [], tq_prepares := [], tq_commits := []\<rparr>"

subsection \<open>The handler\<close>

record 'o Consensus =
  cs_node_id :: NodeId
  cs_watermark :: nat
  cs_seq_no :: SeqNo
  cs_signalled :: Signals
  cs_curr_view :: ViewInfo
  cs_decisions :: "'o ConsensusDecision list"
  cs_tbo_queue :: "'o TboQueue"
  cs_view_queue :: "'o StoredConsensusMessage list list"
  cs_consensus_guard :: ProposerConsensusGuard
  cs_is_recovering :: bool

definition enqueue_decision :: "'o ConsensusDecision \<Rightarrow> 'o Consensus \<Rightarrow> 'o Consensus" where
  "enqueue_decision decision c =
     c\<lparr>cs_signalled := push_signalled (dn_seq decision) (cs_signalled c),
       cs_decisions := cs_decisions c @ [decision]\<rparr>"

definition clear_all_queues :: "'o Consensus \<Rightarrow> 'o Consensus" where
  "clear_all_queues c =
     c\<lparr>cs_decisions := [], cs_tbo_queue := tq_clear (cs_tbo_queue c),
       cs_signalled := Signals_clear (cs_signalled c),
       cs_consensus_guard := guard_clear (cs_consensus_guard c)\<rparr>"

definition is_catching_up :: "'o Consensus \<Rightarrow> bool" where
  "is_catching_up c = cs_is_recovering c"

lemma enqueue_decision_simps [simp]:
  "cs_decisions (enqueue_decision d c) = cs_decisions c @ [d]"
  "cs_signalled (enqueue_decision d c) = push_signalled (dn_seq d) (cs_signalled c)"
  "cs_watermark (enqueue_decision d c) = cs_watermark c" "cs_node_id (enqueue_decision d c) = cs_node_id c"
  "cs_seq_no (enqueue_decision d c) = cs_seq_no c" "cs_curr_view (enqueue_decision d c) = cs_curr_view c"
  "cs_tbo_queue (enqueue_decision d c) = cs_tbo_queue c"
  "cs_view_queue (enqueue_decision d c) = cs_view_queue c"
  "cs_consensus_guard (enqueue_decision d c) = cs_consensus_guard c"
  "cs_is_recovering (enqueue_decision d c) = cs_is_recovering c"
  by (simp_all add: enqueue_decision_def)

function fill_decisions :: "atlas \<Rightarrow> ViewInfo \<Rightarrow> SeqNo \<Rightarrow> 'o Consensus \<Rightarrow> 'o Consensus" where
  \<comment> \<open>the loop that fills the window with fresh instances\<close>
  "fill_decisions A view sequence_no c =
     (if length (cs_decisions c) < cs_watermark c
      then fill_decisions A view (add_seq A sequence_no (ONE A))
             (enqueue_decision (init_decision (cs_node_id c) sequence_no view) c)
      else c)"
  by pat_completeness auto
termination
  by (relation "measure (\<lambda>(A, v, s, c). cs_watermark c - length (cs_decisions c))") auto

definition Consensus_new_replica :: "atlas \<Rightarrow> NodeId \<Rightarrow> ViewInfo \<Rightarrow> SeqNo \<Rightarrow> nat
    \<Rightarrow> ProposerConsensusGuard \<Rightarrow> 'o Consensus" where
  \<comment> \<open>the source's loop counts to the watermark from an empty window, as \<open>fill_decisions\<close> does\<close>
  "Consensus_new_replica A node_id view seq_no watermark consensus_guard =
     fill_decisions A view seq_no
       \<lparr>cs_node_id = node_id, cs_watermark = watermark, cs_seq_no = seq_no,
        cs_signalled = Signals_new, cs_curr_view = view, cs_decisions = [],
        cs_tbo_queue = TboQueue_new seq_no watermark, cs_view_queue = [],
        cs_consensus_guard = consensus_guard, cs_is_recovering = False\<rparr>"

definition enqueue_other_view_message ::
    "nat \<Rightarrow> 'o StoredConsensusMessage \<Rightarrow> 'o Consensus \<Rightarrow> 'o Consensus" where
  "enqueue_other_view_message index message c =
     (let index = index - 1;
          view_queue = cs_view_queue c @ replicate (Suc index - length (cs_view_queue c)) []
      in c\<lparr>cs_view_queue := view_queue[index := view_queue ! index @ [message]]\<rparr>)"

definition cs_queue :: "'o pbft_tbo \<Rightarrow> atlas \<Rightarrow> 'o StoredConsensusMessage \<Rightarrow> 'o Consensus
    \<Rightarrow> ('o Consensus, unit) res" where
  "cs_queue T A message c =
     res_bind (consensus (msg message)) (\<lambda>m.
       let message_seq = PBFTMessage_sequence_number A (msg message) in
       case index_seq A (cm_view m) (vi_seq (cs_curr_view c)) of
         Inl _ \<Rightarrow> Ok c
       | Inr i \<Rightarrow>
           if 0 < i then Ok (enqueue_other_view_message i message c)
           else
             (case index_seq A message_seq (cs_seq_no c) of
                Inl _ \<Rightarrow> Ok c
              | Inr i \<Rightarrow>
                  if length (cs_decisions c) \<le> i
                  then res_map (\<lambda>q. c\<lparr>cs_tbo_queue := q\<rparr>) (tq_queue T A message (cs_tbo_queue c))
                  else res_map (\<lambda>d. c\<lparr>cs_decisions := (cs_decisions c)[i := d],
                                        cs_signalled := push_signalled message_seq (cs_signalled c)\<rparr>)
                         (dn_queue message (cs_decisions c ! i))))"

definition can_finalize :: "'o Consensus \<Rightarrow> bool" where
  "can_finalize c = (case cs_decisions c of d # _ \<Rightarrow> is_finalizeable d | [] \<Rightarrow> False)"

fun count_finalizeable :: "'o ConsensusDecision list \<Rightarrow> nat" where
  "count_finalizeable [] = 0"
| "count_finalizeable (decision # ds) =
     (if is_finalizeable decision then 1 + count_finalizeable ds else 0)"

definition finalizeable_count :: "'o Consensus \<Rightarrow> nat" where
  "finalizeable_count c = count_finalizeable (cs_decisions c)"

subsection \<open>Polling\<close>

definition initial_count :: "'o Consensus \<Rightarrow> nat" where
  \<comment> \<open>instances that have not asked for a proposal yet\<close>
  "initial_count c = length (filter (\<lambda>d. dn_phase d = Initialize) (cs_decisions c))"

definition poll_measure :: "'o Consensus \<Rightarrow> nat" where
  "poll_measure c = length (signaled_seq_no (cs_signalled c)) + initial_count c"

definition with_polled :: "Signals \<Rightarrow> nat \<Rightarrow> 'o ConsensusDecision \<Rightarrow> 'o Consensus \<Rightarrow> 'o Consensus" where
  "with_polled s i d c = c\<lparr>cs_signalled := s, cs_decisions := (cs_decisions c)[i := d]\<rparr>"

definition offer_seq :: "SeqNo \<Rightarrow> 'o Consensus \<Rightarrow> 'o Consensus" where
  \<comment> \<open>the body of the \<open>TryPropose\<close> arm after signalling again\<close>
  "offer_seq seq_no c =
     (if cs_node_id c \<in> set (vi_leader_set (cs_curr_view c))
      then c\<lparr>cs_consensus_guard := make_seq_available seq_no (cs_consensus_guard c)\<rparr>
      else c)"

lemma push_signalled_length:
  "length (signaled_seq_no (push_signalled x s)) \<le> Suc (length (signaled_seq_no s))"
  by (simp add: push_signalled_def heap_push_def)

lemma pop_signalled_length:
  "pop_signalled s = Some (x, s') \<Longrightarrow> length (signaled_seq_no s) = Suc (length (signaled_seq_no s'))"
  by (auto simp: pop_signalled_def heap_pop_def split: list.splits)

lemma filter_update_length:
  "i < length xs \<Longrightarrow> P (xs ! i) \<Longrightarrow> \<not> P x \<Longrightarrow>
   Suc (length (filter P (xs[i := x]))) = length (filter P xs)"
proof (induction xs arbitrary: i)
  case (Cons y ys)
  then show ?case by (cases i) auto
qed simp

lemma filter_update_length_le:
  "P x \<longrightarrow> P (xs ! i) \<Longrightarrow> length (filter P (xs[i := x])) \<le> length (filter P xs)"
proof (induction xs arbitrary: i)
  case (Cons y ys)
  show ?case
  proof (cases i)
    case (Suc k)
    with Cons.prems Cons.IH [of k] show ?thesis by simp
  qed (use Cons.prems in auto)
qed simp

lemma dn_poll_TryPropose:
  "dn_poll d = (d', TryPropose) \<longleftrightarrow> dn_phase d = Initialize \<and> d' = d\<lparr>dn_phase := PrePreparing 0\<rparr>"
  by (auto simp: dn_poll_def Let_def split: DecisionPhase.splits list.splits if_splits)

lemma dn_poll_phase:
  "dn_poll d = (d', st) \<Longrightarrow> st \<noteq> TryPropose \<Longrightarrow> dn_phase d' = dn_phase d"
  by (auto simp: dn_poll_def Let_def split: DecisionPhase.splits list.splits if_splits)

lemma poll_measure_polled:
  assumes "pop_signalled (cs_signalled c) = Some (x, s)" and "dn_poll (cs_decisions c ! i) = (d, st)"
  shows "st \<noteq> TryPropose \<Longrightarrow> poll_measure (with_polled s i d c) < poll_measure c"
    and "st = TryPropose \<Longrightarrow> i < length (cs_decisions c) \<Longrightarrow>
      poll_measure (with_polled (push_signalled x s) i d c) < poll_measure c"
proof -
  note len = pop_signalled_length [OF assms(1)]
  assume "st \<noteq> TryPropose"
  then have "initial_count (with_polled s i d c) \<le> initial_count c"
    unfolding initial_count_def with_polled_def using dn_poll_phase [OF assms(2)]
    by (simp add: filter_update_length_le)
  then show "poll_measure (with_polled s i d c) < poll_measure c"
    using len by (simp add: poll_measure_def with_polled_def)
next
  note len = pop_signalled_length [OF assms(1)] push_signalled_length [of x s]
  assume t: "st = TryPropose" "i < length (cs_decisions c)"
  then have "Suc (initial_count (with_polled (push_signalled x s) i d c)) = initial_count c"
    unfolding initial_count_def with_polled_def using assms(2)
    by (simp add: dn_poll_TryPropose filter_update_length)
  then show "poll_measure (with_polled (push_signalled x s) i d c) < poll_measure c"
    using len by (simp add: poll_measure_def with_polled_def)
qed

lemma poll_measure_offer [simp]: "poll_measure (offer_seq x c) = poll_measure c"
  by (simp add: poll_measure_def initial_count_def offer_seq_def)

lemma poll_measure_pop:
  "pop_signalled (cs_signalled c) = Some (x, s) \<Longrightarrow> poll_measure (c\<lparr>cs_signalled := s\<rparr>) < poll_measure c"
  using pop_signalled_length [of "cs_signalled c" x s] by (simp add: poll_measure_def initial_count_def)

function cs_poll :: "atlas \<Rightarrow> 'o Consensus \<Rightarrow> 'o Consensus \<times> ('o ConsensusPollStatus, unit) res" where
  "cs_poll A c =
     (case pop_signalled (cs_signalled c) of
        None \<Rightarrow> (c, Ok (if can_finalize c then ConsensusPollStatus.Decided [] else ConsensusPollStatus.Recv))
      | Some (seq_no, signalled) \<Rightarrow>
          (case index_seq A seq_no (cs_seq_no c) of
             Inl _ \<Rightarrow> cs_poll A (c\<lparr>cs_signalled := signalled\<rparr>)
           | Inr index \<Rightarrow>
               if index < length (cs_decisions c)
               then
                 (case dn_poll (cs_decisions c ! index) of
                    (d, DecisionPollStatus.NextMessage message) \<Rightarrow>
                      (with_polled (push_signalled seq_no signalled) index d c,
                       Ok (ConsensusPollStatus.NextMessage message))
                  | (d, TryPropose) \<Rightarrow>
                      cs_poll A (offer_seq seq_no (with_polled (push_signalled seq_no signalled) index d c))
                  | (d, _) \<Rightarrow> cs_poll A (with_polled signalled index d c))
               else (c\<lparr>cs_signalled := signalled\<rparr>, Panic)))"
  by pat_completeness auto
termination
  by (relation "measure (\<lambda>(A, c). poll_measure c)") (auto simp: poll_measure_pop
      intro: poll_measure_polled(1) [OF _ sym] poll_measure_polled(2) [OF _ sym])

declare cs_poll.simps [simp del] fill_decisions.simps [simp del]

subsection \<open>Processing a message\<close>

type_synonym 'o consensus_result =
  "'o Consensus \<times> 'o effect list \<times> ('o ConsensusStatus, DecidingLogError) res"

definition consensus_status :: "SeqNo \<Rightarrow> 'o DecisionStatus \<Rightarrow> 'o ConsensusStatus" where
  "consensus_status decision_seq status =
     (case status of
        DecisionStatus.VotedTwice node \<Rightarrow> ConsensusStatus.VotedTwice node
      | DecisionStatus.Deciding message \<Rightarrow>
          ConsensusStatus.Deciding [DecisionFromMessage decision_seq message]
      | DecisionStatus.MessageQueued \<Rightarrow> ConsensusStatus.MessageQueued
      | DecisionStatus.Transitioned metadata message \<Rightarrow>
          (case metadata of
             Some metadata \<Rightarrow>
               ConsensusStatus.Deciding [DecisionFromMetadataAndMessages decision_seq metadata [message]]
           | None \<Rightarrow> ConsensusStatus.Deciding [DecisionFromMessage decision_seq message])
      | DecisionStatus.Decided message \<Rightarrow> ConsensusStatus.Decided [DecisionFromMessage decision_seq message]
      | DecisionStatus.DecidedIgnored \<Rightarrow> ConsensusStatus.Decided []
      | DecisionStatus.MessageIgnored \<Rightarrow> ConsensusStatus.MessageIgnored)"

definition signals_again :: "'o DecisionStatus \<Rightarrow> bool" where
  \<comment> \<open>the arms of the match that call \<open>push_signalled\<close>\<close>
  "signals_again status =
     (case status of
        DecisionStatus.MessageQueued \<Rightarrow> True | DecisionStatus.Transitioned _ _ \<Rightarrow> True | _ \<Rightarrow> False)"

definition process_at :: "atlas \<Rightarrow> SynchronizerRole \<Rightarrow> nat \<times> nat \<Rightarrow> ViewInfo
    \<Rightarrow> 'o StoredConsensusMessage \<Rightarrow> nat \<Rightarrow> 'o Consensus \<Rightarrow> 'o consensus_result" where
  \<comment> \<open>the message is for the instance at index \<open>i\<close> of the window\<close>
  "process_at A role nonces view s_message i c =
     (let decision_seq = dn_seq (cs_decisions c ! i) in
      case dn_process_message A role nonces view s_message (cs_decisions c ! i) of
        (d, es, r) \<Rightarrow>
          let c = c\<lparr>cs_decisions := (cs_decisions c)[i := d]\<rparr> in
          (case r of
             Ok status \<Rightarrow>
               (if signals_again status
                then c\<lparr>cs_signalled := push_signalled decision_seq (cs_signalled c)\<rparr> else c,
                es, Ok (consensus_status decision_seq status))
           | Err e \<Rightarrow> (c, es, Err e)
           | Panic \<Rightarrow> (c, es, Panic)))"

definition cs_process_message :: "'o pbft_tbo \<Rightarrow> atlas \<Rightarrow> SynchronizerRole \<Rightarrow> nat \<times> nat \<Rightarrow> ViewInfo
    \<Rightarrow> 'o StoredConsensusMessage \<Rightarrow> 'o Consensus \<Rightarrow> 'o consensus_result" where
  "cs_process_message T A role nonces view s_message c =
     (case (consensus (msg s_message) :: (_, DecidingLogError) res) of
        Ok message \<Rightarrow>
          (case index_seq A (cm_view message) (vi_seq (cs_curr_view c)) of
             Inl _ \<Rightarrow> (c, [], Ok ConsensusStatus.MessageIgnored)
           | Inr i \<Rightarrow>
               if 0 < i
               then (enqueue_other_view_message i s_message c, [], Ok ConsensusStatus.MessageQueued)
               else
                 (case index_seq A (cm_seq message) (cs_seq_no c) of
                    Inl _ \<Rightarrow> (c, [], Ok ConsensusStatus.MessageIgnored)
                  | Inr i \<Rightarrow>
                      if length (cs_decisions c) \<le> i
                      then (case tq_queue T A s_message (cs_tbo_queue c) of
                              Ok q \<Rightarrow> (c\<lparr>cs_tbo_queue := q\<rparr>, [], Ok ConsensusStatus.MessageQueued)
                            | _ \<Rightarrow> (c, [], Panic))
                      else process_at A role nonces view s_message i c))
      | _ \<Rightarrow> (c, [], Panic))"

subsection \<open>Moving the window\<close>

definition next_instance :: "'o pbft_tbo \<Rightarrow> atlas \<Rightarrow> ViewInfo \<Rightarrow> 'o Consensus
    \<Rightarrow> ('o Consensus \<times> 'o effect list \<times> 'o ConsensusDecision, 'e) res" where
  "next_instance T A view c =
     (case cs_decisions c of
        [] \<Rightarrow> Panic
      | decision # rest \<Rightarrow>
          let seq_no = next_seq A (cs_seq_no c);
              (tbo_queue, queue) = advance_queue T A (cs_tbo_queue c);
              recovered = (\<not> mq_get_queue queue \<and> cs_is_recovering c);
              new_seq_no = (if rest = [] then seq_no else next_seq A (dn_seq (last rest)));
              novel_decision = init_with_msg_log (cs_node_id c) new_seq_no view queue
          in Ok (enqueue_decision novel_decision
                   (c\<lparr>cs_decisions := rest, cs_seq_no := seq_no, cs_tbo_queue := tbo_queue,
                      cs_is_recovering := (if recovered then False else cs_is_recovering c)\<rparr>),
                 if recovered then [CancelAllTimeouts] else [], decision))"

definition cs_finalize :: "'o pbft_tbo \<Rightarrow> atlas \<Rightarrow> ViewInfo \<Rightarrow> 'o Consensus
    \<Rightarrow> 'o Consensus \<times> 'o effect list \<times> ('o CompletedBatch option, DecisionError) res" where
  "cs_finalize T A view c =
     (case cs_decisions c of
        [] \<Rightarrow> (c, [], Panic)
      | decision # _ \<Rightarrow>
          if \<not> is_finalizeable decision then (c, [], Ok None)
          else
            (case next_instance T A view c of
               Ok (c', es, decision) \<Rightarrow> (c', es, res_map Some (dn_finalize decision))
             | Err e \<Rightarrow> (c, [], Err e)
             | Panic \<Rightarrow> (c, [], Panic)))"

definition take_from_tbo :: "'o pbft_tbo \<Rightarrow> atlas \<Rightarrow> ViewInfo \<Rightarrow> SeqNo \<Rightarrow> 'o Consensus \<Rightarrow> 'o Consensus" where
  \<comment> \<open>the body of the two loops that refill the window from the queue of later instances\<close>
  "take_from_tbo T A view sequence_no c =
     (let (tbo_queue, messages) = advance_queue T A (cs_tbo_queue c)
      in enqueue_decision (init_with_msg_log (cs_node_id c) sequence_no view messages)
           (c\<lparr>cs_tbo_queue := tbo_queue\<rparr>))"

lemma take_from_tbo_simps [simp]:
  "cs_watermark (take_from_tbo T A v s c) = cs_watermark c" "cs_node_id (take_from_tbo T A v s c) = cs_node_id c"
  "cs_seq_no (take_from_tbo T A v s c) = cs_seq_no c" "cs_curr_view (take_from_tbo T A v s c) = cs_curr_view c"
  "cs_decisions (take_from_tbo T A v s c) =
     cs_decisions c @ [init_with_msg_log (cs_node_id c) s v (snd (advance_queue T A (cs_tbo_queue c)))]"
  "cs_signalled (take_from_tbo T A v s c) = push_signalled s (cs_signalled c)"
  "cs_tbo_queue (take_from_tbo T A v s c) = fst (advance_queue T A (cs_tbo_queue c))"
  "cs_view_queue (take_from_tbo T A v s c) = cs_view_queue c"
  "cs_consensus_guard (take_from_tbo T A v s c) = cs_consensus_guard c"
  "cs_is_recovering (take_from_tbo T A v s c) = cs_is_recovering c"
  by (simp_all add: take_from_tbo_def init_with_msg_log_def split: prod.split)

function refill_until :: "'o pbft_tbo \<Rightarrow> atlas \<Rightarrow> ViewInfo \<Rightarrow> SeqNo \<Rightarrow> SeqNo \<Rightarrow> 'o Consensus
    \<Rightarrow> SeqNo \<times> 'o Consensus" where
  "refill_until T A view novel_seq_no sequence_no c =
     (if tq_curr_seq (cs_tbo_queue c) < novel_seq_no \<and> length (cs_decisions c) < cs_watermark c
      then refill_until T A view novel_seq_no (add_seq A sequence_no (ONE A))
             (take_from_tbo T A view sequence_no c)
      else (sequence_no, c))"
  by pat_completeness auto
termination
  by (relation "measure (\<lambda>(T, A, v, n, s, c). cs_watermark c - length (cs_decisions c))") auto

function refill :: "'o pbft_tbo \<Rightarrow> atlas \<Rightarrow> ViewInfo \<Rightarrow> SeqNo \<Rightarrow> 'o Consensus \<Rightarrow> 'o Consensus" where
  "refill T A view sequence_no c =
     (if length (cs_decisions c) < cs_watermark c
      then refill T A view (add_seq A sequence_no (ONE A)) (take_from_tbo T A view sequence_no c)
      else c)"
  by pat_completeness auto
termination
  by (relation "measure (\<lambda>(T, A, v, s, c). cs_watermark c - length (cs_decisions c))") auto

declare refill_until.simps [simp del] refill.simps [simp del]

definition install_behind :: "atlas \<Rightarrow> SeqNo \<Rightarrow> ViewInfo \<Rightarrow> 'o Consensus \<Rightarrow> 'o Consensus" where
  \<comment> \<open>arm \<open>Left\<close>\<close>
  "install_behind A novel_seq_no view c =
     (let c = fill_decisions A view novel_seq_no (clear_all_queues c)
      in c\<lparr>cs_tbo_queue := (cs_tbo_queue c)\<lparr>tq_curr_seq := novel_seq_no\<rparr>, cs_seq_no := novel_seq_no\<rparr>)"

definition install_beyond :: "'o pbft_tbo \<Rightarrow> atlas \<Rightarrow> SeqNo \<Rightarrow> ViewInfo \<Rightarrow> nat \<Rightarrow> 'o Consensus \<Rightarrow> 'o Consensus" where
  \<comment> \<open>arm \<open>Right(limit)\<close> with the number past the window\<close>
  "install_beyond T A novel_seq_no view limit c =
     (let c = c\<lparr>cs_decisions := [], cs_signalled := Signals_clear (cs_signalled c),
                cs_consensus_guard := guard_clear (cs_consensus_guard c)\<rparr>;
          overflow = usize_sub limit (cs_watermark c);
          tbo_queue =
            (if length (tq_pre_prepares (cs_tbo_queue c)) \<le> overflow
             then (tq_clear (cs_tbo_queue c))\<lparr>tq_curr_seq := novel_seq_no\<rparr>
             else (next_instance_queue T A ^^ overflow) (cs_tbo_queue c));
          (sequence_no, c) = refill_until T A view novel_seq_no novel_seq_no (c\<lparr>cs_tbo_queue := tbo_queue\<rparr>)
      in (fill_decisions A view sequence_no c)\<lparr>cs_seq_no := novel_seq_no\<rparr>)"

definition install_within :: "'o pbft_tbo \<Rightarrow> atlas \<Rightarrow> SeqNo \<Rightarrow> ViewInfo \<Rightarrow> nat \<Rightarrow> 'o Consensus
    \<Rightarrow> ('o Consensus, 'e) res" where
  \<comment> \<open>arm \<open>Right(limit)\<close> with the number inside the window\<close>
  "install_within T A novel_seq_no view limit c =
     (let c = c\<lparr>cs_decisions := drop limit (cs_decisions c)\<rparr> in
      if cs_decisions c = [] then Panic
      else
        let sequence_no = next_seq A (dn_seq (last (cs_decisions c)))
        in Ok ((refill T A view sequence_no c)\<lparr>cs_seq_no := novel_seq_no\<rparr>))"

definition install_sequence_number :: "'o pbft_tbo \<Rightarrow> atlas \<Rightarrow> SeqNo \<Rightarrow> ViewInfo \<Rightarrow> 'o Consensus
    \<Rightarrow> ('o Consensus, unit) res" where
  "install_sequence_number T A novel_seq_no view c =
     res_bind
       (case index_seq A novel_seq_no (cs_seq_no c) of
          Inl _ \<Rightarrow> Ok (install_behind A novel_seq_no view c)
        | Inr limit \<Rightarrow>
            if limit = 0 then Ok c
            else if length (cs_decisions c) \<le> limit
            then Ok (install_beyond T A novel_seq_no view limit c)
            else install_within T A novel_seq_no view limit c)
       (\<lambda>c.
          let c = c\<lparr>cs_consensus_guard := install_seq_no novel_seq_no (cs_consensus_guard c),
                    cs_tbo_queue := tq_signal (cs_tbo_queue c)\<rparr> in
          if tq_curr_seq (cs_tbo_queue c) \<noteq> cs_seq_no c then Panic
          else
            (case cs_decisions c of
               [] \<Rightarrow> Panic
             | front # _ \<Rightarrow> if dn_seq front \<noteq> cs_seq_no c then Panic else Ok c))"

definition catch_up_to_quorum :: "'o pbft_tbo \<Rightarrow> atlas \<Rightarrow> ViewInfo \<Rightarrow> 'o Proof \<Rightarrow> 'o Log \<Rightarrow> 'o Consensus
    \<Rightarrow> 'o Consensus \<times> 'o Log \<times> 'o effect list \<times> ('o FeDecision, LogError) res" where
  "catch_up_to_quorum T A view p log c =
     (case install_proof A p log of
        (log, Ok to_execute) \<Rightarrow>
          (case next_instance T A view c of
             Ok (c, es, _) \<Rightarrow> (c, log, es, Ok to_execute)
           | Err e \<Rightarrow> (c, log, [], Err e)
           | Panic \<Rightarrow> (c, log, [], Panic))
      | (log, Err e) \<Rightarrow> (c, log, [], Err e)
      | (log, Panic) \<Rightarrow> (c, log, [], Panic))"

definition forge_propose ::
    "nat \<Rightarrow> 'o Request StoredMessage list \<Rightarrow> ViewInfo \<Rightarrow> 'o Consensus \<Rightarrow> 'o PBFTMessage" where
  "forge_propose nonce requests view c =
     ConsensusMsg (ConsensusMessage_new nonce (cs_seq_no c) (vi_seq view) (PrePrepare requests))"

fun queue_all :: "'o pbft_tbo \<Rightarrow> atlas \<Rightarrow> 'o StoredConsensusMessage list \<Rightarrow> 'o Consensus
    \<Rightarrow> ('o Consensus, unit) res" where
  "queue_all T A [] c = Ok c"
| "queue_all T A (message # messages) c = res_bind (cs_queue T A message c) (queue_all T A messages)"

definition cs_install_view :: "'o pbft_tbo \<Rightarrow> atlas \<Rightarrow> ViewInfo \<Rightarrow> 'o Consensus \<Rightarrow> ('o Consensus, unit) res" where
  "cs_install_view T A view c =
     (case index_seq A (vi_seq view) (vi_seq (cs_curr_view c)) of
        Inl _ \<Rightarrow> Ok c
      | Inr view_index \<Rightarrow>
          if view_index = 0 then Ok c
          else
            let c = c\<lparr>cs_curr_view := view,
                      cs_consensus_guard := guard_install_view view (cs_consensus_guard c)\<rparr>;
                c = clear_all_queues c;
                c = fill_decisions A view (cs_seq_no c) c;
                view_queue = drop (view_index - 1) (cs_view_queue c)
            in case view_queue of
                 [] \<Rightarrow> Ok (c\<lparr>cs_view_queue := []\<rparr>)
               | messages # rest \<Rightarrow> queue_all T A messages (c\<lparr>cs_view_queue := rest\<rparr>))"

definition finalize_view_change :: "'o pbft_tbo \<Rightarrow> atlas \<Rightarrow> SynchronizerRole \<Rightarrow> nat \<times> nat
    \<Rightarrow> Header \<times> 'o ConsensusMessage \<Rightarrow> ViewInfo \<Rightarrow> ViewInfo \<Rightarrow> 'o Consensus \<Rightarrow> 'o consensus_result" where
  \<comment> \<open>\<open>sync_view\<close> is the view of the synchronizer the votes are checked against\<close>
  "finalize_view_change T A role nonces hm new_view sync_view c =
     (case cs_install_view T A new_view c of
        Ok c \<Rightarrow>
          let (header, message) = hm;
              c = (case cm_kind message of
                     PrePrepare reqs \<Rightarrow>
                       c\<lparr>cs_consensus_guard :=
                          install_sync_message_requests (map (rq_info A) reqs) (cs_consensus_guard c)\<rparr>
                   | _ \<Rightarrow> c)
          in if cs_decisions c = [] then (c, [], Panic)
             else
               let c = c\<lparr>cs_decisions := (cs_decisions c)[0 := skip_init_phase (cs_decisions c ! 0)]\<rparr>
               in (case cs_process_message T A role nonces sync_view
                          (StoredMessage header (ConsensusMsg message)) c of
                     (c, es, Ok result) \<Rightarrow>
                       (c\<lparr>cs_consensus_guard := unlock_consensus (cs_consensus_guard c)\<rparr>, es, Ok result)
                   | (c, es, Err e) \<Rightarrow> (c, es, Err e)
                   | (c, es, Panic) \<Rightarrow> (c, es, Panic))
      | _ \<Rightarrow> (c, [], Panic))"

definition collect_incomplete_proof :: "nat \<Rightarrow> 'o Consensus \<Rightarrow> (IncompleteProof, 'e) res" where
  "collect_incomplete_proof f c =
     (case cs_decisions c of decision # _ \<Rightarrow> dn_deciding f decision | [] \<Rightarrow> Panic)"

end
