(* ===== verification/ConsensusWindow.thy ===== *)
theory ConsensusWindow
  imports ConsensusHandler
begin

text \<open>
  The invariant of the consensus handler and what follows from it.

  Sequence numbers wrap around. The theorems of this theory are about a handler whose window
  stays below a bound \<open>M\<close> under which \<open>next\<close>, \<open>+\<close> and \<open>index\<close> are the arithmetic of the
  naturals (\<open>seq_linear\<close>); messages may carry any sequence number.
\<close>

subsection \<open>Documented behaviour of the queues and of sequence numbers\<close>

text \<open>
  A queue of queues holds at position \<open>i\<close> the messages that are \<open>i\<close> past its base; positions
  that were never written are empty. Queueing appends at the index of the message or drops a
  message of the past; advancing removes the first position and can return it.
\<close>

definition slot :: "'m list list \<Rightarrow> nat \<Rightarrow> 'm list" where
  "slot q i = (if i < length q then q ! i else [])"

definition tbo_laws :: "'m tbo \<Rightarrow> atlas \<Rightarrow> bool" where
  "tbo_laws T A \<longleftrightarrow>
     (\<forall>base q seq m j. slot (tbo_queue_message_arc T base q (seq, m)) j =
        (if index_seq A seq base = Inr j then slot q j @ [m] else slot q j)) \<and>
     (\<forall>q j. slot (tbo_advance_message_queue T q) j = slot q (Suc j)) \<and>
     (\<forall>q j. slot (fst (tbo_advance_message_queue_return T q)) j = slot q (Suc j)) \<and>
     (\<forall>q. case_option [] id (snd (tbo_advance_message_queue_return T q)) = slot q 0)"

definition seq_linear :: "atlas \<Rightarrow> nat \<Rightarrow> bool" where
  "seq_linear A M \<longleftrightarrow>
     (\<forall>s. Suc s < M \<longrightarrow> next_seq A s = Suc s) \<and>
     (\<forall>s k. s + k < M \<longrightarrow> add_seq A s (seq_of_u32 A k) = s + k) \<and>
     (\<forall>a b i. a < M \<longrightarrow> b < M \<longrightarrow> index_seq A a b = Inr i \<longrightarrow> a = b + i)"

lemma seq_linearD:
  assumes "seq_linear A M"
  shows "Suc s < M \<Longrightarrow> next_seq A s = Suc s" "s + k < M \<Longrightarrow> add_seq A s (seq_of_u32 A k) = s + k"
    "a < M \<Longrightarrow> b < M \<Longrightarrow> index_seq A a b = Inr i \<Longrightarrow> a = b + i"
  using assms unfolding seq_linear_def by blast+

lemma seq_at_linear: "seq_linear A M \<Longrightarrow> s + i < M \<Longrightarrow> seq_at A s i = s + i"
  by (induction i) (simp_all add: seq_linearD(1))

lemma index_linear:
  assumes "seq_linear A M" and "seq_laws A W" and "b + W < M"
  shows "index_seq A a b = Inr i \<Longrightarrow> i < W \<Longrightarrow> a = b + i"
    and "a < b + W \<Longrightarrow> b \<le> a \<Longrightarrow> index_seq A a b = Inr (a - b)"
    and "a < b \<Longrightarrow> index_seq A a b = Inl ()"
proof -
  show "a = b + i" if "index_seq A a b = Inr i" "i < W"
    using index_seq_exact [OF assms(2) that(1)] seq_at_linear [OF assms(1), of b i] that(2) assms(3) by simp
  show "index_seq A a b = Inr (a - b)" if "a < b + W" "b \<le> a"
    using index_seq_window [OF assms(2), of "a - b" b] seq_at_linear [OF assms(1), of b "a - b"] that assms(3)
    by simp
  show "index_seq A a b = Inl ()" if "a < b"
  proof (cases "index_seq A a b")
    case (Inr i)
    have "a < M" "b < M" using that assms(3) by simp_all
    then have "a = b + i" by (rule seq_linearD(3) [OF assms(1) _ _ Inr])
    with that show ?thesis by simp
  qed simp
qed

lemma next_linear: "seq_linear A M \<Longrightarrow> Suc s < M \<Longrightarrow> next_seq A s = Suc s"
  by (rule seq_linearD(1))

lemma base_linear: "seq_linear A M \<Longrightarrow> tq_curr_seq q + tq_watermark q < M \<Longrightarrow>
    base_seq A q = tq_curr_seq q + tq_watermark q"
  by (simp add: seq_linearD(2) base_seq_def)

lemma tbo_queue_slot: "tbo_laws T A \<Longrightarrow>
    slot (tbo_queue_message_arc T base q (seq, m)) j =
    (if index_seq A seq base = Inr j then slot q j @ [m] else slot q j)"
  unfolding tbo_laws_def by blast

lemma tbo_advance_slot: "tbo_laws T A \<Longrightarrow> slot (tbo_advance_message_queue T q) j = slot q (Suc j)"
  unfolding tbo_laws_def by blast

lemma tbo_return_slot: "tbo_laws T A \<Longrightarrow> slot (fst (tbo_advance_message_queue_return T q)) j = slot q (Suc j)"
  unfolding tbo_laws_def by blast

lemma tbo_return_head: "tbo_laws T A \<Longrightarrow>
    case_option [] id (snd (tbo_advance_message_queue_return T q)) = slot q 0"
  unfolding tbo_laws_def by blast

definition put_slot :: "nat \<Rightarrow> 'm \<Rightarrow> 'm list list \<Rightarrow> 'm list list" where
  "put_slot i m q = (let q = q @ replicate (Suc i - length q) [] in q[i := q ! i @ [m]])"

definition sample_tbo :: "'m tbo" where
  "sample_tbo = \<lparr>
     tbo_queue_message_arc = (\<lambda>base q (seq, m). if base \<le> seq then put_slot (seq - base) m q else q),
     tbo_advance_message_queue = (\<lambda>q. drop 1 q),
     tbo_advance_message_queue_return =
       (\<lambda>q. (drop 1 q, case q of [] \<Rightarrow> None | x # _ \<Rightarrow> Some x))\<rparr>"

lemma slot_extend [simp]: "slot (q @ replicate n []) j = slot q j"
  by (auto simp: slot_def nth_append)

lemma slot_update: "i < length q \<Longrightarrow> slot (q[i := x]) j = (if j = i then x else slot q j)"
  by (auto simp: slot_def)

lemma slot_drop1 [simp]: "slot (drop 1 q) j = slot q (Suc j)"
  by (cases q) (auto simp: slot_def)

lemma slot_put_slot: "slot (put_slot i m q) j = (if j = i then slot q j @ [m] else slot q j)"
proof -
  let ?q = "q @ replicate (Suc i - length q) []"
  have l: "i < length ?q" by simp
  then have "?q ! i = slot ?q i" by (simp only: slot_def if_True)
  then show ?thesis unfolding put_slot_def Let_def slot_update [OF l] by (simp only: slot_extend) simp
qed

lemma sample_tbo_laws: "tbo_laws sample_tbo sample_atlas"
proof -
  have q: "slot (tbo_queue_message_arc sample_tbo base q (seq, m)) j =
      (if index_seq sample_atlas seq base = Inr j then slot q j @ [m] else slot q j)"
    for base seq j and q :: "'m list list" and m
    by (auto simp: sample_tbo_def slot_put_slot)
  have r: "case_option [] id (snd (tbo_advance_message_queue_return sample_tbo q)) = slot q 0"
    for q :: "'m list list"
    by (simp add: sample_tbo_def slot_def split: list.splits)
  have a: "slot (tbo_advance_message_queue sample_tbo q) j = slot q (Suc j)"
    "slot (fst (tbo_advance_message_queue_return sample_tbo q)) j = slot q (Suc j)"
    for q :: "'m list list" and j
    using slot_drop1 [of q j] by (simp_all add: sample_tbo_def)
  show ?thesis unfolding tbo_laws_def using q r a by (intro conjI allI)
qed

lemma sample_seq_linear: "seq_linear sample_atlas M"
proof -
  have "a = b + i" if "index_seq sample_atlas a b = Inr i" for a b i
    using that by (cases "b \<le> a") auto
  then show ?thesis unfolding seq_linear_def by (intro conjI allI impI) simp_all
qed

subsection \<open>The queue of later instances\<close>

abbreviation seq_of :: "atlas \<Rightarrow> 'o StoredConsensusMessage \<Rightarrow> SeqNo" where
  "seq_of A m \<equiv> PBFTMessage_sequence_number A (msg m)"

text \<open>Every queued message is of the kind of its queue and of the instance of its position.\<close>

definition slots_of :: "('o StoredConsensusMessage \<Rightarrow> bool) \<Rightarrow> atlas \<Rightarrow> SeqNo
    \<Rightarrow> 'o StoredConsensusMessage list list \<Rightarrow> bool" where
  "slots_of P A base q \<longleftrightarrow> (\<forall>j. list_all (\<lambda>m. P m \<and> seq_of A m = seq_at A base j) (slot q j))"

definition tq_ok :: "atlas \<Rightarrow> 'o TboQueue \<Rightarrow> bool" where
  "tq_ok A q \<longleftrightarrow> slots_of is_pre_prepare_msg A (base_seq A q) (tq_pre_prepares q) \<and>
     slots_of is_prepare_msg A (base_seq A q) (tq_prepares q) \<and>
     slots_of is_commit_msg A (base_seq A q) (tq_commits q)"

definition mq_seq :: "atlas \<Rightarrow> SeqNo \<Rightarrow> 'o MessageQueue \<Rightarrow> bool" where
  "mq_seq A s q \<longleftrightarrow>
     list_all (\<lambda>m. seq_of A m = s) (mq_pre_prepares q @ mq_prepares q @ mq_commits q)"

lemma slot_Nil [simp]: "slot [] j = []"
  by (simp add: slot_def)

lemma tq_ok_empty: "tq_pre_prepares q = [] \<Longrightarrow> tq_prepares q = [] \<Longrightarrow> tq_commits q = [] \<Longrightarrow> tq_ok A q"
  by (simp add: tq_ok_def slots_of_def)

lemma slots_of_queue:
  assumes "slots_of P A base q" and "tbo_laws T A" and "seq_laws A W" and "P m"
  shows "slots_of P A base (tbo_queue_message_arc T base q (seq_of A m, m))"
proof -
  have "list_all (\<lambda>m. P m \<and> seq_of A m = seq_at A base j) (slot q j)" for j
    using assms(1) by (simp add: slots_of_def)
  moreover have "seq_of A m = seq_at A base j" if "index_seq A (seq_of A m) base = Inr j" for j
    using index_seq_exact [OF assms(3) that] .
  ultimately have "list_all (\<lambda>m. P m \<and> seq_of A m = seq_at A base j)
      (slot (tbo_queue_message_arc T base q (seq_of A m, m)) j)" for j
    unfolding tbo_queue_slot [OF assms(2)] using assms(4)
    by (cases "index_seq A (seq_of A m) base = Inr j") simp_all
  then show ?thesis by (simp add: slots_of_def)
qed

lemma slots_of_shift:
  assumes "slots_of P A base q" and "\<And>j. slot q' j = slot q (Suc j)"
  shows "slots_of P A (next_seq A base) q'"
proof -
  have "seq_at A (next_seq A base) j = seq_at A base (Suc j)" for j by (simp add: funpow_swap1)
  then show ?thesis using assms by (simp only: slots_of_def) blast
qed

lemma is_consensusE:
  assumes "is_consensus (msg m)"
  obtains c where "msg m = ConsensusMsg c"
  using assms by (cases "msg m") (simp_all add: is_consensus_def)

lemma tq_queue_ok:
  assumes "tq_ok A q" and "tbo_laws T A" and "seq_laws A W" and "is_consensus (msg m)"
  shows "\<exists>q'. tq_queue T A m q = Ok q' \<and> tq_ok A q' \<and> tq_curr_seq q' = tq_curr_seq q \<and>
    tq_watermark q' = tq_watermark q"
proof -
  obtain c where c: "msg m = ConsensusMsg c" using assms(4) by (rule is_consensusE)
  have b: "base_seq A (q\<lparr>tq_pre_prepares := x\<rparr>) = base_seq A q" "base_seq A (q\<lparr>tq_prepares := x\<rparr>) = base_seq A q"
    "base_seq A (q\<lparr>tq_commits := x\<rparr>) = base_seq A q" for x
    by (simp_all add: base_seq_def)
  have k: "cm_kind c = PrePrepare x \<Longrightarrow> is_pre_prepare_msg m" "cm_kind c = Prepare y \<Longrightarrow> is_prepare_msg m"
    "cm_kind c = Commit z \<Longrightarrow> is_commit_msg m" for x y z
    by (simp_all add: is_pre_prepare_msg_def is_prepare_msg_def is_commit_msg_def c)
  show ?thesis
    using assms(1) k slots_of_queue [OF _ assms(2,3), of _ _ _ m]
    by (cases "cm_kind c")
      (simp_all add: tq_queue_def c tq_ok_def b tq_queue_pre_prepare_def tq_queue_prepare_def
        tq_queue_commit_def)
qed

lemma advance_queue_parts:
  "tq_curr_seq (fst (advance_queue T A q)) = next_seq A (tq_curr_seq q)"
  "tq_watermark (fst (advance_queue T A q)) = tq_watermark q"
  "tq_pre_prepares (fst (advance_queue T A q)) = fst (tbo_advance_message_queue_return T (tq_pre_prepares q))"
  "tq_prepares (fst (advance_queue T A q)) = fst (tbo_advance_message_queue_return T (tq_prepares q))"
  "tq_commits (fst (advance_queue T A q)) = fst (tbo_advance_message_queue_return T (tq_commits q))"
  "snd (advance_queue T A q) = from_messages
     (case_option [] id (snd (tbo_advance_message_queue_return T (tq_pre_prepares q))))
     (case_option [] id (snd (tbo_advance_message_queue_return T (tq_prepares q))))
     (case_option [] id (snd (tbo_advance_message_queue_return T (tq_commits q))))"
  by (simp_all add: advance_queue_def Let_def split: prod.split)

text \<open>
  The position of an advancing queue: its current number moves on by one, and with it the base.
\<close>

definition tq_room :: "nat \<Rightarrow> 'o TboQueue \<Rightarrow> bool" where
  "tq_room M q \<longleftrightarrow> Suc (tq_curr_seq q + tq_watermark q) < M"

lemma base_advance:
  assumes "seq_linear A M" and "tq_room M q" and "tq_curr_seq q' = next_seq A (tq_curr_seq q)"
    and "tq_watermark q' = tq_watermark q"
  shows "tq_curr_seq q' = Suc (tq_curr_seq q)" and "base_seq A q' = next_seq A (base_seq A q)"
proof -
  show s: "tq_curr_seq q' = Suc (tq_curr_seq q)"
    using assms next_linear [OF assms(1), of "tq_curr_seq q"] by (simp add: tq_room_def)
  show "base_seq A q' = next_seq A (base_seq A q)"
    using base_linear [OF assms(1), of q] base_linear [OF assms(1), of q'] s assms(2,4)
      next_linear [OF assms(1), of "tq_curr_seq q + tq_watermark q"]
    by (simp add: tq_room_def)
qed

lemma advance_queue_ok:
  assumes "tq_ok A q" and "tbo_laws T A" and "seq_linear A M" and "tq_room M q"
  shows "tq_ok A (fst (advance_queue T A q))"
    and "tq_curr_seq (fst (advance_queue T A q)) = Suc (tq_curr_seq q)"
    and "tq_watermark (fst (advance_queue T A q)) = tq_watermark q"
    and "mq_ok (snd (advance_queue T A q))"
    and "mq_seq A (tq_curr_seq q + tq_watermark q) (snd (advance_queue T A q))"
    and "snd (advance_queue T A q) = from_messages (slot (tq_pre_prepares q) 0)
      (slot (tq_prepares q) 0) (slot (tq_commits q) 0)"
proof -
  note adv = base_advance [OF assms(3,4) advance_queue_parts(1,2)]
  show "tq_ok A (fst (advance_queue T A q))"
    using assms(1) unfolding tq_ok_def adv(2) advance_queue_parts(3-5)
    using slots_of_shift tbo_return_slot [OF assms(2)] by metis
  show "tq_curr_seq (fst (advance_queue T A q)) = Suc (tq_curr_seq q)" by (rule adv(1))
  show "tq_watermark (fst (advance_queue T A q)) = tq_watermark q" by (rule advance_queue_parts)
  have h: "snd (advance_queue T A q) = from_messages (slot (tq_pre_prepares q) 0)
      (slot (tq_prepares q) 0) (slot (tq_commits q) 0)"
    by (simp only: advance_queue_parts tbo_return_head [OF assms(2)])
  then show "snd (advance_queue T A q) = from_messages (slot (tq_pre_prepares q) 0)
      (slot (tq_prepares q) 0) (slot (tq_commits q) 0)" .
  have b: "base_seq A q = tq_curr_seq q + tq_watermark q"
    using base_linear [OF assms(3), of q] assms(4) by (simp add: tq_room_def)
  note z = assms(1) [unfolded tq_ok_def slots_of_def, THEN conjunct1, rule_format, of 0]
    assms(1) [unfolded tq_ok_def slots_of_def, THEN conjunct2, THEN conjunct1, rule_format, of 0]
    assms(1) [unfolded tq_ok_def slots_of_def, THEN conjunct2, THEN conjunct2, rule_format, of 0]
  from z show "mq_ok (snd (advance_queue T A q))"
    unfolding h by (simp add: mq_ok_def from_messages_def list_all_iff)
  from z b show "mq_seq A (tq_curr_seq q + tq_watermark q) (snd (advance_queue T A q))"
    unfolding h by (auto simp: mq_seq_def from_messages_def list_all_iff)
qed

lemma next_instance_queue_ok:
  assumes "tq_ok A q" and "tbo_laws T A" and "seq_linear A M" and "tq_room M q"
  shows "tq_ok A (next_instance_queue T A q) \<and>
    tq_curr_seq (next_instance_queue T A q) = Suc (tq_curr_seq q) \<and>
    tq_watermark (next_instance_queue T A q) = tq_watermark q"
proof -
  have adv: "tq_curr_seq (next_instance_queue T A q) = next_seq A (tq_curr_seq q)"
    "tq_watermark (next_instance_queue T A q) = tq_watermark q"
    by (simp_all add: next_instance_queue_def)
  note n = base_advance [OF assms(3,4) adv]
  have "slots_of P A (next_seq A base) (tbo_advance_message_queue T x)" if "slots_of P A base x" for P base x
    using slots_of_shift [OF that tbo_advance_slot [OF assms(2)]] .
  moreover have "tq_pre_prepares (next_instance_queue T A q) = tbo_advance_message_queue T (tq_pre_prepares q)"
    "tq_prepares (next_instance_queue T A q) = tbo_advance_message_queue T (tq_prepares q)"
    "tq_commits (next_instance_queue T A q) = tbo_advance_message_queue T (tq_commits q)"
    by (simp_all add: next_instance_queue_def)
  ultimately have "tq_ok A (next_instance_queue T A q)" using assms(1) by (simp add: tq_ok_def n(2))
  with n(1) adv(2) show ?thesis by simp
qed

subsection \<open>One instance of the window\<close>

text \<open>
  The messages an instance can take from its queue in its phase, and whether it still has
  something to do when it is polled.
\<close>

definition pending :: "'o ConsensusDecision \<Rightarrow> 'o StoredConsensusMessage list" where
  "pending d =
     (case dn_phase d of
        Initialize \<Rightarrow> mq_pre_prepares (dn_message_queue d)
      | PrePreparing _ \<Rightarrow> mq_pre_prepares (dn_message_queue d)
      | Preparing _ \<Rightarrow> mq_prepares (dn_message_queue d)
      | Committing _ \<Rightarrow> mq_commits (dn_message_queue d)
      | DecisionPhase.Decided \<Rightarrow> [])"

definition awake :: "'o ConsensusDecision \<Rightarrow> bool" where
  "awake d \<longleftrightarrow> dn_phase d = Initialize \<or> pending d \<noteq> []"

definition inst_ok :: "atlas \<Rightarrow> ViewInfo \<Rightarrow> 'o ConsensusDecision \<Rightarrow> bool" where
  "inst_ok A v d \<longleftrightarrow> dn_inv A v d \<and> mq_seq A (dn_seq d) (dn_message_queue d) \<and>
     (pending d = [] \<or> mq_get_queue (dn_message_queue d))"

lemma inst_ok_init:
  assumes "wf_view v" and "distinct (vi_leader_set v)" and "mq_ok q" and "mq_seq A s q"
    and "mq_pre_prepares q = [] \<or> mq_get_queue q"
  shows "inst_ok A v (init_with_msg_log node s v q)"
  using dn_inv_init [OF assms(1-3)] assms(4,5)
  by (simp add: inst_ok_def pending_def init_with_msg_log_def)

lemma inst_ok_fresh:
  "wf_view v \<Longrightarrow> distinct (vi_leader_set v) \<Longrightarrow> inst_ok A v (init_decision node s v)"
  unfolding init_decision_eq
  by (rule inst_ok_init) (simp_all add: MessageQueue_new_def mq_ok_def mq_seq_def)

lemma dn_queue_inst:
  assumes "inst_ok A v d" and "is_consensus (msg m)" and "seq_of A m = dn_seq d"
  shows "\<exists>d'. dn_queue m d = (Ok d' :: (_, 'e) res) \<and> inst_ok A v d' \<and> dn_seq d' = dn_seq d"
proof -
  obtain c where c: "msg m = ConsensusMsg c" using assms(2) by (rule is_consensusE)
  then obtain d' where d': "dn_queue m d = (Ok d' :: (_, 'e) res)" by (simp add: dn_queue_def)
  have "mq_get_queue (dn_message_queue d') \<and> mq_seq A (dn_seq d) (dn_message_queue d') \<and> dn_seq d' = dn_seq d"
    using d' assms(1,3) c
    by (cases "cm_kind c")
      (auto simp: dn_queue_def inst_ok_def mq_seq_def queue_pre_prepare_def queue_prepare_def
        queue_commit_def mq_signal_def)
  with d' show ?thesis using dn_queue_inv [OF _ d'] assms(1) by (simp add: inst_ok_def)
qed

lemma dn_poll_queue:
  "mq_seq A s (dn_message_queue d) \<Longrightarrow> mq_seq A s (dn_message_queue (fst (dn_poll d)))"
  by (cases "dn_phase d") (auto simp: dn_poll_def Let_def mq_seq_def split: list.split)

lemma dn_poll_awake:
  assumes "inst_ok A v d" and "dn_poll d = (d', st)"
  shows "inst_ok A v d'" and "dn_seq d' = dn_seq d"
    and "st = DecisionPollStatus.Recv \<or> st = DecisionPollStatus.Decided \<Longrightarrow> \<not> awake d'"
    and "st = DecisionPollStatus.NextMessage m \<Longrightarrow> seq_of A m = dn_seq d \<and> is_consensus (msg m)"
proof -
  have "pending d' = [] \<or> mq_get_queue (dn_message_queue d')"
    using assms by (cases "dn_phase d")
      (auto simp: inst_ok_def dn_poll_def Let_def pending_def split: if_splits list.splits)
  then show "inst_ok A v d'"
    using assms dn_poll_inv [of A v d] dn_poll_queue [of A "dn_seq d" d] dn_poll_keeps [of d]
    by (simp add: inst_ok_def)
  show "dn_seq d' = dn_seq d" using dn_poll_keeps [of d] assms(2) by simp
  show "\<not> awake d'" if "st = DecisionPollStatus.Recv \<or> st = DecisionPollStatus.Decided"
    using assms that by (cases "dn_phase d")
      (auto simp: inst_ok_def dn_poll_def Let_def pending_def awake_def split: if_splits list.splits)
  show "seq_of A m = dn_seq d \<and> is_consensus (msg m)" if "st = DecisionPollStatus.NextMessage m"
  proof -
    have "m \<in> set (mq_pre_prepares (dn_message_queue d)) \<union> set (mq_prepares (dn_message_queue d)) \<union>
        set (mq_commits (dn_message_queue d))"
      using assms(2) that by (cases "dn_phase d") (auto simp: dn_poll_def Let_def split: if_splits list.splits)
    moreover have "mq_ok (dn_message_queue d)" using assms(1) by (simp add: inst_ok_def dn_inv_def Let_def)
    moreover have "is_consensus (msg m)" if "is_pre_prepare_msg m \<or> is_prepare_msg m \<or> is_commit_msg m"
      using that by (cases "msg m")
        (auto simp: is_consensus_def is_pre_prepare_msg_def is_prepare_msg_def is_commit_msg_def)
    ultimately show ?thesis
      using assms(1) by (auto simp: inst_ok_def mq_seq_def mq_ok_def list_all_iff)
  qed
qed

text \<open>
  What processing a message does to the queue of the instance: either nothing, and the phase
  moves on within its kind or to the end, or the instance is signalled again.
\<close>

definition stage :: "DecisionPhase \<Rightarrow> nat" where
  "stage p = (case p of Initialize \<Rightarrow> 0 | PrePreparing _ \<Rightarrow> 1 | Preparing _ \<Rightarrow> 2 | Committing _ \<Rightarrow> 3
     | DecisionPhase.Decided \<Rightarrow> 4)"

definition quiet_step :: "'o ConsensusDecision \<Rightarrow> 'o ConsensusDecision \<Rightarrow> bool" where
  "quiet_step d d' \<longleftrightarrow> dn_message_queue d' = dn_message_queue d \<and>
     (stage (dn_phase d') = stage (dn_phase d) \<or> dn_phase d' = DecisionPhase.Decided)"

definition loud_step :: "'o StoredConsensusMessage \<Rightarrow> 'o ConsensusDecision \<Rightarrow> 'o ConsensusDecision
    \<Rightarrow> ('o DecisionStatus, 'e) res \<Rightarrow> bool" where
  "loud_step m d d' r \<longleftrightarrow>
     (case r of Ok st \<Rightarrow> signals_again st | _ \<Rightarrow> False) \<and>
     dn_message_queue d' \<in> (let q = dn_message_queue d in
       {mq_signal q, queue_pre_prepare m q, queue_prepare m q, queue_commit m q})"

lemma accept_pre_prepare_queue:
  "dn_phase d = PrePreparing k \<Longrightarrow> accept_pre_prepare A role nn v m c j d = (d', es, r) \<Longrightarrow>
   quiet_step d d' \<or> loud_step m d d' r"
  by (auto simp: accept_pre_prepare_def quiet_step_def loud_step_def signals_again_def stage_def Let_def
      split: prod.splits res.splits if_splits option.splits)

lemma accept_prepare_queue:
  "dn_phase d = Preparing k \<Longrightarrow> accept_prepare A n v m j d = (d', es, r) \<Longrightarrow>
   quiet_step d d' \<or> loud_step m d d' r"
  by (auto simp: accept_prepare_def quiet_step_def loud_step_def signals_again_def stage_def Let_def
      split: prod.splits res.splits if_splits)

lemma process_committing_queue:
  "dn_phase d = Committing k \<Longrightarrow> process_committing v m c j d = (d', es, r) \<Longrightarrow> quiet_step d d'"
  by (auto simp: process_committing_def quiet_step_def stage_def
      split: ConsensusMessageKind.splits prod.splits res.splits if_splits option.splits)

lemma dn_process_queue:
  assumes "dn_process_message A role nn v m d = (d', es, r)"
  shows "quiet_step d d' \<or> loud_step m d d' r"
proof (cases "msg m")
  case (ConsensusMsg c)
  have same: "quiet_step d d" by (simp add: quiet_step_def)
  show ?thesis
  proof (cases "dn_phase d")
    case Initialize
    then show ?thesis using assms ConsensusMsg
      by (cases "cm_kind c")
        (auto simp: dn_process_message_def dn_queue_def loud_step_def signals_again_def Let_def)
  next
    case (PrePreparing k)
    then show ?thesis using assms ConsensusMsg same accept_pre_prepare_queue [OF PrePreparing]
      by (cases "cm_kind c")
        (auto simp: dn_process_message_def process_pre_preparing_def loud_step_def signals_again_def Let_def
          split: if_splits)
  next
    case (Preparing k)
    then show ?thesis using assms ConsensusMsg same accept_prepare_queue [OF Preparing]
      by (cases "cm_kind c")
        (auto simp: dn_process_message_def process_preparing_def loud_step_def signals_again_def Let_def
          split: if_splits option.splits)
  next
    case (Committing k)
    then show ?thesis using assms ConsensusMsg process_committing_queue [OF Committing]
      by (auto simp: dn_process_message_def)
  next
    case Decided
    then show ?thesis using assms ConsensusMsg same by (auto simp: dn_process_message_def)
  qed
qed (use assms in \<open>auto simp: dn_process_message_def quiet_step_def\<close>)

lemma stage_pending:
  "stage (dn_phase d') = stage (dn_phase d) \<Longrightarrow> dn_message_queue d' = dn_message_queue d \<Longrightarrow>
   pending d' = pending d \<and> awake d' = awake d"
  by (cases "dn_phase d"; cases "dn_phase d'") (simp_all add: stage_def pending_def awake_def)

lemma dn_process_inst:
  assumes "inst_ok A v d" and "0 < view_quorum v" and "is_consensus (msg m)" and "seq_of A m = dn_seq d"
    and eq: "dn_process_message A role nn v m d = (d', es, r)"
  shows "inst_ok A v d'" and "dn_seq d' = dn_seq d" and "r \<noteq> Panic"
    and "(case r of Ok st \<Rightarrow> signals_again st | _ \<Rightarrow> False) \<or> (awake d' \<longrightarrow> awake d)"
proof -
  have inv: "dn_inv A v d" using assms(1) by (simp add: inst_ok_def)
  have s: "dn_inv A v d'" "r \<noteq> Panic"
    using dn_process_step [OF inv assms(2,3), of role nn] eq by (simp_all add: step_ok_def)
  show seq: "dn_seq d' = dn_seq d" using dn_process_keeps [OF inv eq] by simp
  show "r \<noteq> Panic" by (rule s)
  from dn_process_queue [OF eq]
  have "inst_ok A v d' \<and> ((case r of Ok st \<Rightarrow> signals_again st | _ \<Rightarrow> False) \<or> (awake d' \<longrightarrow> awake d))"
  proof
    assume q: "quiet_step d d'"
    show ?thesis
    proof (cases "dn_phase d' = DecisionPhase.Decided")
      case True
      then show ?thesis using s q assms(1) seq
        by (simp add: inst_ok_def quiet_step_def pending_def awake_def)
    next
      case False
      then have "pending d' = pending d \<and> awake d' = awake d"
        using q stage_pending [of d' d] by (simp add: quiet_step_def)
      then show ?thesis using s q assms(1) seq by (simp add: inst_ok_def quiet_step_def)
    qed
  next
    assume l: "loud_step m d d' r"
    then have "mq_get_queue (dn_message_queue d') \<and> mq_seq A (dn_seq d) (dn_message_queue d')"
      using assms(1,4)
      by (auto simp: loud_step_def inst_ok_def Let_def mq_seq_def queue_pre_prepare_def queue_prepare_def
          queue_commit_def mq_signal_def)
    then show ?thesis using s seq l by (simp add: inst_ok_def loud_step_def)
  qed
  then show "inst_ok A v d'" and "(case r of Ok st \<Rightarrow> signals_again st | _ \<Rightarrow> False) \<or> (awake d' \<longrightarrow> awake d)"
    by simp_all
qed

subsection \<open>The window\<close>

text \<open>
  A window, possibly still being filled, that starts at \<open>s\<close>: consecutive instances; nothing
  past the window is signalled; and every instance that has something to do is.
\<close>

definition window_ok :: "atlas \<Rightarrow> ViewInfo \<Rightarrow> SeqNo \<Rightarrow> 'o Consensus \<Rightarrow> bool" where
  "window_ok A v s c \<longleftrightarrow>
     map dn_seq (cs_decisions c) = [s..<s + length (cs_decisions c)] \<and>
     length (cs_decisions c) \<le> cs_watermark c \<and>
     list_all (inst_ok A v) (cs_decisions c) \<and>
     signals_ok (cs_signalled c) \<and>
     (\<forall>x \<in> signaled_nos (cs_signalled c). x < s + cs_watermark c) \<and>
     list_all (\<lambda>d. awake d \<longrightarrow> dn_seq d \<in> signaled_nos (cs_signalled c)) (cs_decisions c)"

definition cs_inv :: "atlas \<Rightarrow> 'o Consensus \<Rightarrow> bool" where
  "cs_inv A c \<longleftrightarrow>
     0 < cs_watermark c \<and> wf_view (cs_curr_view c) \<and> distinct (vi_leader_set (cs_curr_view c)) \<and>
     window_ok A (cs_curr_view c) (cs_seq_no c) c \<and> length (cs_decisions c) = cs_watermark c \<and>
     tq_ok A (cs_tbo_queue c) \<and> tq_curr_seq (cs_tbo_queue c) = cs_seq_no c \<and>
     tq_watermark (cs_tbo_queue c) = cs_watermark c \<and>
     list_all (list_all (\<lambda>m. is_consensus (msg m))) (cs_view_queue c) \<and>
     guard_ok (cs_consensus_guard c) \<and> \<not> cs_is_recovering c"

lemma window_ok_cong:
  "cs_decisions c' = cs_decisions c \<Longrightarrow> cs_signalled c' = cs_signalled c \<Longrightarrow>
   cs_watermark c' = cs_watermark c \<Longrightarrow> window_ok A v s c' = window_ok A v s c"
  by (simp add: window_ok_def)

lemma window_nth_seq:
  assumes "window_ok A v s c" and "i < length (cs_decisions c)"
  shows "dn_seq (cs_decisions c ! i) = s + i"
proof -
  have "map dn_seq (cs_decisions c) ! i = [s..<s + length (cs_decisions c)] ! i"
    using assms(1) by (simp only: window_ok_def)
  with assms(2) show ?thesis by simp
qed

lemma window_inst: "window_ok A v s c \<Longrightarrow> i < length (cs_decisions c) \<Longrightarrow> inst_ok A v (cs_decisions c ! i)"
  by (simp add: window_ok_def list_all_length)

lemma window_enqueue:
  assumes "window_ok A v s c" and "length (cs_decisions c) < cs_watermark c" and "inst_ok A v d"
    and "dn_seq d = s + length (cs_decisions c)"
  shows "window_ok A v s (enqueue_decision d c)"
proof -
  note w = assms(1) [unfolded window_ok_def]
  have ok: "signals_ok (cs_signalled c)" using w by blast
  have "map dn_seq (cs_decisions c @ [d]) = [s..<s + length (cs_decisions c @ [d])]"
    using w assms(4) by simp
  moreover have "list_all (\<lambda>d. awake d \<longrightarrow> dn_seq d \<in> insert x (signaled_nos (cs_signalled c))) (cs_decisions c)" for x
    using w by (simp add: list_all_iff)
  ultimately show ?thesis
    using w assms(2-4) sig.invar_push [OF ok] by (simp add: window_ok_def sig.abs_push [OF ok])
qed

text \<open>Replacing one instance by one in the same place.\<close>

lemma window_update:
  assumes "window_ok A v s c" and "i < length (cs_decisions c)" and "inst_ok A v d" and "dn_seq d = s + i"
    and "signals_ok sigs" and "\<forall>x \<in> signaled_nos sigs. x < s + cs_watermark c"
    and "signaled_nos (cs_signalled c) - {s + i} \<subseteq> signaled_nos sigs"
    and "awake d \<longrightarrow> s + i \<in> signaled_nos sigs"
  shows "window_ok A v s (c\<lparr>cs_signalled := sigs, cs_decisions := (cs_decisions c)[i := d]\<rparr>)"
proof -
  let ?ds = "cs_decisions c"
  have seqs: "map dn_seq (?ds[i := d]) = map dn_seq ?ds"
    using assms(2,4) window_nth_seq [OF assms(1,2)] by (simp add: map_update list_update_same_conv)
  have "awake (?ds[i := d] ! j) \<longrightarrow> dn_seq (?ds[i := d] ! j) \<in> signaled_nos sigs" if j: "j < length ?ds" for j
  proof (cases "j = i")
    case True
    then show ?thesis using assms(2,4,8) by simp
  next
    case False
    have "awake (?ds ! j) \<longrightarrow> dn_seq (?ds ! j) \<in> signaled_nos (cs_signalled c)"
      using assms(1) j by (simp add: window_ok_def list_all_length)
    then show ?thesis using False assms(7) window_nth_seq [OF assms(1) j] by auto
  qed
  moreover have "list_all (inst_ok A v) (?ds[i := d])"
    using assms(1,3) by (auto simp: window_ok_def list_all_iff dest: set_update_subset_insert [THEN subsetD])
  ultimately show ?thesis
    using assms(1,5,6) unfolding window_ok_def by (simp add: seqs list_all_length)
qed

definition same_rest :: "'o Consensus \<Rightarrow> 'o Consensus \<Rightarrow> bool" where
  "same_rest c c' \<longleftrightarrow> c' = c\<lparr>cs_decisions := cs_decisions c', cs_signalled := cs_signalled c'\<rparr>"

lemma same_restD:
  assumes "same_rest c c'"
  shows "cs_watermark c' = cs_watermark c" "cs_node_id c' = cs_node_id c" "cs_seq_no c' = cs_seq_no c"
    "cs_curr_view c' = cs_curr_view c" "cs_tbo_queue c' = cs_tbo_queue c" "cs_view_queue c' = cs_view_queue c"
    "cs_consensus_guard c' = cs_consensus_guard c" "cs_is_recovering c' = cs_is_recovering c"
  by (subst assms [unfolded same_rest_def]; simp)+

lemma same_rest_refl: "same_rest c c"
  by (simp add: same_rest_def)

lemma same_rest_enqueue: "same_rest (enqueue_decision d c) c' \<Longrightarrow> same_rest c c'"
  by (simp add: same_rest_def enqueue_decision_def)

lemma fill_decisions_ok:
  assumes "window_ok A v s c" and "q = s + length (cs_decisions c)" and "s + cs_watermark c < M"
    and "wf_view v" and "distinct (vi_leader_set v)" and "seq_linear A M" and "seq_laws A W"
  shows "window_ok A v s (fill_decisions A v q c) \<and>
    length (cs_decisions (fill_decisions A v q c)) = cs_watermark c \<and> same_rest c (fill_decisions A v q c)"
  using assms
proof (induction A v q c rule: fill_decisions.induct)
  case (1 A v q c)
  let ?d = "init_decision (cs_node_id c) q v :: 'a ConsensusDecision"
  show ?case
  proof (cases "length (cs_decisions c) < cs_watermark c")
    case True
    have n: "add_seq A q (ONE A) = Suc q"
      using add_ONE [OF "1.prems"(7)] next_linear [OF "1.prems"(6), of q] "1.prems"(2,3) True by simp
    have "dn_seq ?d = s + length (cs_decisions c)" using "1.prems"(2) by (simp add: init_decision_def)
    from window_enqueue [OF "1.prems"(1) True inst_ok_fresh [OF "1.prems"(4,5)] this]
    have "window_ok A v s (enqueue_decision ?d c)" .
    from "1.IH" [OF True this] n "1.prems"
    have "window_ok A v s (fill_decisions A v (Suc q) (enqueue_decision ?d c)) \<and>
        length (cs_decisions (fill_decisions A v (Suc q) (enqueue_decision ?d c))) = cs_watermark c \<and>
        same_rest (enqueue_decision ?d c) (fill_decisions A v (Suc q) (enqueue_decision ?d c))"
      by simp
    moreover have "fill_decisions A v q c = fill_decisions A v (Suc q) (enqueue_decision ?d c)"
      by (subst fill_decisions.simps) (simp add: True n)
    ultimately show ?thesis using same_rest_enqueue by metis
  next
    case False
    then have "fill_decisions A v q c = c" by (simp add: fill_decisions.simps)
    with "1.prems"(1) False show ?thesis by (simp add: same_rest_refl window_ok_def)
  qed
qed

end
