(* ===== verification/ConsensusSafety.thy ===== *)
theory ConsensusSafety
  imports ConsensusWindow
begin

text \<open>
  Every operation of the consensus handler keeps its invariant and none of them panics: the
  indexing of \<open>decisions\<close>, the \<open>unwrap\<close>s and the two assertions of \<open>install_sequence_number\<close>
  never fail. Polling ends, and when it asks for new messages no instance has a queued message
  left that its phase can take. Batches are handed out in the order of their numbers.
\<close>

definition handler_laws :: "'o pbft_tbo \<Rightarrow> atlas \<Rightarrow> nat \<Rightarrow> nat \<Rightarrow> bool" where
  \<comment> \<open>sequence numbers have 32 bits\<close>
  "handler_laws T A W M \<longleftrightarrow> tbo_laws T A \<and> seq_laws A W \<and> seq_linear A M \<and> M \<le> 2 ^ 32"

definition room :: "nat \<Rightarrow> 'o Consensus \<Rightarrow> bool" where
  "room M c \<longleftrightarrow> cs_seq_no c + cs_watermark c < M"

lemma handler_lawsD:
  assumes "handler_laws T A W M"
  shows "tbo_laws T A" "seq_laws A W" "seq_linear A M" "M \<le> 2 ^ 32"
  using assms by (simp_all add: handler_laws_def)

lemma cs_invD:
  assumes "cs_inv A c"
  shows "window_ok A (cs_curr_view c) (cs_seq_no c) c" "length (cs_decisions c) = cs_watermark c"
    "0 < cs_watermark c" "wf_view (cs_curr_view c)" "distinct (vi_leader_set (cs_curr_view c))"
    "tq_ok A (cs_tbo_queue c)" "tq_curr_seq (cs_tbo_queue c) = cs_seq_no c"
    "tq_watermark (cs_tbo_queue c) = cs_watermark c" "guard_ok (cs_consensus_guard c)"
    "list_all (list_all (\<lambda>m. is_consensus (msg m))) (cs_view_queue c)" "\<not> cs_is_recovering c"
    "0 < view_quorum (cs_curr_view c)"
  using assms by (simp_all add: cs_inv_def wf_view_def)

lemma window_signalsD:
  assumes "window_ok A v s c"
  shows "signals_ok (cs_signalled c)" "\<forall>x \<in> signaled_nos (cs_signalled c). x < s + cs_watermark c"
  using assms by (simp_all add: window_ok_def)

lemma window_awake:
  assumes "window_ok A v s c" and "i < length (cs_decisions c)" and "awake (cs_decisions c ! i)"
  shows "s + i \<in> signaled_nos (cs_signalled c)"
proof -
  have "dn_seq (cs_decisions c ! i) \<in> signaled_nos (cs_signalled c)"
    using assms by (simp add: window_ok_def list_all_length)
  then show ?thesis using window_nth_seq [OF assms(1,2)] by simp
qed

text \<open>Changes that touch neither the window nor what the invariant says of the rest.\<close>

definition same_place :: "'o Consensus \<Rightarrow> 'o Consensus \<Rightarrow> bool" where
  "same_place c c' \<longleftrightarrow> cs_seq_no c' = cs_seq_no c \<and> cs_watermark c' = cs_watermark c \<and>
     cs_curr_view c' = cs_curr_view c \<and> cs_node_id c' = cs_node_id c"

lemma same_place_refl: "same_place c c"
  by (simp add: same_place_def)

lemma same_place_trans: "same_place a b \<Longrightarrow> same_place b c \<Longrightarrow> same_place a c"
  by (simp add: same_place_def)

subsection \<open>Construction\<close>

lemma new_replica_inv:
  assumes "seq_linear A M" and "seq_laws A W" and "s + w < M" and "0 < w" and "wf_view v"
    and "distinct (vi_leader_set v)" and "guard_ok g"
  shows "cs_inv A (Consensus_new_replica A node v s w g :: 'o Consensus)"
proof -
  let ?c = "\<lparr>cs_node_id = node, cs_watermark = w, cs_seq_no = s, cs_signalled = Signals_new,
      cs_curr_view = v, cs_decisions = [], cs_tbo_queue = TboQueue_new s w, cs_view_queue = [],
      cs_consensus_guard = g, cs_is_recovering = False\<rparr> :: 'o Consensus"
  have "window_ok A v s ?c"
    by (simp add: window_ok_def sig.invar_empty sig.abs_empty)
  from fill_decisions_ok [OF this _ _ assms(5,6,1,2)] assms(3)
  have f: "window_ok A v s (fill_decisions A v s ?c)" "length (cs_decisions (fill_decisions A v s ?c)) = w"
    "same_rest ?c (fill_decisions A v s ?c)" by simp_all
  have "tq_ok A (TboQueue_new s w :: 'o TboQueue)" by (rule tq_ok_empty) (simp_all add: TboQueue_new_def)
  with f(1,2) assms same_restD [OF f(3)] show ?thesis
    by (simp add: cs_inv_def Consensus_new_replica_def TboQueue_new_def)
qed

subsection \<open>Queueing a message\<close>

lemma put_other_view:
  assumes "list_all (list_all P) q" and "P m"
  shows "list_all (list_all P) ((q @ replicate (Suc i - length q) [])
    [i := (q @ replicate (Suc i - length q) []) ! i @ [m]])"
proof -
  let ?q = "q @ replicate (Suc i - length q) []"
  have q: "list_all (list_all P) ?q" using assms(1) by (auto simp: list_all_iff)
  moreover have "i < length ?q" by simp
  ultimately have "list_all P (?q ! i)" by (metis list_all_length)
  then have "list_all P (?q ! i @ [m])" using assms(2) by simp
  with q show ?thesis
    by (auto simp: list_all_iff dest!: set_update_subset_insert [THEN subsetD])
qed

lemma enqueue_other_view_inv:
  assumes "cs_inv A c" and "is_consensus (msg m)"
  shows "cs_inv A (enqueue_other_view_message i m c) \<and> same_place c (enqueue_other_view_message i m c)"
  using assms(1) put_other_view [OF cs_invD(10) [OF assms(1)], of m "i - 1"] assms(2)
  by (simp add: cs_inv_def enqueue_other_view_message_def Let_def same_place_def window_ok_def)

lemma tq_queue_inv:
  assumes "cs_inv A c" and "handler_laws T A W M" and "is_consensus (msg m)"
  shows "\<exists>q. tq_queue T A m (cs_tbo_queue c) = Ok q \<and> cs_inv A (c\<lparr>cs_tbo_queue := q\<rparr>)"
  using tq_queue_ok [OF cs_invD(6) [OF assms(1)] handler_lawsD(1,2) [OF assms(2)] assms(3)] assms(1)
  by (auto simp: cs_inv_def window_ok_def)

lemma swap_updates:
  "c\<lparr>cs_decisions := ds, cs_signalled := sigs\<rparr> = c\<lparr>cs_signalled := sigs, cs_decisions := ds\<rparr>"
  by (cases c) simp

lemma update_inst_inv:
  assumes "cs_inv A c" and "i < cs_watermark c" and "inst_ok A (cs_curr_view c) d"
    and "dn_seq d = cs_seq_no c + i" and "signals_ok sigs"
    and "\<forall>x \<in> signaled_nos sigs. x < cs_seq_no c + cs_watermark c"
    and "signaled_nos (cs_signalled c) - {cs_seq_no c + i} \<subseteq> signaled_nos sigs"
    and "awake d \<longrightarrow> cs_seq_no c + i \<in> signaled_nos sigs"
  shows "cs_inv A (c\<lparr>cs_signalled := sigs, cs_decisions := (cs_decisions c)[i := d]\<rparr>)"
  using window_update [OF cs_invD(1) [OF assms(1)] _ assms(3-8)] assms(1,2)
  by (simp add: cs_inv_def)

lemma push_in_window:
  assumes "cs_inv A c" and "i < cs_watermark c"
  shows "signals_ok (push_signalled (cs_seq_no c + i) (cs_signalled c))"
    and "\<forall>x \<in> signaled_nos (push_signalled (cs_seq_no c + i) (cs_signalled c)). x < cs_seq_no c + cs_watermark c"
    and "signaled_nos (cs_signalled c) - {cs_seq_no c + i} \<subseteq>
      signaled_nos (push_signalled (cs_seq_no c + i) (cs_signalled c))"
    and "cs_seq_no c + i \<in> signaled_nos (push_signalled (cs_seq_no c + i) (cs_signalled c))"
  using window_signalsD [OF cs_invD(1) [OF assms(1)]] assms(2)
  by (auto simp: sig.invar_push sig.abs_push)

lemma cs_queue_inv:
  assumes inv: "cs_inv A c" and laws: "handler_laws T A W M" and w: "cs_watermark c \<le> W"
    and room: "room M c" and m: "is_consensus (msg m)"
  shows "\<exists>c'. cs_queue T A m c = Ok c' \<and> cs_inv A c' \<and> same_place c c'"
proof -
  obtain k where k: "msg m = ConsensusMsg k" using m by (rule is_consensusE)
  show ?thesis
  proof (cases "index_seq A (cm_view k) (vi_seq (cs_curr_view c)) = Inr 0")
    case False
    then show ?thesis using inv enqueue_other_view_inv [OF inv m] same_place_refl
      by (cases "index_seq A (cm_view k) (vi_seq (cs_curr_view c))") (auto simp: cs_queue_def k Let_def)
  next
    case v: True
    show ?thesis
    proof (cases "index_seq A (seq_of A m) (cs_seq_no c)")
      case (Inl e)
      with v inv show ?thesis by (simp add: cs_queue_def k same_place_refl)
    next
      case (Inr i)
      show ?thesis
      proof (cases "cs_watermark c \<le> i")
        case True
        then show ?thesis using v Inr tq_queue_inv [OF inv laws m] cs_invD(2) [OF inv]
          by (auto simp: cs_queue_def k same_place_def)
      next
        case False
        then have i: "i < cs_watermark c" by simp
        have s: "seq_of A m = cs_seq_no c + i"
          using index_linear(1) [OF handler_lawsD(3) [OF laws]
              seq_laws_mono [OF handler_lawsD(2) [OF laws] w] _ Inr i] room by (simp add: room_def)
        have n: "i < length (cs_decisions c)" using i cs_invD(2) [OF inv] by simp
        note d = window_nth_seq [OF cs_invD(1) [OF inv] n] window_inst [OF cs_invD(1) [OF inv] n]
        obtain d' where d': "dn_queue m (cs_decisions c ! i) = (Ok d' :: (_, unit) res)"
          "inst_ok A (cs_curr_view c) d'" "dn_seq d' = cs_seq_no c + i"
          using dn_queue_inst [OF d(2) m] s d(1) by auto
        have "cs_inv A (c\<lparr>cs_signalled := push_signalled (cs_seq_no c + i) (cs_signalled c),
            cs_decisions := (cs_decisions c)[i := d']\<rparr>)"
          by (rule update_inst_inv [OF inv i d'(2,3)]) (use push_in_window [OF inv i] in simp_all)
        then show ?thesis using v Inr False n d'(1) s
          by (simp add: cs_queue_def k same_place_def swap_updates)
      qed
    qed
  qed
qed

subsection \<open>Polling\<close>

lemma with_polled_inv:
  assumes "cs_inv A c" and "pop_signalled (cs_signalled c) = Some (cs_seq_no c + i, sigs)"
    and "i < cs_watermark c" and "dn_poll (cs_decisions c ! i) = (d, st)"
  shows "st = DecisionPollStatus.Recv \<or> st = DecisionPollStatus.Decided \<Longrightarrow> cs_inv A (with_polled sigs i d c)"
    and "cs_inv A (with_polled (push_signalled (cs_seq_no c + i) sigs) i d c)"
proof -
  note w = cs_invD(1) [OF assms(1)]
  have n: "i < length (cs_decisions c)" using assms(3) cs_invD(2) [OF assms(1)] by simp
  note d = dn_poll_awake [OF window_inst [OF w n] assms(4)]
  have seq: "dn_seq d = cs_seq_no c + i" using d(2) window_nth_seq [OF w n] by simp
  note sg = sig.invar_pop [OF window_signalsD(1) [OF w] assms(2)]
    sig.abs_pop [OF window_signalsD(1) [OF w] assms(2)]
  show "cs_inv A (with_polled sigs i d c)" if "st = DecisionPollStatus.Recv \<or> st = DecisionPollStatus.Decided"
    unfolding with_polled_def
    by (rule update_inst_inv [OF assms(1,3) d(1) seq])
      (use sg d(3) [OF that] window_signalsD(2) [OF w] in auto)
  show "cs_inv A (with_polled (push_signalled (cs_seq_no c + i) sigs) i d c)"
    unfolding with_polled_def
    by (rule update_inst_inv [OF assms(1,3) d(1) seq])
      (use sg window_signalsD(2) [OF w] assms(3) in \<open>auto simp: sig.invar_push sig.abs_push\<close>)
qed

lemma offer_seq_inv: "cs_inv A c \<Longrightarrow> cs_inv A (offer_seq s c) \<and> same_place c (offer_seq s c)"
  by (auto simp: offer_seq_def cs_inv_def window_ok_def same_place_def guard_ok_ops)

lemma drop_signal_inv:
  assumes "cs_inv A c" and "pop_signalled (cs_signalled c) = Some (x, sigs)" and "x < cs_seq_no c"
  shows "cs_inv A (c\<lparr>cs_signalled := sigs\<rparr>)"
proof -
  note w = cs_invD(1) [OF assms(1)]
  note sg = sig.invar_pop [OF window_signalsD(1) [OF w] assms(2)]
    sig.abs_pop [OF window_signalsD(1) [OF w] assms(2)]
  have "cs_seq_no c \<le> dn_seq d" if "d \<in> set (cs_decisions c)" for d
    using that window_nth_seq [OF w] by (auto simp: in_set_conv_nth)
  then have "window_ok A (cs_curr_view c) (cs_seq_no c) (c\<lparr>cs_signalled := sigs\<rparr>)"
    using w sg assms(3) by (fastforce simp: window_ok_def list_all_iff)
  with assms(1) show ?thesis by (simp add: cs_inv_def)
qed

lemma quiet_window:
  assumes "cs_inv A c" and "pop_signalled (cs_signalled c) = None"
  shows "list_all (\<lambda>d. \<not> awake d) (cs_decisions c)"
proof -
  note w = cs_invD(1) [OF assms(1)]
  have "signaled_nos (cs_signalled c) = {}" using sig.pop_None [OF window_signalsD(1) [OF w]] assms(2) by simp
  with w show ?thesis by (simp add: window_ok_def list_all_iff)
qed

definition poll_ok :: "atlas \<Rightarrow> 'o Consensus \<Rightarrow> 'o Consensus \<times> ('o ConsensusPollStatus, unit) res \<Rightarrow> bool" where
  "poll_ok A c p \<longleftrightarrow>
     cs_inv A (fst p) \<and> same_place c (fst p) \<and>
     (case snd p of
        Ok (ConsensusPollStatus.NextMessage m) \<Rightarrow> is_consensus (msg m) \<and>
          cs_seq_no c \<le> seq_of A m \<and> seq_of A m < cs_seq_no c + cs_watermark c
      | Ok st \<Rightarrow> list_all (\<lambda>d. \<not> awake d) (cs_decisions (fst p)) \<and>
          st = (if can_finalize (fst p) then ConsensusPollStatus.Decided [] else ConsensusPollStatus.Recv)
      | _ \<Rightarrow> False)"

lemma poll_ok_trans: "same_place c c' \<Longrightarrow> poll_ok A c' p \<Longrightarrow> poll_ok A c p"
  by (auto simp: poll_ok_def same_place_def split: res.splits ConsensusPollStatus.splits)

lemma same_place_polled [simp]: "same_place c (with_polled sigs i d c)" "same_place c (c\<lparr>cs_signalled := sigs\<rparr>)"
  by (simp_all add: same_place_def with_polled_def)

lemma signalled_place:
  assumes "cs_inv A c" and "seq_linear A M" and "seq_laws A W" and "cs_watermark c \<le> W" and "room M c"
    and pop: "pop_signalled (cs_signalled c) = Some (x, sigs)"
  obtains (past) e where "x < cs_seq_no c" "index_seq A x (cs_seq_no c) = Inl e"
    | (window) i where "x = cs_seq_no c + i" "i < cs_watermark c" "index_seq A x (cs_seq_no c) = Inr i"
proof -
  note w = cs_invD(1) [OF assms(1)]
  note lin = index_linear [OF assms(2) seq_laws_mono [OF assms(3,4)] assms(5) [unfolded room_def]]
  have x: "x < cs_seq_no c + cs_watermark c"
    using sig.pop_in [OF window_signalsD(1) [OF w] pop] window_signalsD(2) [OF w] by blast
  show ?thesis
  proof (cases "x < cs_seq_no c")
    case True
    then show ?thesis using lin(3) past by blast
  next
    case False
    then obtain i where "x = cs_seq_no c + i" "i < cs_watermark c" using x by (metis add_less_cancel_left le_Suc_ex not_le)
    then show ?thesis using lin(2) [OF x] False window by simp
  qed
qed

lemma cs_poll_past:
  "pop_signalled (cs_signalled c) = Some (x, sigs) \<Longrightarrow> index_seq A x (cs_seq_no c) = Inl e \<Longrightarrow>
     cs_poll A c = cs_poll A (c\<lparr>cs_signalled := sigs\<rparr>)"
  by (subst cs_poll.simps) simp

lemma cs_poll_window:
  assumes "pop_signalled (cs_signalled c) = Some (x, sigs)" and "index_seq A x (cs_seq_no c) = Inr i"
    and "i < length (cs_decisions c)" and "dn_poll (cs_decisions c ! i) = (d, st)"
  shows "cs_poll A c =
    (case st of
       DecisionPollStatus.NextMessage m \<Rightarrow> (with_polled (push_signalled x sigs) i d c, Ok (ConsensusPollStatus.NextMessage m))
     | TryPropose \<Rightarrow> cs_poll A (offer_seq x (with_polled (push_signalled x sigs) i d c))
     | _ \<Rightarrow> cs_poll A (with_polled sigs i d c))"
  using assms by (subst cs_poll.simps) (simp split: DecisionPollStatus.split)

lemma cs_poll_ok:
  assumes "cs_inv A c" and "seq_linear A M" and "seq_laws A W" and "cs_watermark c \<le> W" and "room M c"
  shows "poll_ok A c (cs_poll A c)"
  using assms
proof (induction A c rule: cs_poll.induct)
  case (1 A c)
  note prems = "1.prems"
  have keep: "cs_watermark c' \<le> W" "room M c'" if "same_place c c'" for c' :: "'a Consensus"
    using that prems(4,5) by (simp_all add: same_place_def room_def)
  show ?case
  proof (cases "pop_signalled (cs_signalled c)")
    case None
    then show ?thesis using prems(1) quiet_window [OF prems(1) None]
      by (subst cs_poll.simps) (simp add: poll_ok_def same_place_refl)
  next
    case (Some p)
    then obtain x sigs where pop: "pop_signalled (cs_signalled c) = Some (x, sigs)" by (cases p) simp
    show ?thesis using prems pop
    proof (cases rule: signalled_place)
      case (past e)
      show ?thesis unfolding cs_poll_past [OF pop past(2)]
        by (rule poll_ok_trans [OF _ "1.IH"(1) [OF pop refl past(2) drop_signal_inv [OF prems(1) pop past(1)] prems(2,3) keep]]) simp_all
    next
      case (window i)
      have n: "i < length (cs_decisions c)" using window(2) cs_invD(2) [OF prems(1)] by simp
      obtain d st where p: "dn_poll (cs_decisions c ! i) = (d, st)" by fastforce
      note inv = with_polled_inv [OF prems(1) pop [unfolded window(1)] window(2) p, folded window(1)]
      note ih = "1.IH"(2-4) [OF pop refl window(3) n p [symmetric]]
      have o: "cs_inv A (offer_seq x (with_polled (push_signalled x sigs) i d c))"
        "same_place c (offer_seq x (with_polled (push_signalled x sigs) i d c))"
        using offer_seq_inv [OF inv(2)] same_place_trans by (blast intro: same_place_polled)+
      note eq = cs_poll_window [OF pop window(3) n p]
      show ?thesis
      proof (cases st)
        case (NextMessage m)
        note w = cs_invD(1) [OF prems(1)]
        show ?thesis
          using inv(2) dn_poll_awake(4) [OF window_inst [OF w n] p NextMessage] window_nth_seq [OF w n] window(1,2)
          by (simp add: eq NextMessage poll_ok_def)
      qed (use poll_ok_trans [OF o(2) ih(1) [OF _ o(1) prems(2,3) keep [OF o(2)]]]
          poll_ok_trans [OF same_place_polled(1) ih(2) [OF _ inv(1) prems(2,3) keep [OF same_place_polled(1)]]]
          poll_ok_trans [OF same_place_polled(1) ih(3) [OF _ inv(1) prems(2,3) keep [OF same_place_polled(1)]]] eq in simp_all)
    qed
  qed
qed

subsection \<open>Processing a message\<close>

lemma process_at_inv:
  assumes inv: "cs_inv A c" and i: "i < cs_watermark c" and m: "is_consensus (msg m)"
    and s: "seq_of A m = cs_seq_no c + i" and eq: "process_at A role nn (cs_curr_view c) m i c = (c', es, r)"
  shows "cs_inv A c' \<and> same_place c c' \<and> r \<noteq> Panic"
proof -
  note w = cs_invD(1) [OF inv]
  have n: "i < length (cs_decisions c)" using i cs_invD(2) [OF inv] by simp
  obtain d es' st where p: "dn_process_message A role nn (cs_curr_view c) m (cs_decisions c ! i) = (d, es', st)"
    by (cases "dn_process_message A role nn (cs_curr_view c) m (cs_decisions c ! i)")
  have seq: "dn_seq (cs_decisions c ! i) = cs_seq_no c + i" by (rule window_nth_seq [OF w n])
  note d = dn_process_inst [OF window_inst [OF w n] cs_invD(12) [OF inv] m _ p, unfolded seq, OF s]
  have old: "awake (cs_decisions c ! i) \<longrightarrow> cs_seq_no c + i \<in> signaled_nos (cs_signalled c)"
    using window_awake [OF w n] by simp
  have loud: "cs_inv A (c\<lparr>cs_signalled := push_signalled (cs_seq_no c + i) (cs_signalled c),
      cs_decisions := (cs_decisions c)[i := d]\<rparr>)"
    by (rule update_inst_inv [OF inv i d(1,2)]) (use push_in_window [OF inv i] in simp_all)
  have quiet: "cs_inv A (c\<lparr>cs_signalled := cs_signalled c, cs_decisions := (cs_decisions c)[i := d]\<rparr>)"
    if "awake d \<longrightarrow> awake (cs_decisions c ! i)"
    by (rule update_inst_inv [OF inv i d(1,2)]) (use that old window_signalsD [OF w] in auto)
  have same: "c\<lparr>cs_signalled := cs_signalled c, cs_decisions := x\<rparr> = c\<lparr>cs_decisions := x\<rparr>" for x by simp
  from eq d(3,4) loud quiet [unfolded same] show ?thesis
    by (auto simp: process_at_def p Let_def seq same_place_def swap_updates split: res.splits if_splits)
qed

lemma cs_process_inv:
  assumes inv: "cs_inv A c" and laws: "handler_laws T A W M" and w: "cs_watermark c \<le> W"
    and room: "room M c" and m: "is_consensus (msg m)"
    and eq: "cs_process_message T A role nn (cs_curr_view c) m c = (c', es, r)"
  shows "cs_inv A c' \<and> same_place c c' \<and> r \<noteq> Panic"
proof -
  obtain k where k: "msg m = ConsensusMsg k" using m by (rule is_consensusE)
  have s: "seq_of A m = cm_seq k" by (simp add: k PBFTMessage_sequence_number_def)
  show ?thesis
  proof (cases "index_seq A (cm_view k) (vi_seq (cs_curr_view c)) = Inr 0")
    case False
    then show ?thesis using inv enqueue_other_view_inv [OF inv m] same_place_refl eq
      by (cases "index_seq A (cm_view k) (vi_seq (cs_curr_view c))")
        (auto simp: cs_process_message_def k Let_def)
  next
    case v: True
    show ?thesis
    proof (cases "index_seq A (cm_seq k) (cs_seq_no c)")
      case (Inl e)
      with v inv eq show ?thesis by (auto simp: cs_process_message_def k same_place_refl)
    next
      case (Inr i)
      show ?thesis
      proof (cases "cs_watermark c \<le> i")
        case True
        then show ?thesis using v Inr eq tq_queue_inv [OF inv laws m] cs_invD(2) [OF inv]
          by (auto simp: cs_process_message_def k same_place_def)
      next
        case False
        then have i: "i < cs_watermark c" by simp
        have "seq_of A m = cs_seq_no c + i"
          using index_linear(1) [OF handler_lawsD(3) [OF laws]
              seq_laws_mono [OF handler_lawsD(2) [OF laws] w] _ Inr i] room s by (simp add: room_def)
        moreover have "process_at A role nn (cs_curr_view c) m i c = (c', es, r)"
          using v Inr eq False cs_invD(2) [OF inv] by (simp add: cs_process_message_def k)
        ultimately show ?thesis using process_at_inv [OF inv i m] by blast
      qed
    qed
  qed
qed

subsection \<open>The next instance\<close>

lemma window_tail:
  assumes "window_ok A v s c" and "cs_decisions c \<noteq> []"
  shows "window_ok A v (Suc s) (c\<lparr>cs_decisions := tl (cs_decisions c)\<rparr>)"
proof -
  obtain d ds where ds: "cs_decisions c = d # ds" using assms(2) by (cases "cs_decisions c") auto
  have "[s..<s + length (d # ds)] = s # [Suc s..<s + length (d # ds)]" by (rule upt_conv_Cons) simp
  then have "map dn_seq ds = [Suc s..<Suc s + length ds]"
    using assms(1) unfolding window_ok_def ds by simp
  moreover have "x < Suc s + cs_watermark c" if "x \<in> signaled_nos (cs_signalled c)" for x
    using window_signalsD(2) [OF assms(1)] that by force
  ultimately show ?thesis using assms(1) unfolding window_ok_def ds by simp
qed

lemma from_messages_flag: "mq_pre_prepares (from_messages a b c) = [] \<or> mq_get_queue (from_messages a b c)"
  by (simp add: from_messages_def)

lemma advance_inst_ok:
  assumes "tq_ok A q" and "tbo_laws T A" and "seq_linear A M" and "tq_room M q"
    and "wf_view v" and "distinct (vi_leader_set v)" and "s = tq_curr_seq q + tq_watermark q"
  shows "inst_ok A v (init_with_msg_log node s v (snd (advance_queue T A q)))"
  using inst_ok_init [OF assms(5,6) advance_queue_ok(4,5) [OF assms(1-4)], of node, folded assms(7)]
    from_messages_flag advance_queue_ok(6) [OF assms(1-4)] by metis

lemma next_instance_ok:
  assumes inv: "cs_inv A c" and laws: "handler_laws T A W M" and room: "Suc (cs_seq_no c + cs_watermark c) < M"
  shows "\<exists>c'. next_instance T A (cs_curr_view c) c = (Ok (c', [], hd (cs_decisions c)) :: (_, 'e) res) \<and>
    cs_inv A c' \<and> cs_seq_no c' = Suc (cs_seq_no c) \<and> cs_watermark c' = cs_watermark c \<and>
    cs_curr_view c' = cs_curr_view c"
proof -
  note lin = handler_lawsD(3) [OF laws] and w = cs_invD(1) [OF inv]
  obtain d ds where ds: "cs_decisions c = d # ds"
    using cs_invD(2,3) [OF inv] by (cases "cs_decisions c") auto
  have len: "Suc (length ds) = cs_watermark c" using cs_invD(2) [OF inv] ds by simp
  let ?q = "cs_tbo_queue c"
  have rm: "tq_room M ?q" using room cs_invD(7,8) [OF inv] by (simp add: tq_room_def)
  note adv = advance_queue_ok [OF cs_invD(6) [OF inv] handler_lawsD(1) [OF laws] lin rm]
  have next_s: "next_seq A (cs_seq_no c) = Suc (cs_seq_no c)" using next_linear [OF lin] room by simp
  have new: "(if ds = [] then Suc (cs_seq_no c) else next_seq A (dn_seq (last ds))) = Suc (cs_seq_no c) + length ds"
  proof (cases ds rule: rev_cases)
    case (snoc ys y)
    have "dn_seq y = cs_seq_no c + length ds"
      using window_nth_seq [OF w, of "length ds"] ds snoc by (simp add: nth_append)
    then show ?thesis using snoc next_linear [OF lin, of "cs_seq_no c + length ds"] room len by simp
  qed simp
  let ?c0 = "c\<lparr>cs_decisions := ds, cs_seq_no := Suc (cs_seq_no c), cs_tbo_queue := fst (advance_queue T A ?q),
      cs_is_recovering := False\<rparr>"
  let ?d = "init_with_msg_log (cs_node_id c) (Suc (cs_seq_no c) + length ds) (cs_curr_view c) (snd (advance_queue T A ?q))"
  have eq: "next_instance T A (cs_curr_view c) c = (Ok (enqueue_decision ?d ?c0, [], d) :: (_, 'e) res)"
    using new cs_invD(11) [OF inv]
    by (simp add: next_instance_def ds Let_def next_s split: prod.split)
  have w0: "window_ok A (cs_curr_view c) (Suc (cs_seq_no c)) ?c0"
    using window_tail [OF w] ds by (simp add: window_ok_def)
  have s: "Suc (cs_seq_no c) + length ds = tq_curr_seq ?q + tq_watermark ?q"
    using len cs_invD(7,8) [OF inv] by simp
  have "inst_ok A (cs_curr_view c) ?d"
    using advance_inst_ok [OF cs_invD(6) [OF inv] handler_lawsD(1) [OF laws] lin rm cs_invD(4,5) [OF inv] s] .
  from window_enqueue [OF w0 _ this]
  have "window_ok A (cs_curr_view c) (Suc (cs_seq_no c)) (enqueue_decision ?d ?c0)"
    using len by (simp add: init_with_msg_log_def)
  then have "cs_inv A (enqueue_decision ?d ?c0)"
    using inv adv(1-3) len cs_invD(7,8) [OF inv] unfolding cs_inv_def by simp
  with eq ds show ?thesis by simp
qed

subsection \<open>Installing a sequence number\<close>

definition frame :: "'o Consensus \<Rightarrow> 'o Consensus \<Rightarrow> bool" where
  "frame c c' \<longleftrightarrow> c' = c\<lparr>cs_decisions := cs_decisions c', cs_signalled := cs_signalled c',
     cs_tbo_queue := cs_tbo_queue c'\<rparr>"

lemma frameD:
  assumes "frame c c'"
  shows "cs_watermark c' = cs_watermark c" "cs_node_id c' = cs_node_id c" "cs_seq_no c' = cs_seq_no c"
    "cs_curr_view c' = cs_curr_view c" "cs_view_queue c' = cs_view_queue c"
    "cs_consensus_guard c' = cs_consensus_guard c" "cs_is_recovering c' = cs_is_recovering c"
  by (subst assms [unfolded frame_def]; simp)+

lemma frame_refl: "frame c c"
  by (simp add: frame_def)

lemma frame_take: "frame (take_from_tbo T A v q c) c' \<Longrightarrow> frame c c'"
  by (cases c) (simp add: frame_def take_from_tbo_def enqueue_decision_def split: prod.splits)

lemma frame_same_rest: "frame a b \<Longrightarrow> same_rest b c \<Longrightarrow> frame a c \<and> cs_tbo_queue c = cs_tbo_queue b"
  by (cases a; cases b; cases c) (simp add: frame_def same_rest_def)

text \<open>A window that starts at \<open>s\<close> and is being refilled from a queue in step with it.\<close>

definition refilling :: "atlas \<Rightarrow> ViewInfo \<Rightarrow> SeqNo \<Rightarrow> 'o Consensus \<Rightarrow> bool" where
  "refilling A v s c \<longleftrightarrow> window_ok A v s c \<and> tq_ok A (cs_tbo_queue c) \<and>
     tq_watermark (cs_tbo_queue c) = cs_watermark c \<and>
     tq_curr_seq (cs_tbo_queue c) + cs_watermark c = s + length (cs_decisions c)"

lemma take_from_tbo_refilling:
  assumes "refilling A v s c" and "length (cs_decisions c) < cs_watermark c" and "s + cs_watermark c < M"
    and "wf_view v" and "distinct (vi_leader_set v)" and "handler_laws T A W M"
  shows "refilling A v s (take_from_tbo T A v (s + length (cs_decisions c)) c)"
proof -
  let ?q = "cs_tbo_queue c" and ?n = "s + length (cs_decisions c)"
  have q: "window_ok A v s c" "tq_ok A ?q" "tq_watermark ?q = cs_watermark c" "?n = tq_curr_seq ?q + tq_watermark ?q"
    using assms(1) by (simp_all add: refilling_def)
  have rm: "tq_room M ?q" using q(3,4) assms(2,3) by (simp add: tq_room_def)
  note adv = advance_queue_ok [OF q(2) handler_lawsD(1,3) [OF assms(6)] rm]
  let ?d = "init_with_msg_log (cs_node_id c) ?n v (snd (advance_queue T A ?q))"
  have "inst_ok A v ?d" using advance_inst_ok [OF q(2) handler_lawsD(1,3) [OF assms(6)] rm assms(4,5) q(4)] .
  then have "window_ok A v s (enqueue_decision ?d c)"
    using window_enqueue [OF q(1) assms(2)] by (simp add: init_with_msg_log_def)
  then have "window_ok A v s (take_from_tbo T A v ?n c)"
    by (subst window_ok_cong [of _ "enqueue_decision ?d c"]) (simp_all add: init_with_msg_log_def)
  with adv(1-3) q show ?thesis by (simp add: refilling_def)
qed

lemma refill_ok:
  assumes "refilling A v s c" and "q = s + length (cs_decisions c)" and "s + cs_watermark c < M"
    and "wf_view v" and "distinct (vi_leader_set v)" and "handler_laws T A W M"
  shows "refilling A v s (refill T A v q c) \<and> frame c (refill T A v q c) \<and>
    length (cs_decisions (refill T A v q c)) = cs_watermark c"
  using assms
proof (induction T A v q c rule: refill.induct)
  case (1 T A v q c)
  show ?case
  proof (cases "length (cs_decisions c) < cs_watermark c")
    case True
    have n: "add_seq A q (ONE A) = Suc q"
      using add_ONE [OF handler_lawsD(2) [OF "1.prems"(6)]]
        next_linear [OF handler_lawsD(3) [OF "1.prems"(6)], of q] "1.prems"(2,3) True by simp
    note t = take_from_tbo_refilling [OF "1.prems"(1) True "1.prems"(3-6), folded "1.prems"(2)]
    have "refilling A v s (refill T A v (Suc q) (take_from_tbo T A v q c)) \<and>
        frame (take_from_tbo T A v q c) (refill T A v (Suc q) (take_from_tbo T A v q c)) \<and>
        length (cs_decisions (refill T A v (Suc q) (take_from_tbo T A v q c))) = cs_watermark c"
      using "1.IH" [OF True t _ _ "1.prems"(4-6)] "1.prems"(2,3) n by simp
    moreover have "refill T A v q c = refill T A v (Suc q) (take_from_tbo T A v q c)"
      by (subst refill.simps) (simp add: True n)
    ultimately show ?thesis using frame_take by metis
  next
    case False
    then have "refill T A v q c = c" by (simp add: refill.simps)
    with "1.prems"(1) False show ?thesis by (simp add: frame_refl refilling_def window_ok_def)
  qed
qed

lemma refill_until_eq:
  assumes "refilling A v s c" and "q = s + length (cs_decisions c)" and "s + cs_watermark c < M"
    and "wf_view v" and "distinct (vi_leader_set v)" and "handler_laws T A W M"
  shows "refill_until T A v s q c = (s + cs_watermark c, refill T A v q c)"
  using assms
proof (induction T A v s q c rule: refill_until.induct)
  case (1 T A v s q c)
  have pos: "tq_curr_seq (cs_tbo_queue c) < s \<longleftrightarrow> length (cs_decisions c) < cs_watermark c"
    using "1.prems"(1) by (auto simp: refilling_def)
  show ?case
  proof (cases "length (cs_decisions c) < cs_watermark c")
    case True
    have n: "add_seq A q (ONE A) = Suc q"
      using add_ONE [OF handler_lawsD(2) [OF "1.prems"(6)]]
        next_linear [OF handler_lawsD(3) [OF "1.prems"(6)], of q] "1.prems"(2,3) True by simp
    note t = take_from_tbo_refilling [OF "1.prems"(1) True "1.prems"(3-6), folded "1.prems"(2)]
    have "refill_until T A v s (Suc q) (take_from_tbo T A v q c) =
        (s + cs_watermark c, refill T A v (Suc q) (take_from_tbo T A v q c))"
      using "1.IH" [OF _ t _ _ "1.prems"(4-6)] "1.prems"(2,3) True pos n by simp
    then show ?thesis
      by (subst refill_until.simps, subst refill.simps) (simp add: True n pos)
  next
    case False
    then show ?thesis using "1.prems"(1,2) pos
      by (subst refill_until.simps, subst refill.simps) (auto simp: refilling_def window_ok_def)
  qed
qed

lemma tq_clear_simps [simp]:
  "tq_pre_prepares (tq_clear q) = []" "tq_prepares (tq_clear q) = []" "tq_commits (tq_clear q) = []"
  "tq_curr_seq (tq_clear q) = tq_curr_seq q" "tq_watermark (tq_clear q) = tq_watermark q"
  by (simp_all add: tq_clear_def)

lemma cleared_window:
  "cs_decisions c = [] \<Longrightarrow> cs_signalled c = Signals_new \<Longrightarrow> window_ok A v s c"
  by (simp add: window_ok_def sig.invar_empty sig.abs_empty)

definition moved_to :: "SeqNo \<Rightarrow> 'o Consensus \<Rightarrow> 'o Consensus \<Rightarrow> bool" where
  "moved_to n c c' \<longleftrightarrow> cs_seq_no c' = n \<and> cs_watermark c' = cs_watermark c \<and> cs_curr_view c' = cs_curr_view c"

lemma installed_inv:
  assumes inv: "cs_inv A c" and "window_ok A (cs_curr_view c) n c'" and "length (cs_decisions c') = cs_watermark c"
    and "tq_ok A (cs_tbo_queue c')" and "tq_curr_seq (cs_tbo_queue c') = n"
    and "tq_watermark (cs_tbo_queue c') = cs_watermark c"
    and "cs_watermark c' = cs_watermark c" and "cs_curr_view c' = cs_curr_view c"
    and "cs_view_queue c' = cs_view_queue c" and "guard_ok (cs_consensus_guard c')"
    and "cs_is_recovering c' = cs_is_recovering c"
  shows "cs_inv A (c'\<lparr>cs_seq_no := n\<rparr>)"
  using assms by (simp add: cs_inv_def window_ok_def)

lemma install_behind_inv:
  assumes inv: "cs_inv A c" and laws: "handler_laws T A W M" and room: "n + cs_watermark c < M"
  shows "cs_inv A (install_behind A n (cs_curr_view c) c) \<and> moved_to n c (install_behind A n (cs_curr_view c) c)"
proof -
  let ?k = "clear_all_queues c" and ?v = "cs_curr_view c"
  have k: "cs_watermark ?k = cs_watermark c" "cs_curr_view ?k = ?v" "cs_decisions ?k = []"
    "cs_tbo_queue ?k = tq_clear (cs_tbo_queue c)" "cs_view_queue ?k = cs_view_queue c"
    "cs_consensus_guard ?k = guard_clear (cs_consensus_guard c)" "cs_is_recovering ?k = cs_is_recovering c"
    by (simp_all add: clear_all_queues_def)
  have "window_ok A ?v n ?k" by (rule cleared_window) (simp_all add: clear_all_queues_def Signals_clear_eq)
  from fill_decisions_ok [OF this _ _ cs_invD(4,5) [OF inv] handler_lawsD(3,2) [OF laws], of n] room k
  have f: "window_ok A ?v n (fill_decisions A ?v n ?k)"
    "length (cs_decisions (fill_decisions A ?v n ?k)) = cs_watermark c"
    "same_rest ?k (fill_decisions A ?v n ?k)" by simp_all
  let ?f = "fill_decisions A ?v n ?k"
  let ?c = "?f\<lparr>cs_tbo_queue := (cs_tbo_queue ?f)\<lparr>tq_curr_seq := n\<rparr>\<rparr>"
  note r = same_restD [OF f(3)]
  have "cs_inv A (?c\<lparr>cs_seq_no := n\<rparr>)"
  proof (rule installed_inv [OF inv])
    show "window_ok A ?v n ?c" using f(1) by (simp add: window_ok_def)
    show "tq_ok A (cs_tbo_queue ?c)" by (rule tq_ok_empty) (simp_all add: r k)
    show "guard_ok (cs_consensus_guard ?c)" using cs_invD(9) [OF inv] by (simp add: r k guard_ok_ops)
  qed (simp_all add: f r k cs_invD(8) [OF inv])
  then show ?thesis using r k by (simp add: install_behind_def Let_def moved_to_def)
qed

lemma skip_instances:
  assumes "tq_ok A q" and "tbo_laws T A" and "seq_linear A M" and "tq_curr_seq q + k + tq_watermark q < M"
  shows "tq_ok A ((next_instance_queue T A ^^ k) q) \<and>
    tq_curr_seq ((next_instance_queue T A ^^ k) q) = tq_curr_seq q + k \<and>
    tq_watermark ((next_instance_queue T A ^^ k) q) = tq_watermark q"
  using assms(4)
proof (induction k)
  case 0
  then show ?case using assms(1) by simp
next
  case (Suc k)
  then have IH: "tq_ok A ((next_instance_queue T A ^^ k) q)"
    "tq_curr_seq ((next_instance_queue T A ^^ k) q) = tq_curr_seq q + k"
    "tq_watermark ((next_instance_queue T A ^^ k) q) = tq_watermark q" by simp_all
  have "tq_room M ((next_instance_queue T A ^^ k) q)" using IH Suc.prems by (simp add: tq_room_def)
  from next_instance_queue_ok [OF IH(1) assms(2,3) this] IH show ?case by simp
qed

definition emptied :: "'o Consensus \<Rightarrow> 'o TboQueue \<Rightarrow> 'o Consensus" where
  \<comment> \<open>the handler without instances, with another queue\<close>
  "emptied c q = c\<lparr>cs_decisions := [], cs_signalled := Signals_clear (cs_signalled c),
     cs_consensus_guard := guard_clear (cs_consensus_guard c), cs_tbo_queue := q\<rparr>"

lemma emptied_window: "window_ok A v n (emptied c q)"
  unfolding emptied_def by (rule cleared_window) (simp_all add: Signals_clear_eq)

lemma emptied_simps [simp]:
  "cs_decisions (emptied c q) = []" "cs_tbo_queue (emptied c q) = q" "cs_watermark (emptied c q) = cs_watermark c"
  "cs_curr_view (emptied c q) = cs_curr_view c" "cs_seq_no (emptied c q) = cs_seq_no c"
  "cs_consensus_guard (emptied c q) = guard_clear (cs_consensus_guard c)" "cs_view_queue (emptied c q) = cs_view_queue c"
  "cs_is_recovering (emptied c q) = cs_is_recovering c"
  by (simp_all add: emptied_def)

lemma install_beyond_eq:
  assumes "cs_watermark c \<le> limit" and "limit < 2 ^ 64"
  shows "install_beyond T A n v limit c =
    (let over = limit - cs_watermark c; q = cs_tbo_queue c;
         (k, c') = refill_until T A v n n (emptied c
           (if length (tq_pre_prepares q) \<le> over then (tq_clear q)\<lparr>tq_curr_seq := n\<rparr> else (next_instance_queue T A ^^ over) q))
     in (fill_decisions A v k c')\<lparr>cs_seq_no := n\<rparr>)"
  using assms by (simp add: install_beyond_def emptied_def Let_def)

lemma install_fresh_inv:
  assumes inv: "cs_inv A c" and laws: "handler_laws T A W M" and room: "n + cs_watermark c < M"
    and t: "tq_ok A t" "tq_curr_seq t = n" "tq_watermark t = cs_watermark c"
  shows "cs_inv A ((fill_decisions A (cs_curr_view c) n (emptied c t))\<lparr>cs_seq_no := n\<rparr>) \<and>
    moved_to n c ((fill_decisions A (cs_curr_view c) n (emptied c t))\<lparr>cs_seq_no := n\<rparr>)"
proof -
  let ?c = "fill_decisions A (cs_curr_view c) n (emptied c t)"
  from fill_decisions_ok [OF emptied_window [of A "cs_curr_view c" n c t] _ _ cs_invD(4,5) [OF inv] handler_lawsD(3,2) [OF laws], of n] room
  have f: "window_ok A (cs_curr_view c) n ?c" "length (cs_decisions ?c) = cs_watermark c" "same_rest (emptied c t) ?c"
    by simp_all
  have "guard_ok (guard_clear (cs_consensus_guard c))" using cs_invD(9) [OF inv] by (rule guard_ok_ops)
  then have "cs_inv A (?c\<lparr>cs_seq_no := n\<rparr>)"
    by (intro installed_inv [OF inv f(1,2)]) (simp_all add: same_restD [OF f(3)] t)
  then show ?thesis using same_restD [OF f(3)] by (simp add: moved_to_def)
qed

lemma install_refilled_inv:
  assumes inv: "cs_inv A c" and laws: "handler_laws T A W M" and room: "n + cs_watermark c < M"
    and t: "tq_ok A t" "tq_curr_seq t + cs_watermark c = n" "tq_watermark t = cs_watermark c"
  shows "case refill_until T A (cs_curr_view c) n n (emptied c t) of
    (k, c') \<Rightarrow> cs_inv A ((fill_decisions A (cs_curr_view c) k c')\<lparr>cs_seq_no := n\<rparr>) \<and>
      moved_to n c ((fill_decisions A (cs_curr_view c) k c')\<lparr>cs_seq_no := n\<rparr>)"
proof -
  let ?c1 = "emptied c t" and ?v = "cs_curr_view c"
  let ?c2 = "refill T A ?v n ?c1"
  have rf: "refilling A ?v n ?c1" using emptied_window t by (simp add: refilling_def)
  have rm: "n + cs_watermark ?c1 < M" "n = n + length (cs_decisions ?c1)" using room by simp_all
  have f: "refilling A ?v n ?c2" "frame ?c1 ?c2" "length (cs_decisions ?c2) = cs_watermark c"
    using refill_ok [OF rf rm(2,1) cs_invD(4,5) [OF inv] laws] by simp_all
  note r = frameD [OF f(2)]
  have "fill_decisions A ?v (n + cs_watermark c) ?c2 = ?c2" using f(3) r by (simp add: fill_decisions.simps)
  moreover have "guard_ok (guard_clear (cs_consensus_guard c))" using cs_invD(9) [OF inv] by (rule guard_ok_ops)
  then have "cs_inv A (?c2\<lparr>cs_seq_no := n\<rparr>)"
    by (intro installed_inv [OF inv]) (use f r in \<open>simp_all add: refilling_def\<close>)
  ultimately show ?thesis
    using refill_until_eq [OF rf rm(2,1) cs_invD(4,5) [OF inv] laws] r by (simp add: moved_to_def)
qed

lemma install_beyond_inv:
  assumes inv: "cs_inv A c" and laws: "handler_laws T A W M" and room: "n + cs_watermark c < M"
    and n: "n = cs_seq_no c + limit" and far: "cs_watermark c \<le> limit"
  shows "cs_inv A (install_beyond T A n (cs_curr_view c) limit c) \<and>
    moved_to n c (install_beyond T A n (cs_curr_view c) limit c)"
proof -
  let ?q = "cs_tbo_queue c" and ?over = "limit - cs_watermark c"
  have "limit < 2 ^ 64" using room n handler_lawsD(4) [OF laws] by simp
  note eq = install_beyond_eq [OF far this]
  show ?thesis
  proof (cases "length (tq_pre_prepares ?q) \<le> ?over")
    case True
    have "tq_ok A ((tq_clear ?q)\<lparr>tq_curr_seq := n\<rparr>)" by (rule tq_ok_empty) simp_all
    from install_fresh_inv [OF inv laws room this] True cs_invD(8) [OF inv] show ?thesis
      by (simp add: eq Let_def refill_until.simps)
  next
    case False
    have "tq_ok A ((next_instance_queue T A ^^ ?over) ?q)"
      "tq_curr_seq ((next_instance_queue T A ^^ ?over) ?q) + cs_watermark c = n"
      "tq_watermark ((next_instance_queue T A ^^ ?over) ?q) = cs_watermark c"
      using skip_instances [OF cs_invD(6) [OF inv] handler_lawsD(1,3) [OF laws], of ?over]
        cs_invD(7,8) [OF inv] room n far by simp_all
    from install_refilled_inv [OF inv laws room this] False show ?thesis by (simp add: eq Let_def case_prod_unfold)
  qed
qed

lemma window_drop:
  "window_ok A v s c \<Longrightarrow> k \<le> length (cs_decisions c) \<Longrightarrow>
   window_ok A v (s + k) (c\<lparr>cs_decisions := drop k (cs_decisions c)\<rparr>)"
proof (induction k)
  case (Suc k)
  let ?c = "c\<lparr>cs_decisions := drop k (cs_decisions c)\<rparr>"
  have "window_ok A v (s + k) ?c" "cs_decisions ?c \<noteq> []" using Suc by simp_all
  from window_tail [OF this] show ?case by (simp add: drop_Suc tl_drop)
qed simp

lemma install_within_inv:
  assumes inv: "cs_inv A c" and laws: "handler_laws T A W M" and room: "n + cs_watermark c < M"
    and n: "n = cs_seq_no c + limit" and near: "limit < cs_watermark c"
  shows "\<exists>c'. install_within T A n (cs_curr_view c) limit c = (Ok c' :: (_, 'e) res) \<and>
    cs_inv A c' \<and> moved_to n c c'"
proof -
  let ?v = "cs_curr_view c" and ?k = "c\<lparr>cs_decisions := drop limit (cs_decisions c)\<rparr>"
  note w = cs_invD(1) [OF inv] and len = cs_invD(2) [OF inv]
  have w1: "window_ok A ?v n ?k" unfolding n by (rule window_drop [OF w]) (use near len in simp)
  have ne: "cs_decisions ?k \<noteq> []" using near len by simp
  have l: "length (cs_decisions ?k) = cs_watermark c - limit" using len by simp
  have "last (cs_decisions ?k) = cs_decisions ?k ! (cs_watermark c - limit - 1)"
    unfolding last_conv_nth [OF ne] l ..
  then have "dn_seq (last (cs_decisions ?k)) = cs_seq_no c + cs_watermark c - 1"
    using window_nth_seq [OF w1, of "cs_watermark c - limit - 1"] l near n by simp
  then have q: "next_seq A (dn_seq (last (cs_decisions ?k))) = n + length (cs_decisions ?k)"
    using next_linear [OF handler_lawsD(3) [OF laws], of "cs_seq_no c + cs_watermark c - 1"] room near n l by simp
  have rf: "refilling A ?v n ?k"
    using w1 l near n cs_invD(6,7,8) [OF inv] by (simp add: refilling_def)
  let ?c = "refill T A ?v (n + length (cs_decisions ?k)) ?k"
  have f: "refilling A ?v n ?c" "frame ?k ?c" "length (cs_decisions ?c) = cs_watermark c"
    using refill_ok [OF rf refl _ cs_invD(4,5) [OF inv] laws] room by simp_all
  note r = frameD [OF f(2)]
  have "cs_inv A (?c\<lparr>cs_seq_no := n\<rparr>)"
    by (rule installed_inv [OF inv]) (use f r cs_invD(9) [OF inv] in \<open>simp_all add: refilling_def\<close>)
  moreover have "install_within T A n ?v limit c = (Ok (?c\<lparr>cs_seq_no := n\<rparr>) :: (_, 'e) res)"
    using ne q by (simp add: install_within_def Let_def)
  ultimately show ?thesis using r by (simp add: moved_to_def)
qed

lemma signal_installed_inv:
  "cs_inv A c \<Longrightarrow> cs_inv A (c\<lparr>cs_consensus_guard := install_seq_no n (cs_consensus_guard c),
     cs_tbo_queue := tq_signal (cs_tbo_queue c)\<rparr>)"
  by (auto simp: cs_inv_def window_ok_def tq_ok_def tq_signal_def base_seq_def guard_ok_ops)

lemma install_sequence_number_inv:
  assumes inv: "cs_inv A c" and laws: "handler_laws T A W M" and room: "n + cs_watermark c < M"
    "cs_seq_no c < M"
  shows "\<exists>c'. install_sequence_number T A n (cs_curr_view c) c = Ok c' \<and> cs_inv A c' \<and> moved_to n c c'"
proof -
  have "\<exists>c'. (case index_seq A n (cs_seq_no c) of
          Inl _ \<Rightarrow> Ok (install_behind A n (cs_curr_view c) c)
        | Inr limit \<Rightarrow>
            if limit = 0 then Ok c
            else if length (cs_decisions c) \<le> limit
            then Ok (install_beyond T A n (cs_curr_view c) limit c)
            else install_within T A n (cs_curr_view c) limit c) = (Ok c' :: (_, unit) res) \<and>
      cs_inv A c' \<and> moved_to n c c'"
  proof (cases "index_seq A n (cs_seq_no c)")
    case (Inl e)
    then show ?thesis using install_behind_inv [OF inv laws room(1)] by auto
  next
    case (Inr limit)
    have n: "n = cs_seq_no c + limit"
      using seq_linearD(3) [OF handler_lawsD(3) [OF laws] _ room(2) Inr] room(1) by simp
    show ?thesis
      using Inr n inv install_beyond_inv [OF inv laws room(1) n] install_within_inv [OF inv laws room(1) n]
        cs_invD(2) [OF inv] by (cases "cs_watermark c \<le> limit") (auto simp: moved_to_def)
  qed
  then obtain c' where c': "cs_inv A c'" "moved_to n c c'"
    and eq: "(case index_seq A n (cs_seq_no c) of
          Inl _ \<Rightarrow> Ok (install_behind A n (cs_curr_view c) c)
        | Inr limit \<Rightarrow>
            if limit = 0 then Ok c
            else if length (cs_decisions c) \<le> limit
            then Ok (install_beyond T A n (cs_curr_view c) limit c)
            else install_within T A n (cs_curr_view c) limit c) = (Ok c' :: (_, unit) res)" by blast
  obtain d ds where ds: "cs_decisions c' = d # ds"
    using cs_invD(2,3) [OF c'(1)] by (cases "cs_decisions c'") auto
  have "dn_seq d = n" using window_nth_seq [OF cs_invD(1) [OF c'(1)], of 0] ds c'(2) by (simp add: moved_to_def)
  then show ?thesis
    using signal_installed_inv [OF c'(1), of n] c' ds cs_invD(7) [OF c'(1)]
    by (simp add: install_sequence_number_def eq Let_def tq_signal_def moved_to_def)
qed

subsection \<open>Finalizing\<close>

lemma cs_finalize_inv:
  assumes inv: "cs_inv A c" and laws: "handler_laws T A W M" and room: "Suc (cs_seq_no c + cs_watermark c) < M"
    and fin: "can_finalize c"
  shows "\<exists>c' b. cs_finalize T A (cs_curr_view c) c = (c', [], Ok (Some b)) \<and> cs_inv A c' \<and>
    cs_seq_no c' = Suc (cs_seq_no c) \<and> cs_watermark c' = cs_watermark c \<and> cs_curr_view c' = cs_curr_view c \<and>
    cb_seq b = cs_seq_no c \<and> wl_batch_digest (dn_working_log (hd (cs_decisions c))) = Some (cb_digest b)"
proof -
  obtain d ds where ds: "cs_decisions c = d # ds" "is_finalizeable d"
    using fin by (auto simp: can_finalize_def split: list.splits)
  obtain c' where c': "next_instance T A (cs_curr_view c) c = (Ok (c', [], d) :: (_, DecisionError) res)"
    "cs_inv A c'" "cs_seq_no c' = Suc (cs_seq_no c)" "cs_watermark c' = cs_watermark c" "cs_curr_view c' = cs_curr_view c"
    using next_instance_ok [OF inv laws room, where 'e = DecisionError] ds(1) by auto
  have d: "dn_inv A (cs_curr_view c) d" "dn_seq d = cs_seq_no c"
    using window_inst [OF cs_invD(1) [OF inv], of 0] window_nth_seq [OF cs_invD(1) [OF inv], of 0] ds(1)
    by (simp_all add: inst_ok_def)
  obtain b where b: "dn_finalize d = Ok b" "wl_batch_digest (dn_working_log d) = Some (cb_digest b)" "cb_seq b = dn_seq d"
    using dn_finalize_ok [OF d(1)] ds(2) by (auto simp: is_finalizeable_def)
  with c' d ds show ?thesis by (simp add: cs_finalize_def)
qed

subsection \<open>Installing a view\<close>

definition all_initial :: "'o Consensus \<Rightarrow> bool" where
  "all_initial c \<longleftrightarrow> list_all (\<lambda>d. dn_phase d = Initialize) (cs_decisions c)"

lemma dn_queue_phase: "dn_queue m d = (Ok d' :: (_, 'e) res) \<Longrightarrow> dn_phase d' = dn_phase d"
  by (auto simp: dn_queue_def res_bind_Ok_iff)

lemma cs_queue_phase:
  assumes "cs_queue T A m c = Ok c'" and "all_initial c"
  shows "all_initial c'"
proof -
  have upd: "all_initial (c\<lparr>cs_decisions := (cs_decisions c)[i := d], cs_signalled := s\<rparr>)"
    if "dn_queue m (cs_decisions c ! i) = (Ok d :: (_, unit) res)" "i < length (cs_decisions c)" for i d s
    using assms(2) dn_queue_phase [OF that(1)] that(2)
    by (auto simp: all_initial_def list_all_length nth_list_update)
  have same: "all_initial (c\<lparr>cs_tbo_queue := q\<rparr>)" "all_initial (enqueue_other_view_message i m c)" for q i
    using assms(2) by (simp_all add: all_initial_def enqueue_other_view_message_def Let_def)
  obtain k where k: "msg m = ConsensusMsg k" using assms(1) by (cases "msg m") (simp_all add: cs_queue_def)
  show ?thesis
    using assms upd same
    by (auto simp: cs_queue_def k Let_def split: sum.splits if_splits res.splits
        elim!: res.set_cases) (auto simp: res_map_def split: res.splits)
qed

lemma queue_all_inv:
  assumes "cs_inv A c" and "handler_laws T A W M" and "cs_watermark c \<le> W" and "room M c"
    and "list_all (\<lambda>m. is_consensus (msg m)) ms" and "all_initial c"
  shows "\<exists>c'. queue_all T A ms c = Ok c' \<and> cs_inv A c' \<and> same_place c c' \<and> all_initial c'"
  using assms
proof (induction ms arbitrary: c)
  case (Cons m ms)
  obtain c1 where c1: "cs_queue T A m c = Ok c1" "cs_inv A c1" "same_place c c1"
    using cs_queue_inv [OF Cons.prems(1-4), of m] Cons.prems(5) by auto
  have "cs_watermark c1 \<le> W" "room M c1"
    using c1(3) Cons.prems(3,4) by (simp_all add: same_place_def room_def)
  from Cons.IH [OF c1(2) Cons.prems(2) this] cs_queue_phase [OF c1(1) Cons.prems(6)] Cons.prems(5) c1
  show ?case by (auto intro: same_place_trans)
qed (simp add: same_place_refl)

lemma fresh_initial:
  "length (cs_decisions c) = 0 \<Longrightarrow> all_initial (fill_decisions A v q c)"
proof -
  have "all_initial c \<Longrightarrow> all_initial (fill_decisions A v q c)"
    by (induction A v q c rule: fill_decisions.induct)
      (subst fill_decisions.simps, simp add: all_initial_def init_decision_def)
  then show "length (cs_decisions c) = 0 \<Longrightarrow> all_initial (fill_decisions A v q c)"
    by (simp add: all_initial_def)
qed

lemma cs_install_view_inv:
  assumes inv: "cs_inv A c" and laws: "handler_laws T A W M" and w: "cs_watermark c \<le> W" and room: "room M c"
    and v: "wf_view v" "distinct (vi_leader_set v)"
    and ahead: "index_seq A (vi_seq v) (vi_seq (cs_curr_view c)) = Inr (Suc k)"
  shows "\<exists>c'. cs_install_view T A v c = Ok c' \<and> cs_inv A c' \<and> all_initial c' \<and> cs_curr_view c' = v \<and>
    cs_seq_no c' = cs_seq_no c \<and> cs_watermark c' = cs_watermark c"
proof -
  let ?k = "clear_all_queues (c\<lparr>cs_curr_view := v, cs_consensus_guard := guard_install_view v (cs_consensus_guard c)\<rparr>)"
  have kk: "cs_watermark ?k = cs_watermark c" "cs_curr_view ?k = v" "cs_decisions ?k = []" "cs_seq_no ?k = cs_seq_no c"
    "cs_tbo_queue ?k = tq_clear (cs_tbo_queue c)" "cs_view_queue ?k = cs_view_queue c"
    "cs_consensus_guard ?k = guard_clear (guard_install_view v (cs_consensus_guard c))"
    "cs_is_recovering ?k = cs_is_recovering c"
    by (simp_all add: clear_all_queues_def)
  let ?f = "fill_decisions A v (cs_seq_no c) ?k"
  have "window_ok A v (cs_seq_no c) ?k" by (rule cleared_window) (simp_all add: clear_all_queues_def Signals_clear_eq)
  from fill_decisions_ok [OF this _ _ v handler_lawsD(3,2) [OF laws], of "cs_seq_no c"] room kk
  have f: "window_ok A v (cs_seq_no c) ?f" "length (cs_decisions ?f) = cs_watermark c" "same_rest ?k ?f"
    by (simp_all add: room_def)
  note r = same_restD [OF f(3)]
  have "tq_ok A (tq_clear (cs_tbo_queue c))" by (rule tq_ok_empty) simp_all
  then have base: "cs_inv A (?f\<lparr>cs_view_queue := q\<rparr>)" if "list_all (list_all (\<lambda>m. is_consensus (msg m))) q" for q
    using that f(1,2) v inv unfolding cs_inv_def window_ok_def by (simp add: r kk guard_ok_ops)
  have init: "all_initial (?f\<lparr>cs_view_queue := q\<rparr>)" for q
    using fresh_initial [of ?k A v "cs_seq_no c"] kk(3) by (simp add: all_initial_def)
  have vq: "list_all (list_all (\<lambda>m. is_consensus (msg m))) (drop k (cs_view_queue c))"
    using cs_invD(10) [OF inv] by (auto simp: list_all_iff dest: in_set_dropD)
  have eq: "cs_install_view T A v c = (case drop k (cs_view_queue c) of
        [] \<Rightarrow> Ok (?f\<lparr>cs_view_queue := []\<rparr>)
      | ms # rest \<Rightarrow> queue_all T A ms (?f\<lparr>cs_view_queue := rest\<rparr>))"
    using ahead by (simp add: cs_install_view_def Let_def r kk split: list.split)
  show ?thesis
  proof (cases "drop k (cs_view_queue c)")
    case Nil
    then show ?thesis using eq base [of "[]"] init [of "[]"] by (simp add: r kk)
  next
    case (Cons ms rest)
    have "list_all (\<lambda>m. is_consensus (msg m)) ms" "list_all (list_all (\<lambda>m. is_consensus (msg m))) rest"
      using vq Cons by simp_all
    with queue_all_inv [OF base laws _ _ _ init, of rest ms] w room
    show ?thesis using eq Cons by (auto simp: same_place_def room_def r kk)
  qed
qed

end
