(* ===== verification/ConsensusRuns.thy ===== *)
theory ConsensusRuns
  imports ConsensusSafety
begin

text \<open>
  Runs of the consensus handler: any interleaving of its operations (polling, queueing, processing
  messages from anyone, finalizing, installing a view or a sequence number, finishing a view change with or without
  catching up on the last decision) with the background tasks of the instances and the proposer's
  thread on the shared guard. The theorems below hold in every state of such a run.

  The caller passes the view of the synchronizer to most operations; in a run it is the view of the
  handler, except that a view change passes the new one. Sequence numbers stay below the bound under
  which they do not wrap around. \<open>catch_up_to_quorum\<close> is called by the synchronizer only, right before
  \<open>finalize_view_change\<close> and with the new view, so both are one step. It hands out the decision of a proof
  without comparing its number to the one that is due.
\<close>

subsection \<open>A view change\<close>

lemma skip_init_inst:
  assumes "inst_ok A v d" and "dn_phase d = Initialize"
  shows "inst_ok A v (skip_init_phase d)" "dn_seq (skip_init_phase d) = dn_seq d"
    "awake (skip_init_phase d) \<longrightarrow> awake d"
  using assms dn_inv_started [of A v d]
  by (simp_all add: inst_ok_def skip_init_phase_def pending_def awake_def)

lemma guard_update_inv:
  "cs_inv A c \<Longrightarrow> guard_ok g \<Longrightarrow> cs_inv A (c\<lparr>cs_consensus_guard := g\<rparr>)"
  by (simp add: cs_inv_def window_ok_def)

lemma finalize_view_change_inv:
  assumes inv: "cs_inv A c" and laws: "handler_laws T A W M" and w: "cs_watermark c \<le> W" and room: "room M c"
    and v: "wf_view v" "distinct (vi_leader_set v)"
    and ahead: "index_seq A (vi_seq v) (vi_seq (cs_curr_view c)) = Inr (Suc k)"
    and eq: "finalize_view_change T A role nn (h, m) v v c = (c', es, r)"
  shows "cs_inv A c' \<and> r \<noteq> Panic \<and> cs_curr_view c' = v \<and> cs_seq_no c' = cs_seq_no c \<and>
    cs_watermark c' = cs_watermark c"
proof -
  obtain c1 where c1: "cs_install_view T A v c = Ok c1" "cs_inv A c1" "all_initial c1" "cs_curr_view c1 = v"
    "cs_seq_no c1 = cs_seq_no c" "cs_watermark c1 = cs_watermark c"
    using cs_install_view_inv [OF inv laws w room v ahead] by blast
  define c2 where "c2 = (case cm_kind m of
      PrePrepare reqs \<Rightarrow> c1\<lparr>cs_consensus_guard :=
         install_sync_message_requests (map (rq_info A) reqs) (cs_consensus_guard c1)\<rparr>
    | _ \<Rightarrow> c1)"
  have c2: "cs_inv A c2" "cs_curr_view c2 = v" "cs_seq_no c2 = cs_seq_no c" "cs_watermark c2 = cs_watermark c"
    "cs_decisions c2 = cs_decisions c1"
    using guard_update_inv [OF c1(2)] guard_ok_ops(8) [OF cs_invD(9) [OF c1(2)]] c1
    by (simp_all add: c2_def split: ConsensusMessageKind.split)
  let ?d = "cs_decisions c2 ! 0"
  define c3 where "c3 = c2\<lparr>cs_decisions := (cs_decisions c2)[0 := skip_init_phase ?d]\<rparr>"
  have n: "0 < length (cs_decisions c2)" "0 < cs_watermark c2" using cs_invD(2,3) [OF c2(1)] by simp_all
  note w2 = cs_invD(1) [OF c2(1)]
  have "dn_phase ?d = Initialize" using c1(3) n(1) c2(5) by (simp add: all_initial_def list_all_length)
  note sk = skip_init_inst [OF window_inst [OF w2 n(1)] this]
  have "cs_inv A (c2\<lparr>cs_signalled := cs_signalled c2, cs_decisions := (cs_decisions c2)[0 := skip_init_phase ?d]\<rparr>)"
    by (rule update_inst_inv [OF c2(1) n(2) sk(1)])
      (use sk window_nth_seq [OF w2 n(1)] window_awake [OF w2 n(1)] window_signalsD [OF w2] in auto)
  then have c3: "cs_inv A c3" by (simp add: c3_def)
  have p3: "cs_curr_view c3 = v" "cs_watermark c3 \<le> W" "room M c3" "cs_seq_no c3 = cs_seq_no c"
    "cs_watermark c3 = cs_watermark c"
    using c2 w room by (simp_all add: c3_def room_def)
  obtain c4 es4 r4 where p: "cs_process_message T A role nn v (StoredMessage h (ConsensusMsg m)) c3 = (c4, es4, r4)"
    by (cases "cs_process_message T A role nn v (StoredMessage h (ConsensusMsg m)) c3")
  have c4: "cs_inv A c4" "same_place c3 c4" "r4 \<noteq> Panic"
    using cs_process_inv [OF c3 laws p3(2,3), of "StoredMessage h (ConsensusMsg m)" role nn] p p3(1)
    by (simp_all add: is_consensus_def)
  have "(c', es, r) = (case r4 of
      Ok st \<Rightarrow> (c4\<lparr>cs_consensus_guard := unlock_consensus (cs_consensus_guard c4)\<rparr>, es4, Ok st)
    | Err e \<Rightarrow> (c4, es4, Err e) | Panic \<Rightarrow> (c4, es4, Panic))"
    using eq n(1) p by (simp add: finalize_view_change_def c1(1) Let_def flip: c2_def c3_def split: res.splits)
  then show ?thesis
    using c4 p3 guard_update_inv [OF c4(1) guard_ok_ops(3) [OF cs_invD(9) [OF c4(1)]]]
    by (auto simp: same_place_def split: res.splits)
qed

subsection \<open>Catching up in a view change\<close>

lemma install_view_forgets:
  assumes "index_seq A (vi_seq v) (vi_seq (cs_curr_view c)) = Inr (Suc k)"
  shows "cs_install_view T A v (c\<lparr>cs_decisions := ds\<rparr>) = cs_install_view T A v c"
proof -
  have "clear_all_queues (c\<lparr>cs_decisions := ds, cs_curr_view := v, cs_consensus_guard := g\<rparr>) =
      clear_all_queues (c\<lparr>cs_curr_view := v, cs_consensus_guard := g\<rparr>)" for g
    by (simp add: clear_all_queues_def)
  with assms show ?thesis by (simp add: cs_install_view_def Let_def cong: list.case_cong)
qed

lemma next_instance_view:
  assumes "next_instance T A v c = (Ok (c', es, d) :: (_, 'e) res)"
  shows "\<exists>ds. next_instance T A v' c = (Ok (c'\<lparr>cs_decisions := ds\<rparr>, es, d) :: (_, 'e) res)"
  using assms
  by (auto simp: next_instance_def enqueue_decision_def init_with_msg_log_def Let_def split: list.splits prod.splits)

lemma caught_up_inv:
  assumes inv: "cs_inv A c" and laws: "handler_laws T A W M" and w: "cs_watermark c \<le> W"
    and room: "Suc (cs_seq_no c + cs_watermark c) < M" and v: "wf_view v" "distinct (vi_leader_set v)"
    and ahead: "index_seq A (vi_seq v) (vi_seq (cs_curr_view c)) = Inr (Suc k)"
    and up: "catch_up_to_quorum T A v p log c = (c1, log', es1, Ok dec)"
    and eq: "finalize_view_change T A role nn (h, m) v v c1 = (c', es, r)"
  shows "cs_inv A c' \<and> r \<noteq> Panic \<and> cs_curr_view c' = v \<and> cs_seq_no c' = Suc (cs_seq_no c) \<and>
    cs_watermark c' = cs_watermark c"
proof -
  obtain d where "next_instance T A v c = (Ok (c1, es1, d) :: (_, LogError) res)"
    using up by (auto simp: catch_up_to_quorum_def split: prod.splits res.splits)
  from next_instance_view [OF this, of "cs_curr_view c"] obtain ds
    where n: "next_instance T A (cs_curr_view c) c = (Ok (c1\<lparr>cs_decisions := ds\<rparr>, es1, d) :: (_, LogError) res)" ..
  let ?c = "c1\<lparr>cs_decisions := ds\<rparr>"
  have c: "cs_inv A ?c" "cs_seq_no ?c = Suc (cs_seq_no c)" "cs_watermark ?c = cs_watermark c" "cs_curr_view ?c = cs_curr_view c"
    using next_instance_ok [OF inv laws room, where 'e = LogError] n by auto
  have place: "cs_watermark ?c \<le> W" "room M ?c" "index_seq A (vi_seq v) (vi_seq (cs_curr_view ?c)) = Inr (Suc k)"
    using c w room ahead by (simp_all add: room_def)
  obtain c2 where c2: "cs_install_view T A v ?c = Ok c2" using cs_install_view_inv [OF c(1) laws place(1,2) v place(3)] by blast
  then have "cs_install_view T A v c1 = Ok c2" using install_view_forgets [of A v c1 k T ds] place(3) by simp
  with c2 eq have "finalize_view_change T A role nn (h, m) v v ?c = (c', es, r)" by (simp add: finalize_view_change_def)
  from finalize_view_change_inv [OF c(1) laws place(1,2) v place(3) this] c show ?thesis by simp
qed

lemma any_install_view_inv:
  assumes inv: "cs_inv A c" and laws: "handler_laws T A W M" and w: "cs_watermark c \<le> W" and room: "room M c"
    and v: "wf_view v" "distinct (vi_leader_set v)" and eq: "cs_install_view T A v c = Ok c'"
  shows "cs_inv A c' \<and> cs_seq_no c' = cs_seq_no c \<and> cs_watermark c' = cs_watermark c"
proof (cases "\<exists>k. index_seq A (vi_seq v) (vi_seq (cs_curr_view c)) = Inr (Suc k)")
  case True
  then show ?thesis using cs_install_view_inv [OF inv laws w room v] eq by auto
next
  case False
  then have "c' = c" using eq
    by (cases "index_seq A (vi_seq v) (vi_seq (cs_curr_view c))") (auto simp: cs_install_view_def gr0_conv_Suc split: if_splits)
  then show ?thesis using inv by simp
qed

subsection \<open>Runs\<close>

text \<open>
  What the rest of the replica sees: a batch to execute, the decision of a proof the handler caught up
  with, or a jump to an installed number.
\<close>

datatype 'o event = Delivered "'o CompletedBatch" | CaughtUp SeqNo | Installed SeqNo

text \<open>The proposer's thread on the guard it shares with the handler.\<close>

inductive guard_step :: "ProposerConsensusGuard \<Rightarrow> ProposerConsensusGuard \<Rightarrow> bool" where
  "guard_step g (fst (next_seq_no g))"
| "guard_step g (sync_messages_clear g)"
| "guard_step g (lock_consensus g)"
| "guard_step g (unlock_consensus g)"

inductive handler_step :: "'o pbft_tbo \<Rightarrow> atlas \<Rightarrow> SynchronizerRole \<Rightarrow> nat \<Rightarrow> 'o Consensus
    \<Rightarrow> 'o event list \<Rightarrow> 'o Consensus \<Rightarrow> bool" for T A role M where
  polled: "cs_poll A c = (c', r) \<Longrightarrow> handler_step T A role M c [] c'"
| queued: "is_consensus (msg m) \<Longrightarrow> cs_queue T A m c = Ok c' \<Longrightarrow> handler_step T A role M c [] c'"
| processed: "is_consensus (msg m) \<Longrightarrow> cs_process_message T A role nn (cs_curr_view c) m c = (c', es, r) \<Longrightarrow>
    handler_step T A role M c [] c'"
| finalized: "Suc (cs_seq_no c + cs_watermark c) < M \<Longrightarrow>
    cs_finalize T A (cs_curr_view c) c = (c', es, Ok (Some b)) \<Longrightarrow> handler_step T A role M c [Delivered b] c'"
| background: "i < length (cs_decisions c) \<Longrightarrow>
    c' = c\<lparr>cs_decisions := (cs_decisions c)[i := dn_run_speculative (cs_decisions c ! i)]\<rparr> \<Longrightarrow>
    handler_step T A role M c [] c'"
| proposer: "guard_step (cs_consensus_guard c) g \<Longrightarrow>
    handler_step T A role M c [] (c\<lparr>cs_consensus_guard := g\<rparr>)"
| installed: "n + cs_watermark c < M \<Longrightarrow>
    install_sequence_number T A n (cs_curr_view c) c = Ok c' \<Longrightarrow> handler_step T A role M c [Installed n] c'"
| view_changed: "wf_view v \<Longrightarrow> distinct (vi_leader_set v) \<Longrightarrow>
    index_seq A (vi_seq v) (vi_seq (cs_curr_view c)) = Inr (Suc k) \<Longrightarrow>
    finalize_view_change T A role nn (h, m) v v c = (c', es, r) \<Longrightarrow> handler_step T A role M c [] c'"
| caught_up: "Suc (cs_seq_no c + cs_watermark c) < M \<Longrightarrow> wf_view v \<Longrightarrow> distinct (vi_leader_set v) \<Longrightarrow>
    index_seq A (vi_seq v) (vi_seq (cs_curr_view c)) = Inr (Suc k) \<Longrightarrow>
    catch_up_to_quorum T A v p log c = (c1, log', es1, Ok d) \<Longrightarrow>
    finalize_view_change T A role nn (h, m) v v c1 = (c', es, r) \<Longrightarrow>
    handler_step T A role M c [CaughtUp (Proof_sequence_number p)] c'"
| view_installed: "wf_view v \<Longrightarrow> distinct (vi_leader_set v) \<Longrightarrow> cs_install_view T A v c = Ok c' \<Longrightarrow>
    handler_step T A role M c [] c'"

inductive handler_run :: "'o pbft_tbo \<Rightarrow> atlas \<Rightarrow> SynchronizerRole \<Rightarrow> nat \<Rightarrow> 'o Consensus
    \<Rightarrow> 'o event list \<Rightarrow> 'o Consensus \<Rightarrow> bool" for T A role M c0 where
  start: "handler_run T A role M c0 [] c0"
| step: "handler_run T A role M c0 tr c \<Longrightarrow> handler_step T A role M c es c' \<Longrightarrow>
    handler_run T A role M c0 (tr @ es) c'"

text \<open>
  The total order: every batch has the number that is due, which then moves on by one. Catching
  up moves it on by one as well, whatever number the proof has.
\<close>

fun due_after :: "SeqNo \<Rightarrow> 'o event list \<Rightarrow> SeqNo option" where
  "due_after s [] = Some s"
| "due_after s (Delivered b # es) = (if cb_seq b = s then due_after (Suc s) es else None)"
| "due_after s (CaughtUp n # es) = due_after (Suc s) es"
| "due_after s (Installed n # es) = due_after n es"

lemma due_after_append: "due_after s (es @ es') = Option.bind (due_after s es) (\<lambda>t. due_after t es')"
  by (induction s es rule: due_after.induct) auto

definition reached :: "atlas \<Rightarrow> nat \<Rightarrow> nat \<Rightarrow> 'o Consensus \<Rightarrow> bool" where
  "reached A W M c \<longleftrightarrow> cs_inv A c \<and> cs_watermark c \<le> W \<and> room M c"

lemma reached_same_place: "reached A W M c \<Longrightarrow> cs_inv A c' \<Longrightarrow> same_place c c' \<Longrightarrow> reached A W M c'"
  by (simp add: reached_def same_place_def room_def)

lemma guard_step_ok: "guard_step g g' \<Longrightarrow> guard_ok g \<Longrightarrow> guard_ok g'"
  by (induction rule: guard_step.induct) auto

lemma background_inv:
  assumes "cs_inv A c" and "i < length (cs_decisions c)"
  shows "cs_inv A (c\<lparr>cs_decisions := (cs_decisions c)[i := dn_run_speculative (cs_decisions c ! i)]\<rparr>)"
proof -
  let ?d = "cs_decisions c ! i"
  note w = cs_invD(1) [OF assms(1)]
  have same: "dn_message_queue (dn_run_speculative ?d) = dn_message_queue ?d"
    "dn_phase (dn_run_speculative ?d) = dn_phase ?d"
    by (simp_all add: dn_run_speculative_def split: ConsensusDecisionAccessory.splits)
  have "inst_ok A (cs_curr_view c) (dn_run_speculative ?d)" "awake (dn_run_speculative ?d) = awake ?d"
    using window_inst [OF w assms(2)] dn_run_speculative_inv [of A "cs_curr_view c" ?d] same
      stage_pending [of "dn_run_speculative ?d" ?d]
    by (simp_all add: inst_ok_def dn_run_speculative_keeps)
  then have "cs_inv A (c\<lparr>cs_signalled := cs_signalled c,
      cs_decisions := (cs_decisions c)[i := dn_run_speculative ?d]\<rparr>)"
    by - (rule update_inst_inv [OF assms(1)],
        use assms(2) cs_invD(2) [OF assms(1)] window_nth_seq [OF w assms(2)] window_awake [OF w assms(2)]
          window_signalsD [OF w] in \<open>auto simp: dn_run_speculative_keeps\<close>)
  then show ?thesis by simp
qed

lemma handler_step_ok:
  assumes "handler_step T A role M c es c'" and laws: "handler_laws T A W M" and "reached A W M c"
  shows "reached A W M c' \<and> due_after (cs_seq_no c) es = Some (cs_seq_no c')"
  using assms(1)
proof cases
  have inv: "cs_inv A c" and w: "cs_watermark c \<le> W" and rm: "room M c" and s: "cs_seq_no c < M"
    using assms(3) by (simp_all add: reached_def room_def)
  note place = reached_same_place [OF assms(3)]
  {
    case (polled r)
    then have "cs_inv A c'" "same_place c c'"
      using cs_poll_ok [OF inv handler_lawsD(3,2) [OF laws] w rm] by (simp_all add: poll_ok_def)
    then show ?thesis using polled place by (simp add: same_place_def)
  next
    case (queued m)
    then show ?thesis using cs_queue_inv [OF inv laws w rm queued(2)] place by (auto simp: same_place_def)
  next
    case (processed m nn es' r)
    then show ?thesis
      using cs_process_inv [OF inv laws w rm processed(2,3)] place by (auto simp: same_place_def)
  next
    case (finalized es' b)
    have "can_finalize c"
      using finalized(3) by (auto simp: cs_finalize_def can_finalize_def split: list.splits if_splits)
    with finalized show ?thesis using cs_finalize_inv [OF inv laws finalized(2)] w
      by (auto simp: reached_def room_def)
  next
    case (background i)
    then show ?thesis using place background_inv [OF inv background(2)] by (simp add: same_place_def)
  next
    case (proposer g)
    then show ?thesis using place guard_update_inv [OF inv guard_step_ok [OF proposer(3) cs_invD(9) [OF inv]]]
      by (simp add: same_place_def)
  next
    case (installed n)
    then show ?thesis using install_sequence_number_inv [OF inv laws installed(2) s] w
      by (auto simp: reached_def room_def moved_to_def)
  next
    case (view_changed v k nn h m es' r)
    then show ?thesis
      using finalize_view_change_inv [OF inv laws w rm view_changed(2-5)] w rm by (auto simp: reached_def room_def)
  next
    case (caught_up v k p log c1 log' es1 d nn h m es' r)
    then show ?thesis
      using caught_up_inv [OF inv laws w caught_up(2-7)] w by (auto simp: reached_def room_def)
  next
    case (view_installed v)
    then show ?thesis
      using any_install_view_inv [OF inv laws w rm view_installed(2-4)] w rm by (auto simp: reached_def room_def)
  }
qed

subsection \<open>Properties of runs\<close>

definition started :: "'o pbft_tbo \<Rightarrow> atlas \<Rightarrow> SynchronizerRole \<Rightarrow> nat \<Rightarrow> nat \<Rightarrow> NodeId \<Rightarrow> ViewInfo \<Rightarrow> SeqNo
    \<Rightarrow> nat \<Rightarrow> 'o event list \<Rightarrow> 'o Consensus \<Rightarrow> bool" where
  \<comment> \<open>a run of a new replica with a sensible configuration\<close>
  "started T A role W M node v s w tr c \<longleftrightarrow>
     handler_laws T A W M \<and> wf_view v \<and> distinct (vi_leader_set v) \<and> 0 < w \<and> w \<le> W \<and> s + w < M \<and>
     handler_run T A role M (Consensus_new_replica A node v s w (ProposerConsensusGuard_new v)) tr c"

lemma new_replica_place:
  "cs_seq_no (Consensus_new_replica A node v s w g) = s" "cs_watermark (Consensus_new_replica A node v s w g) = w"
  "cs_curr_view (Consensus_new_replica A node v s w g) = v"
  "cs_tbo_queue (Consensus_new_replica A node v s w g) = TboQueue_new s w"
proof -
  have keep: "cs_seq_no (fill_decisions A v q c) = cs_seq_no c \<and> cs_watermark (fill_decisions A v q c) = cs_watermark c \<and>
      cs_curr_view (fill_decisions A v q c) = cs_curr_view c \<and> cs_tbo_queue (fill_decisions A v q c) = cs_tbo_queue c"
    for q and c :: "'o Consensus"
    by (induction A v q c rule: fill_decisions.induct) (subst (1 2 3 4) fill_decisions.simps, simp)
  show "cs_seq_no (Consensus_new_replica A node v s w g) = s" "cs_watermark (Consensus_new_replica A node v s w g) = w"
    "cs_curr_view (Consensus_new_replica A node v s w g) = v"
    "cs_tbo_queue (Consensus_new_replica A node v s w g) = TboQueue_new s w"
    by (simp_all add: Consensus_new_replica_def keep)
qed

lemma handler_run_reached:
  assumes "handler_run T A role M c0 tr c" and "handler_laws T A W M" and "reached A W M c0"
  shows "reached A W M c \<and> due_after (cs_seq_no c0) tr = Some (cs_seq_no c)"
  using assms(1)
proof induction
  case start
  then show ?case using assms(3) by simp
next
  case (step tr c es c')
  then show ?case using handler_step_ok [OF step(2) assms(2)] by (simp add: due_after_append)
qed

lemma started_reached:
  assumes "started T A role W M node v s w tr c"
  shows "reached A W M c" "due_after s tr = Some (cs_seq_no c)" "handler_laws T A W M"
proof -
  let ?c0 = "Consensus_new_replica A node v s w (ProposerConsensusGuard_new v) :: 'a Consensus"
  have a: "handler_laws T A W M" "wf_view v" "distinct (vi_leader_set v)" "0 < w" "w \<le> W" "s + w < M"
    "handler_run T A role M ?c0 tr c"
    using assms by (simp_all add: started_def)
  have "cs_inv A ?c0" by (rule new_replica_inv [OF handler_lawsD(3,2) [OF a(1)] a(6,4,2,3)]) (rule guard_ok_ops)
  then have "reached A W M ?c0" using a(5,6) by (simp add: reached_def new_replica_place room_def)
  from handler_run_reached [OF a(7,1) this] show "reached A W M c" "due_after s tr = Some (cs_seq_no c)"
    by (simp_all add: new_replica_place)
  show "handler_laws T A W M" by (rule a)
qed

lemma reachedD:
  assumes "reached A W M c"
  shows "cs_inv A c" "cs_watermark c \<le> W" "room M c" "cs_seq_no c < M"
  using assms by (simp_all add: reached_def room_def)

text \<open>
  C5. Total order. Whatever messages arrive and however the operations of the handler, background tasks and
  the proposer interleave, every batch the handler finalizes carries the number that is due: it starts
  at the number the handler was created with, moves on by one with each batch, moves on by one when the handler
  catches up in a view change, whatever number the proof has, and is set by an installed sequence number. The
  window always holds the consecutive instances that start at the number due next.
\<close>

theorem handler_total_order:
  assumes "started T A role W M node v s w tr c"
  shows "due_after s tr = Some (cs_seq_no c) \<and>
    map dn_seq (cs_decisions c) = [cs_seq_no c..<cs_seq_no c + cs_watermark c]"
  using started_reached [OF assms] cs_invD(1,2) [OF reachedD(1) [OF started_reached(1) [OF assms]]]
  by (simp add: window_ok_def)

text \<open>
  C8. In every state of a run no operation of the handler panics: polling never indexes past the
  window, queueing and processing any consensus message succeed or report an error, the front
  of the window is never missing when a batch is finalized, and both assertions at the end of
  \<open>install_sequence_number\<close> hold for any number below the wrap-around.
\<close>

theorem handler_never_panics:
  assumes "started T A role W M node v s w tr c"
  shows "snd (cs_poll A c) \<noteq> Panic \<and>
    (is_consensus (msg m) \<longrightarrow> cs_queue T A m c \<noteq> Panic \<and>
       snd (snd (cs_process_message T A role nn (cs_curr_view c) m c)) \<noteq> Panic) \<and>
    (Suc (cs_seq_no c + cs_watermark c) < M \<longrightarrow> snd (snd (cs_finalize T A (cs_curr_view c) c)) \<noteq> Panic) \<and>
    (n + cs_watermark c < M \<longrightarrow> install_sequence_number T A n (cs_curr_view c) c \<noteq> Panic)"
proof -
  note laws = started_reached(3) [OF assms] and r = reachedD [OF started_reached(1) [OF assms]]
  have "snd (cs_poll A c) \<noteq> Panic"
    using cs_poll_ok [OF r(1) handler_lawsD(3,2) [OF laws] r(2,3)] by (auto simp: poll_ok_def)
  moreover have "cs_queue T A m c \<noteq> Panic \<and>
      snd (snd (cs_process_message T A role nn (cs_curr_view c) m c)) \<noteq> Panic" if "is_consensus (msg m)"
    using cs_queue_inv [OF r(1) laws r(2,3) that] cs_process_inv [OF r(1) laws r(2,3) that, of role nn]
    by (cases "cs_process_message T A role nn (cs_curr_view c) m c") auto
  moreover have "snd (snd (cs_finalize T A (cs_curr_view c) c)) \<noteq> Panic" if "Suc (cs_seq_no c + cs_watermark c) < M"
  proof (cases "can_finalize c")
    case True
    then show ?thesis using cs_finalize_inv [OF r(1) laws that] by auto
  next
    case False
    then show ?thesis using cs_invD(2,3) [OF r(1)]
      by (auto simp: cs_finalize_def can_finalize_def split: list.splits)
  qed
  moreover have "install_sequence_number T A n (cs_curr_view c) c \<noteq> Panic" if "n + cs_watermark c < M"
    using install_sequence_number_inv [OF r(1) laws that r(4)] by auto
  ultimately show ?thesis by blast
qed

text \<open>
  C6. No message is left behind. When polling answers that new messages have to be received (or
  that an instance is decided), every instance of the window has asked for its proposal and
  none has a queued message left that its phase can take, whatever was queued before.
\<close>

theorem poll_leaves_nothing:
  assumes "started T A role W M node v s w tr c" and "cs_poll A c = (c', Ok st)"
    and "\<And>m. st \<noteq> ConsensusPollStatus.NextMessage m"
  shows "list_all (\<lambda>d. dn_phase d \<noteq> Initialize \<and> pending d = []) (cs_decisions c') \<and>
    st = (if can_finalize c' then ConsensusPollStatus.Decided [] else ConsensusPollStatus.Recv)"
proof -
  note laws = started_reached(3) [OF assms(1)] and r = reachedD [OF started_reached(1) [OF assms(1)]]
  have "poll_ok A c (c', Ok st)"
    using cs_poll_ok [OF r(1) handler_lawsD(3,2) [OF laws] r(2,3)] assms(2) by simp
  then show ?thesis
    using assms(3) by (cases st) (auto simp: poll_ok_def awake_def list_all_iff)
qed

text \<open>
  C7. A batch that the handler finalizes is the one of the instance at the front of the window: it
  has the number that is due and the digest of that instance, whose log holds \<open>COMMIT\<close>s of a
  quorum of distinct replicas for this digest in the current view.
\<close>

theorem finalized_by_quorum:
  assumes "started T A role W M node v s w tr c" and "can_finalize c"
    and "Suc (cs_seq_no c + cs_watermark c) < M"
  shows "\<exists>c' b. cs_finalize T A (cs_curr_view c) c = (c', [], Ok (Some b)) \<and> cb_seq b = cs_seq_no c \<and>
    (let commits = ml_commits (wl_message_log (dn_working_log (hd (cs_decisions c)))) in
     card (sender ` set commits) = view_quorum (cs_curr_view c) \<and>
     list_all (\<lambda>m. commit_payload (vi_seq (cs_curr_view c)) (cb_seq b) (Some (cb_digest b)) (msg m)) commits)"
proof -
  note laws = started_reached(3) [OF assms(1)] and r = reachedD [OF started_reached(1) [OF assms(1)]]
  obtain d ds where ds: "cs_decisions c = d # ds" "dn_phase d = DecisionPhase.Decided"
    using assms(2) by (auto simp: can_finalize_def is_finalizeable_def split: list.splits)
  have d: "dn_inv A (cs_curr_view c) d" "dn_seq d = cs_seq_no c"
    using window_inst [OF cs_invD(1) [OF r(1)], of 0] window_nth_seq [OF cs_invD(1) [OF r(1)], of 0] ds(1)
    by (simp_all add: inst_ok_def)
  from cs_finalize_inv [OF r(1) laws assms(3,2)] decided_facts [OF d(1) ds(2)] ds(1) d(2)
  show ?thesis by (auto simp: list_all_iff)
qed

text \<open>
  The handler never reports that it is catching up: \<open>is_recovering\<close> starts as false and no
  operation sets it, so the branch that ignores time-outs while catching up is never taken.
\<close>

theorem never_catching_up:
  assumes "started T A role W M node v s w tr c"
  shows "\<not> is_catching_up c"
  using cs_invD(11) [OF reachedD(1) [OF started_reached(1) [OF assms]]] by (simp add: is_catching_up_def)

subsection \<open>Polling neither loses nor duplicates messages\<close>

definition queued_messages :: "'o MessageQueue \<Rightarrow> 'o StoredConsensusMessage multiset" where
  "queued_messages q = mset (mq_pre_prepares q) + mset (mq_prepares q) + mset (mq_commits q)"

definition all_queued :: "'o Consensus \<Rightarrow> 'o StoredConsensusMessage multiset" where
  "all_queued c = (\<Sum>d \<leftarrow> cs_decisions c. queued_messages (dn_message_queue d))"

definition handed_out :: "'o DecisionPollStatus \<Rightarrow> 'o StoredConsensusMessage multiset" where
  "handed_out st = (case st of DecisionPollStatus.NextMessage m \<Rightarrow> {#m#} | _ \<Rightarrow> {#})"

lemma dn_poll_conserves:
  "dn_poll d = (d', st) \<Longrightarrow>
   queued_messages (dn_message_queue d) = handed_out st + queued_messages (dn_message_queue d')"
  by (cases "dn_phase d")
    (auto simp: dn_poll_def Let_def queued_messages_def handed_out_def split: if_splits list.splits)

lemma sum_list_update_mset:
  fixes f :: "'a \<Rightarrow> 'b multiset"
  shows "i < length xs \<Longrightarrow> f (xs ! i) = h + f x \<Longrightarrow> (\<Sum>y \<leftarrow> xs. f y) = h + (\<Sum>y \<leftarrow> xs[i := x]. f y)"
proof (induction xs arbitrary: i)
  case (Cons y ys)
  show ?case
  proof (cases i)
    case (Suc j)
    then have "(\<Sum>y \<leftarrow> ys. f y) = h + (\<Sum>y \<leftarrow> ys[j := x]. f y)" using Cons by simp
    then show ?thesis using Suc by simp
  qed (use Cons.prems in simp)
qed simp

lemma with_polled_conserves:
  assumes "dn_poll (cs_decisions c ! i) = (d, st)" and "i < length (cs_decisions c)"
  shows "all_queued c = handed_out st + all_queued (with_polled sigs i d c)"
  using sum_list_update_mset [OF assms(2), where f = "\<lambda>d. queued_messages (dn_message_queue d)",
      OF dn_poll_conserves [OF assms(1)]]
  by (simp add: all_queued_def with_polled_def)

lemma offer_seq_queued [simp]: "all_queued (offer_seq s c) = all_queued c"
  by (simp add: all_queued_def offer_seq_def)

lemma poll_conserves:
  "case cs_poll A c of (c', r) \<Rightarrow>
     all_queued c = (case r of Ok (ConsensusPollStatus.NextMessage m) \<Rightarrow> {#m#} | _ \<Rightarrow> {#}) + all_queued c'"
proof (induction A c rule: cs_poll.induct)
  case (1 A c)
  show ?case
  proof (cases "pop_signalled (cs_signalled c)")
    case None
    then show ?thesis by (subst cs_poll.simps) simp
  next
    case (Some p)
    then obtain x sigs where pop: "pop_signalled (cs_signalled c) = Some (x, sigs)" by (cases p) simp
    show ?thesis
    proof (cases "index_seq A x (cs_seq_no c)")
      case (Inl e)
      have "cs_poll A c = cs_poll A (c\<lparr>cs_signalled := sigs\<rparr>)"
        by (subst cs_poll.simps) (simp add: pop Inl)
      then show ?thesis using "1.IH"(1) [OF pop refl Inl] by (simp add: all_queued_def)
    next
      case (Inr i)
      show ?thesis
      proof (cases "i < length (cs_decisions c)")
        case False
        then show ?thesis by (subst cs_poll.simps) (simp add: pop Inr all_queued_def)
      next
        case n: True
        obtain d st where p: "dn_poll (cs_decisions c ! i) = (d, st)" by fastforce
        have eq: "cs_poll A c =
            (case st of
               DecisionPollStatus.NextMessage m \<Rightarrow>
                 (with_polled (push_signalled x sigs) i d c, Ok (ConsensusPollStatus.NextMessage m))
             | TryPropose \<Rightarrow> cs_poll A (offer_seq x (with_polled (push_signalled x sigs) i d c))
             | _ \<Rightarrow> cs_poll A (with_polled sigs i d c))"
          by (subst cs_poll.simps) (simp add: pop Inr n p split: DecisionPollStatus.split)
        note c = with_polled_conserves [OF p n]
        show ?thesis
          using "1.IH"(2-4) [OF pop refl Inr n p [symmetric]] c unfolding eq
          by (cases st) (simp_all add: handed_out_def)
      qed
    qed
  qed
qed

text \<open>The loop of a client that takes messages until polling answers otherwise, for at most \<open>n\<close> rounds.\<close>

fun poll_all :: "nat \<Rightarrow> atlas \<Rightarrow> 'o Consensus
    \<Rightarrow> ('o StoredConsensusMessage list \<times> 'o Consensus \<times> ('o ConsensusPollStatus, unit) res) option" where
  "poll_all 0 A c = None"
| "poll_all (Suc n) A c =
     (case cs_poll A c of
        (c', Ok (ConsensusPollStatus.NextMessage m)) \<Rightarrow> map_option (\<lambda>(ms, out). (m # ms, out)) (poll_all n A c')
      | (c', r) \<Rightarrow> Some ([], c', r))"

lemma poll_all_ends:
  assumes "reached A W M c" and "handler_laws T A W M" and "size (all_queued c) < n"
  shows "\<exists>ms c'. poll_all n A c =
      Some (ms, c', Ok (if can_finalize c' then ConsensusPollStatus.Decided [] else ConsensusPollStatus.Recv)) \<and>
    all_queued c = mset ms + all_queued c' \<and> same_place c c' \<and>
    list_all (\<lambda>d. dn_phase d \<noteq> Initialize \<and> pending d = []) (cs_decisions c')"
  using assms(1,3)
proof (induction n arbitrary: c)
  case (Suc n)
  note r = reachedD [OF Suc.prems(1)]
  obtain c1 st where p: "cs_poll A c = (c1, st)" by fastforce
  have ok: "poll_ok A c (c1, st)" using cs_poll_ok [OF r(1) handler_lawsD(3,2) [OF assms(2)] r(2,3)] p by simp
  note q = poll_conserves [where A = A and c = c, unfolded p prod.case]
  obtain st' where st: "st = Ok st'" using ok by (cases st) (auto simp: poll_ok_def)
  have c1: "cs_inv A c1" "same_place c c1" using ok st by (auto simp: poll_ok_def)
  show ?case
  proof (cases "\<exists>m. st' = ConsensusPollStatus.NextMessage m")
    case True
    then obtain m where m: "st' = ConsensusPollStatus.NextMessage m" ..
    have q1: "all_queued c = add_mset m (all_queued c1)" using q by (simp add: st m)
    have "size (all_queued c1) < n" using Suc.prems(2) q1 by simp
    from Suc.IH [OF reached_same_place [OF Suc.prems(1) c1] this] obtain ms c' where
      "poll_all n A c1 = Some (ms, c', Ok (if can_finalize c' then ConsensusPollStatus.Decided [] else ConsensusPollStatus.Recv))"
      "all_queued c1 = mset ms + all_queued c'" "same_place c1 c'"
      "list_all (\<lambda>d. dn_phase d \<noteq> Initialize \<and> pending d = []) (cs_decisions c')" by blast
    then show ?thesis using q1 c1(2) by (auto simp: p st m same_place_def)
  next
    case False
    have "poll_all (Suc n) A c = Some ([], c1, Ok st')" using False by (cases st') (simp_all add: p st)
    moreover have "st' = (if can_finalize c1 then ConsensusPollStatus.Decided [] else ConsensusPollStatus.Recv)"
      "list_all (\<lambda>d. dn_phase d \<noteq> Initialize \<and> pending d = []) (cs_decisions c1)"
      using ok st False by (cases st'; auto simp: poll_ok_def awake_def list_all_iff)+
    moreover have "all_queued c = all_queued c1" using q False by (cases st') (simp_all add: st)
    ultimately show ?thesis using c1(2) by simp
  qed
qed simp

text \<open>
  C23. Polling comes to an end and neither loses nor duplicates a message. Taking messages until
  polling answers that it has none ends after at most one round more than messages are queued. What was taken
  out and what is still queued are together exactly what was queued before, what is still queued no
  instance of the window can take in its phase, the window has not moved, and the answer is that an
  instance is decided if the first one is, and that messages have to be received otherwise.
\<close>

theorem polling_ends:
  assumes "started T A role W M node v s w tr c"
  shows "\<exists>ms c'. poll_all (Suc (size (all_queued c))) A c =
      Some (ms, c', Ok (if can_finalize c' then ConsensusPollStatus.Decided [] else ConsensusPollStatus.Recv)) \<and>
    all_queued c = mset ms + all_queued c' \<and> same_place c c' \<and>
    list_all (\<lambda>d. dn_phase d \<noteq> Initialize \<and> pending d = []) (cs_decisions c')"
  by (rule poll_all_ends [OF started_reached(1,3) [OF assms]]) simp

subsection \<open>Messages of later instances\<close>

lemma advance_slots:
  assumes "tbo_laws T A"
  shows "slot (tq_pre_prepares (((\<lambda>q. fst (advance_queue T A q)) ^^ j) q)) i = slot (tq_pre_prepares q) (i + j)"
    "slot (tq_prepares (((\<lambda>q. fst (advance_queue T A q)) ^^ j) q)) i = slot (tq_prepares q) (i + j)"
    "slot (tq_commits (((\<lambda>q. fst (advance_queue T A q)) ^^ j) q)) i = slot (tq_commits q) (i + j)"
  by (induction j arbitrary: i)
    (simp_all add: advance_queue_parts tbo_return_slot [OF assms])

lemma tq_queue_slots:
  assumes "handler_laws T A W M" and "j < W" and "base_seq A q + j < M" and "msg m = ConsensusMsg x"
    and "cm_seq x = base_seq A q + j" and "tq_queue T A m q = Ok q'"
  shows "let mq = snd (advance_queue T A (((\<lambda>q. fst (advance_queue T A q)) ^^ j) q')) in
    case cm_kind x of
      PrePrepare _ \<Rightarrow> mq_pre_prepares mq = slot (tq_pre_prepares q) j @ [m]
    | Prepare _ \<Rightarrow> mq_prepares mq = slot (tq_prepares q) j @ [m]
    | Commit _ \<Rightarrow> mq_commits mq = slot (tq_commits q) j @ [m]"
proof -
  note T = handler_lawsD(1) [OF assms(1)]
  have "index_seq A (seq_of A m) (base_seq A q) = Inr j"
    using index_seq_window [OF handler_lawsD(2) [OF assms(1)] assms(2), of "base_seq A q"]
      seq_at_linear [OF handler_lawsD(3) [OF assms(1)] assms(3)] assms(4,5)
    by (simp add: PBFTMessage_sequence_number_def)
  with assms(4,6) show ?thesis
    by (cases "cm_kind x")
      (auto simp: Let_def advance_queue_parts(6) tbo_return_head [OF T] advance_slots [OF T] from_messages_def
        tq_queue_def tq_queue_pre_prepare_def tq_queue_prepare_def tq_queue_commit_def tbo_queue_slot [OF T])
qed

text \<open>The window moved on by \<open>k\<close> instances.\<close>

fun advance_instances :: "'o pbft_tbo \<Rightarrow> atlas \<Rightarrow> nat \<Rightarrow> 'o Consensus \<Rightarrow> ('o Consensus, unit) res" where
  "advance_instances T A 0 c = Ok c"
| "advance_instances T A (Suc k) c =
     res_bind (next_instance T A (cs_curr_view c) c) (\<lambda>(c, _, _). advance_instances T A k c)"

lemma next_instance_queues:
  assumes "next_instance T A v c = Ok (c', es, d)"
  shows "cs_tbo_queue c' = fst (advance_queue T A (cs_tbo_queue c))"
    "dn_message_queue (last (cs_decisions c')) = snd (advance_queue T A (cs_tbo_queue c))"
  using assms
  by (auto simp: next_instance_def enqueue_decision_def init_with_msg_log_def Let_def split: list.splits prod.splits)

lemma advance_instances_ok:
  assumes "cs_inv A c" and "handler_laws T A W M" and "Suc (cs_seq_no c + cs_watermark c + k) < M"
  shows "\<exists>c'. advance_instances T A (Suc k) c = Ok c' \<and> cs_inv A c' \<and> cs_seq_no c' = cs_seq_no c + Suc k \<and>
    cs_watermark c' = cs_watermark c \<and>
    dn_message_queue (last (cs_decisions c')) =
      snd (advance_queue T A (((\<lambda>q. fst (advance_queue T A q)) ^^ k) (cs_tbo_queue c)))"
  using assms(1,3)
proof (induction k arbitrary: c)
  case 0
  then show ?case
    using next_instance_ok [OF 0(1) assms(2), where 'e = unit] next_instance_queues(2) [of T A "cs_curr_view c" c]
    by fastforce
next
  case (Suc k)
  obtain c1 where c1: "next_instance T A (cs_curr_view c) c = (Ok (c1, [], hd (cs_decisions c)) :: (_, unit) res)"
    "cs_inv A c1" "cs_seq_no c1 = Suc (cs_seq_no c)" "cs_watermark c1 = cs_watermark c"
    using next_instance_ok [OF Suc.prems(1) assms(2), where 'e = unit] Suc.prems(2) by auto
  have "Suc (cs_seq_no c1 + cs_watermark c1 + k) < M" using Suc.prems(2) c1(3,4) by simp
  from Suc.IH [OF c1(2) this] obtain c2 where c2: "advance_instances T A (Suc k) c1 = Ok c2" "cs_inv A c2"
    "cs_seq_no c2 = cs_seq_no c1 + Suc k" "cs_watermark c2 = cs_watermark c1"
    "dn_message_queue (last (cs_decisions c2)) =
      snd (advance_queue T A (((\<lambda>q. fst (advance_queue T A q)) ^^ k) (cs_tbo_queue c1)))" by blast
  have "advance_instances T A (Suc (Suc k)) c = Ok c2" using c1(1) c2(1) by simp
  moreover have "((\<lambda>q. fst (advance_queue T A q)) ^^ k) (cs_tbo_queue c1) =
      ((\<lambda>q. fst (advance_queue T A q)) ^^ Suc k) (cs_tbo_queue c)"
    using next_instance_queues(1) [OF c1(1)] by (simp add: funpow_Suc_right del: funpow.simps)
  ultimately show ?case using c1(3,4) c2 by simp
qed

lemma cs_queue_later:
  assumes "cs_inv A c" and "handler_laws T A W M" and "msg m = ConsensusMsg x" and "cm_view x = vi_seq (cs_curr_view c)"
    and "cm_seq x = cs_seq_no c + cs_watermark c + j" and "cs_watermark c + j < W" and "cm_seq x < M"
  shows "\<exists>q. tq_queue T A m (cs_tbo_queue c) = Ok q \<and> cs_queue T A m c = Ok (c\<lparr>cs_tbo_queue := q\<rparr>)"
proof -
  note seqs = handler_lawsD(2) [OF assms(2)]
  have "index_seq A (cm_seq x) (cs_seq_no c) = Inr (cs_watermark c + j)"
    using index_seq_window [OF seqs assms(6), of "cs_seq_no c"]
      seq_at_linear [OF handler_lawsD(3) [OF assms(2)], of "cs_seq_no c" "cs_watermark c + j"] assms(5,7)
    by (simp add: add.assoc)
  moreover have "index_seq A (cm_view x) (vi_seq (cs_curr_view c)) = Inr 0"
    using index_seq_self [OF seqs] assms(4,6) by simp
  moreover have "length (cs_decisions c) \<le> cs_watermark c + j" using cs_invD(2) [OF assms(1)] by simp
  moreover obtain q where "tq_queue T A m (cs_tbo_queue c) = Ok q"
    using assms(3) by (cases "cm_kind x") (auto simp: tq_queue_def)
  ultimately show ?thesis using assms(3) by (simp add: cs_queue_def PBFTMessage_sequence_number_def)
qed

text \<open>
  C24. A message of an instance past the window is not lost. If the handler queues a message of its
  view for the number that is \<open>j\<close> past the end of the window, then once the window has moved on by
  \<open>j + 1\<close> instances, its last instance has this number, and the message is the last one of its kind
  in the queue of that instance, behind the ones the handler held for it before.
\<close>

theorem later_message_delivered:
  assumes "started T A role W M node v s w tr c" and "msg m = ConsensusMsg x" and "cm_view x = vi_seq (cs_curr_view c)"
    and "cm_seq x = cs_seq_no c + cs_watermark c + j" and "cs_watermark c + j < W" and "Suc (cm_seq x) < M"
  shows "\<exists>c1 c2. cs_queue T A m c = Ok c1 \<and> advance_instances T A (Suc j) c1 = Ok c2 \<and>
    cs_seq_no c2 = cs_seq_no c + Suc j \<and> dn_seq (last (cs_decisions c2)) = cm_seq x \<and>
    (let mq = dn_message_queue (last (cs_decisions c2)); q = cs_tbo_queue c in
     case cm_kind x of
       PrePrepare _ \<Rightarrow> mq_pre_prepares mq = slot (tq_pre_prepares q) j @ [m]
     | Prepare _ \<Rightarrow> mq_prepares mq = slot (tq_prepares q) j @ [m]
     | Commit _ \<Rightarrow> mq_commits mq = slot (tq_commits q) j @ [m])"
proof -
  note laws = started_reached(3) [OF assms(1)] and r = reachedD [OF started_reached(1) [OF assms(1)]]
  let ?q = "cs_tbo_queue c"
  have base: "base_seq A ?q = cs_seq_no c + cs_watermark c"
    using base_linear [OF handler_lawsD(3) [OF laws], of ?q] cs_invD(7,8) [OF r(1)] r(3) by (simp add: room_def)
  obtain q where q: "tq_queue T A m ?q = Ok q" "cs_queue T A m c = Ok (c\<lparr>cs_tbo_queue := q\<rparr>)"
    using cs_queue_later [OF r(1) laws assms(2-5)] assms(6) by auto
  let ?c1 = "c\<lparr>cs_tbo_queue := q\<rparr>"
  have "is_consensus (msg m)" using assms(2) by (simp add: is_consensus_def)
  then have "cs_inv A ?c1" using cs_queue_inv [OF r(1) laws r(2,3), of m] q(2) by auto
  moreover have "Suc (cs_seq_no ?c1 + cs_watermark ?c1 + j) < M" using assms(4,6) by simp
  ultimately obtain c2 where c2: "advance_instances T A (Suc j) ?c1 = Ok c2" "cs_inv A c2"
    "cs_seq_no c2 = cs_seq_no c + Suc j" "cs_watermark c2 = cs_watermark c"
    "dn_message_queue (last (cs_decisions c2)) = snd (advance_queue T A (((\<lambda>q. fst (advance_queue T A q)) ^^ j) q))"
    using advance_instances_ok [OF _ laws, of ?c1 j] by auto
  have len: "length (cs_decisions c2) = cs_watermark c" "0 < cs_watermark c"
    using cs_invD(2,3) [OF c2(2)] c2(4) by simp_all
  then have "last (cs_decisions c2) = cs_decisions c2 ! (cs_watermark c - 1)" by (metis last_conv_nth length_greater_0_conv)
  then have "dn_seq (last (cs_decisions c2)) = cm_seq x"
    using window_nth_seq [OF cs_invD(1) [OF c2(2)], of "cs_watermark c - 1"] c2(3) assms(4) len by simp
  then show ?thesis
    using q(2) c2(1,3,5) tq_queue_slots [OF laws _ _ assms(2) _ q(1), of j] assms(4-6) base
    by (cases "cm_kind x") (simp_all add: Let_def)
qed

subsection \<open>A concrete run\<close>

text \<open>The single replica of the quorum of one, driven through the handler from number 5.\<close>

abbreviation solo_tbo :: "nat pbft_tbo" where
  "solo_tbo \<equiv> sample_tbo"

definition solo_process :: "nat StoredConsensusMessage \<Rightarrow> nat Consensus \<Rightarrow> nat Consensus" where
  "solo_process m c = fst (cs_process_message solo_tbo sample_atlas ReplicaSynchronizer (0, 0) (cs_curr_view c) m c)"

definition solo_new :: "nat Consensus" where
  "solo_new = Consensus_new_replica sample_atlas 0 solo_view 5 2 (ProposerConsensusGuard_new solo_view)"

lemma solo_new_place:
  "cs_seq_no solo_new = 5" "cs_watermark solo_new = 2" "vi_seq (cs_curr_view solo_new) = 0"
  "slot (tq_commits (cs_tbo_queue solo_new)) i = []"
  by (simp_all add: solo_new_def new_replica_place TboQueue_new_def slot_def solo_view_def)

definition solo_ready :: "nat Consensus" where
  "solo_ready = solo_process (sample_commit 0) (solo_process (sample_prepare 0)
     (solo_process sample_pre_prepare (fst (cs_poll sample_atlas solo_new))))"

lemma solo_laws: "handler_laws solo_tbo sample_atlas 2 100"
  by (simp add: handler_laws_def sample_tbo_laws sample_seq_linear)

lemma solo_process_step:
  "handler_run solo_tbo sample_atlas ReplicaSynchronizer 100 solo_new tr c \<Longrightarrow> is_consensus (msg m) \<Longrightarrow>
   handler_run solo_tbo sample_atlas ReplicaSynchronizer 100 solo_new tr (solo_process m c)"
  using handler_run.step [OF _ handler_step.processed [of m solo_tbo sample_atlas ReplicaSynchronizer "(0, 0)" c]]
  by (metis append_Nil2 prod.collapse solo_process_def)

lemma solo_ready_run: "started solo_tbo sample_atlas ReplicaSynchronizer 2 100 0 solo_view 5 2 [] solo_ready"
proof -
  let ?run = "handler_run solo_tbo sample_atlas ReplicaSynchronizer 100 solo_new []"
  have "?run solo_new" by (rule handler_run.start)
  then have "handler_run solo_tbo sample_atlas ReplicaSynchronizer 100 solo_new ([] @ []) (fst (cs_poll sample_atlas solo_new))"
    by (rule handler_run.step) (rule handler_step.polled [OF prod.collapse [symmetric]])
  then have "?run (fst (cs_poll sample_atlas solo_new))" by simp
  then have "?run solo_ready"
    unfolding solo_ready_def
    by (intro solo_process_step) (simp_all add: sample_pre_prepare_def sample_prepare_def sample_commit_def is_consensus_def)
  then show ?thesis
    using solo_laws solo_view_wf by (simp add: started_def solo_new_def)
qed

lemma solo_ready_place: "cs_seq_no solo_ready = 5" "cs_watermark solo_ready = 2" "can_finalize solo_ready"
  by code_simp+

theorem finalized_by_quorum_witness:
  "\<exists>c b. cs_finalize solo_tbo sample_atlas (cs_curr_view solo_ready) solo_ready = (c, [], Ok (Some b)) \<and> cb_seq b = 5"
  using finalized_by_quorum [OF solo_ready_run solo_ready_place(3)] solo_ready_place(1,2) by auto

theorem never_catching_up_witness: "\<not> is_catching_up solo_ready"
  by (rule never_catching_up [OF solo_ready_run])

theorem handler_never_panics_witness:
  "snd (cs_poll sample_atlas solo_ready) \<noteq> Panic \<and>
   cs_queue solo_tbo sample_atlas (sample_commit 3) solo_ready \<noteq> Panic \<and>
   install_sequence_number solo_tbo sample_atlas 50 (cs_curr_view solo_ready) solo_ready \<noteq> Panic"
proof -
  have "is_consensus (msg (sample_commit 3))" by (simp add: sample_commit_def is_consensus_def)
  then show ?thesis
    using handler_never_panics [OF solo_ready_run, of "sample_commit 3" _ 50] solo_ready_place(2) by simp
qed

theorem poll_leaves_nothing_witness:
  "\<exists>c. cs_poll sample_atlas solo_ready = (c, Ok (ConsensusPollStatus.Decided [])) \<and> can_finalize c \<and>
     list_all (\<lambda>d. dn_phase d \<noteq> Initialize \<and> pending d = []) (cs_decisions c)"
proof -
  have "case snd (cs_poll sample_atlas solo_ready) of Ok (ConsensusPollStatus.Decided ds) \<Rightarrow> True | _ \<Rightarrow> False"
    by code_simp
  then obtain c ds where c: "cs_poll sample_atlas solo_ready = (c, Ok (ConsensusPollStatus.Decided ds))"
    by (cases "cs_poll sample_atlas solo_ready")
      (auto split: res.splits ConsensusPollStatus.splits)
  from poll_leaves_nothing [OF solo_ready_run c] c show ?thesis by (auto split: if_splits)
qed

theorem handler_total_order_witness:
  "\<exists>c b. cs_finalize solo_tbo sample_atlas (cs_curr_view solo_ready) solo_ready = (c, [], Ok (Some b)) \<and>
     due_after 5 [Delivered b] = Some (cs_seq_no c) \<and> map dn_seq (cs_decisions c) = [6, 7]"
proof -
  let ?A = sample_atlas
  have r: "reached ?A 2 100 solo_ready" by (rule started_reached(1) [OF solo_ready_run])
  obtain c b where f: "cs_finalize solo_tbo ?A (cs_curr_view solo_ready) solo_ready = (c, [], Ok (Some b))"
    "cs_seq_no c = 6" "cs_watermark c = 2"
    using cs_finalize_inv [OF reachedD(1) [OF r] solo_laws _ solo_ready_place(3)] solo_ready_place(1,2) by auto
  have "handler_run solo_tbo ?A ReplicaSynchronizer 100 solo_new ([] @ [Delivered b]) c"
    by (rule handler_run.step [of _ _ _ _ _ _ solo_ready], use solo_ready_run in \<open>simp add: started_def solo_new_def\<close>)
      (rule handler_step.finalized [OF _ f(1)], simp add: solo_ready_place)
  then have "started solo_tbo ?A ReplicaSynchronizer 2 100 0 solo_view 5 2 [Delivered b] c"
    using solo_ready_run by (simp add: started_def solo_new_def)
  from handler_total_order [OF this] f show ?thesis by (auto simp: upt_rec)
qed

definition later_commit :: "nat StoredConsensusMessage" where
  "later_commit = StoredMessage (Header 3 [] []) (ConsensusMsg (ConsensusMessage 9 0 0 (Commit [7])))"

theorem later_message_delivered_witness:
  "\<exists>c1 c2. cs_queue solo_tbo sample_atlas later_commit solo_new = Ok c1 \<and>
     advance_instances solo_tbo sample_atlas 3 c1 = Ok c2 \<and> cs_seq_no c2 = 8 \<and> dn_seq (last (cs_decisions c2)) = 9 \<and>
     mq_commits (dn_message_queue (last (cs_decisions c2))) = [later_commit]"
proof -
  have "started solo_tbo sample_atlas ReplicaSynchronizer 5 100 0 solo_view 5 2 [] solo_new"
    using solo_view_wf
    by (simp add: started_def solo_new_def handler_laws_def sample_tbo_laws sample_seq_linear handler_run.start)
  from later_message_delivered [OF this, where m = later_commit and x = "ConsensusMessage 9 0 0 (Commit [7])" and j = 2]
  show ?thesis
    by (simp add: later_commit_def solo_new_place Let_def eval_nat_numeral)
qed

theorem polling_ends_witness:
  "\<exists>ms c. poll_all (Suc (size (all_queued solo_ready))) sample_atlas solo_ready =
     Some (ms, c, Ok (if can_finalize c then ConsensusPollStatus.Decided [] else ConsensusPollStatus.Recv)) \<and>
     all_queued solo_ready = mset ms + all_queued c"
  using polling_ends [OF solo_ready_run] by blast

end
