(* ===== verification/StateTransfer.thy ===== *)
theory StateTransfer
  imports Atlas "HOL-Library.AList" "HOL-Library.Multiset"
begin

text \<open>
  The collaborative state transfer protocol of \<open>febft-state-transfer/src/lib.rs\<close> and its messages
  (\<open>febft-state-transfer/src/message/mod.rs\<close>): a replica asks the others for the number of their
  latest checkpoint, then for the checkpoint itself, and answers such requests from its own.

  A \<open>Checkpoint\<close> belongs to \<open>atlas_core\<close> and is represented by its accessors; a \<open>NetworkView\<close> by
  the three numbers the code asks it for. \<open>HashMap\<close>s are association lists. Their iteration
  order is arbitrary, so every iteration goes through a permutation that is a field of the
  parameter \<open>cst_env\<close>, together with the outcomes of the calls whose failure the code handles:
  sending a reply, acknowledging at the time-outs, handing the state to the executor and writing
  a checkpoint. \<open>env_laws\<close> says that the iteration orders are permutations.

  A \<open>Duration\<close> is its number of nanoseconds; multiplying it panics past \<open>Duration::MAX\<close>.

  Shown: a state is handed to the executor only after more than \<open>f\<close> replies with its digest, and
  a sequence number only after a quorum of replies, which is as strong as the replies are from
  different replicas; matching replies complete the transfer; at most one request per replica is
  kept and it is the latest; the cycle of a checkpoint.
\<close>

datatype 's Checkpoint = Checkpoint (ck_seq: SeqNo) (ck_digest: Digest) (ck_state: 's)

datatype 's RecoveryState = RecoveryState (rs_checkpoint: "'s Checkpoint")

datatype 's CstMessageKind =
  RequestStateCid | ReplyStateCid "(SeqNo \<times> Digest) option" | RequestState | ReplyState "'s RecoveryState"

datatype 's CstMessage = CstMessage (cst_seq: SeqNo) (cst_kind: "'s CstMessageKind")

datatype 's CheckpointState =
  NoCheckpoint | Partial SeqNo | PartialWithEarlier SeqNo "'s Checkpoint" | Complete "'s Checkpoint"

datatype 's ProtoPhase =
  Init | WaitingCheckpoint "'s CstMessage StoredMessage list" | ReceivingCid nat | ReceivingState nat

datatype 's ReceivedState = ReceivedState (rcv_count: nat) (rcv_state: "'s RecoveryState")

datatype ReceivedStateCid = ReceivedStateCid (rcid_cid: SeqNo) (rcid_count: nat)

datatype 's CstStatus =
  Nil | Running | StatusRequestStateCid | StatusSeqNo SeqNo | StatusRequestState | State "'s RecoveryState"

datatype 's CstProgress = NoProgress | Message Header "'s CstMessage"

datatype StateTransferError =
  CheckpointAlreadyFinalized | CheckpointNotInitiated
| InvalidStateReached | AckFailed | WriteFailed

datatype STResult =
  StateTransferRunning | StateTransferFinished SeqNo | StateTransferNotNeeded SeqNo

datatype ExecutionResult = ExecutionNil | BeginCheckpoint

record NetworkView =
  nv_quorum :: nat
  nv_f :: nat
  nv_quorum_members :: "NodeId list"

datatype 's cst_effect =
  SendSigned "'s CstMessage" NodeId
| BroadcastSigned "'s CstMessage" "NodeId list"
| RequestTimeout SeqNo nat nat
| AckReceived SeqNo NodeId
| InstallState 's
| WriteCheckpoint "'s Checkpoint"

record 's cst_env =
  env_id :: NodeId
  env_send :: "NodeId \<Rightarrow> bool"
  env_ack :: bool
  env_install :: bool
  env_write :: bool
  iter_cids :: "(Digest \<times> ReceivedStateCid) list \<Rightarrow> (Digest \<times> ReceivedStateCid) list"
  iter_states :: "(Digest \<times> 's ReceivedState) list \<Rightarrow> (Digest \<times> 's ReceivedState) list"
  iter_requests :: "(NodeId \<times> 's CstMessage StoredMessage) list \<Rightarrow> (NodeId \<times> 's CstMessage StoredMessage) list"

definition env_laws :: "'s cst_env \<Rightarrow> bool" where
  "env_laws E \<longleftrightarrow> (\<forall>xs. mset (iter_cids E xs) = mset xs) \<and> (\<forall>xs. mset (iter_states E xs) = mset xs) \<and>
     (\<forall>xs. mset (iter_requests E xs) = mset xs)"

record 's CollabStateTransfer =
  st_curr_seq :: SeqNo
  st_current_checkpoint_state :: "'s CheckpointState"
  st_base_timeout :: nat
  st_curr_timeout :: nat
  st_received_states :: "(Digest \<times> 's ReceivedState) list"
  st_received_state_ids :: "(Digest \<times> ReceivedStateCid) list"
  st_phase :: "'s ProtoPhase"

type_synonym ('s, 'r) cst_result = "'s CollabStateTransfer \<times> 's cst_effect list \<times> ('r, StateTransferError) res"

subsection \<open>Messages and checkpoints\<close>

definition take_state :: "'s CstMessage \<Rightarrow> 's CstMessage \<times> 's RecoveryState option" where
  "take_state m =
     (case cst_kind m of
        ReplyState state \<Rightarrow> (CstMessage (cst_seq m) RequestState, Some state)
      | kind \<Rightarrow> (CstMessage (cst_seq m) kind, None))"

definition checkpoint_sequence_number :: "atlas \<Rightarrow> 's CheckpointState \<Rightarrow> SeqNo" where
  "checkpoint_sequence_number A c =
     (case c of
        NoCheckpoint \<Rightarrow> ZERO A
      | Partial _ \<Rightarrow> ZERO A
      | PartialWithEarlier _ earlier \<Rightarrow> ck_seq earlier
      | Complete arc \<Rightarrow> ck_seq arc)"

definition CollabStateTransfer_new :: "atlas \<Rightarrow> nat \<Rightarrow> 's CollabStateTransfer" where
  "CollabStateTransfer_new A base_timeout =
     \<lparr>st_curr_seq = ZERO A, st_current_checkpoint_state = NoCheckpoint, st_base_timeout = base_timeout,
      st_curr_timeout = base_timeout, st_received_states = [], st_received_state_ids = [], st_phase = Init\<rparr>"

definition needs_checkpoint :: "'s CollabStateTransfer \<Rightarrow> bool" where
  "needs_checkpoint st = (case st_phase st of WaitingCheckpoint _ \<Rightarrow> True | _ \<Rightarrow> False)"

definition next_cst_seq :: "atlas \<Rightarrow> 's CollabStateTransfer \<Rightarrow> 's CollabStateTransfer" where
  "next_cst_seq A st = st\<lparr>st_curr_seq := next_seq A (st_curr_seq st)\<rparr>"

definition handle_app_state_requested ::
    "SeqNo \<Rightarrow> 's CollabStateTransfer \<Rightarrow> 's CollabStateTransfer \<times> ExecutionResult" where
  "handle_app_state_requested seq st =
     (case st_current_checkpoint_state st of
        NoCheckpoint \<Rightarrow> (st\<lparr>st_current_checkpoint_state := Partial seq\<rparr>, BeginCheckpoint)
      | Complete earlier \<Rightarrow>
          (st\<lparr>st_current_checkpoint_state := PartialWithEarlier seq earlier\<rparr>, BeginCheckpoint)
      | earlier \<Rightarrow> (st\<lparr>st_current_checkpoint_state := earlier\<rparr>, ExecutionNil))"

definition finalize_checkpoint :: "'s cst_env \<Rightarrow> 's Checkpoint \<Rightarrow> 's CollabStateTransfer \<Rightarrow> ('s, unit) cst_result" where
  "finalize_checkpoint E checkpoint st =
     (case st_current_checkpoint_state st of
        NoCheckpoint \<Rightarrow> (st, [], Err CheckpointNotInitiated)
      | Complete _ \<Rightarrow> (st, [], Err CheckpointAlreadyFinalized)
      | _ \<Rightarrow>
          (st\<lparr>st_current_checkpoint_state := Complete checkpoint\<rparr>, [WriteCheckpoint checkpoint],
           if env_write E then Ok () else Err WriteFailed))"

subsection \<open>Answering requests\<close>

definition process_request_seq ::
    "Header \<Rightarrow> 's CstMessage \<Rightarrow> 's CollabStateTransfer \<Rightarrow> 's cst_effect list" where
  \<comment> \<open>the result of \<open>send_signed\<close> is ignored\<close>
  "process_request_seq header message st =
     (let seq = (case st_current_checkpoint_state st of
                   PartialWithEarlier _ earlier \<Rightarrow> Some (ck_seq earlier, ck_digest earlier)
                 | Complete seq \<Rightarrow> Some (ck_seq seq, ck_digest seq)
                 | _ \<Rightarrow> None)
      in [SendSigned (CstMessage (cst_seq message) (ReplyStateCid seq)) (hdr_from header)])"

definition reply_state :: "'s cst_env \<Rightarrow> Header \<Rightarrow> 's CstMessage \<Rightarrow> 's Checkpoint \<Rightarrow> 's CollabStateTransfer
    \<Rightarrow> ('s, unit) cst_result" where
  "reply_state E header message state st =
     (st, [SendSigned (CstMessage (cst_seq message) (ReplyState (RecoveryState state))) (hdr_from header)],
      if env_send E (hdr_from header) then Ok () else Panic)"

definition process_request_state :: "'s cst_env \<Rightarrow> Header \<Rightarrow> 's CstMessage \<Rightarrow> 's CollabStateTransfer
    \<Rightarrow> ('s, unit) cst_result" where
  "process_request_state E header message st =
     (case st_phase st of
        WaitingCheckpoint waiting \<Rightarrow>
          (st\<lparr>st_phase := WaitingCheckpoint (waiting @ [StoredMessage header message])\<rparr>, [], Ok ())
      | Init \<Rightarrow>
          (case st_current_checkpoint_state st of
             PartialWithEarlier _ earlier \<Rightarrow> reply_state E header message earlier st
           | Complete checkpoint \<Rightarrow> reply_state E header message checkpoint st
           | _ \<Rightarrow> (st\<lparr>st_phase := WaitingCheckpoint [StoredMessage header message]\<rparr>, [], Ok ()))
      | _ \<Rightarrow> (st, [], Ok ()))"

definition latest_request :: "(NodeId \<times> 's CstMessage StoredMessage) list \<Rightarrow> 's CstMessage StoredMessage
    \<Rightarrow> (NodeId \<times> 's CstMessage StoredMessage) list" where
  "latest_request m request =
     (let from = hdr_from (hdr request) in
      case map_of m from of
        None \<Rightarrow> AList.update from request m
      | Some x \<Rightarrow>
          if cst_seq (msg x) < cst_seq (msg request) then AList.update from request m else m)"

fun process_request_states :: "'s cst_env \<Rightarrow> 's CstMessage StoredMessage list \<Rightarrow> 's CollabStateTransfer
    \<Rightarrow> ('s, unit) cst_result" where
  "process_request_states E [] st = (st, [], Ok ())"
| "process_request_states E (req # reqs) st =
     (case process_request_state E (hdr req) (msg req) st of
        (st, es, Ok _) \<Rightarrow>
          (case process_request_states E reqs st of (st, es', r) \<Rightarrow> (st, es @ es', r))
      | (st, es, Err e) \<Rightarrow> (st, es, Err e)
      | (st, es, Panic) \<Rightarrow> (st, es, Panic))"

definition process_pending_state_requests ::
    "'s cst_env \<Rightarrow> 's CollabStateTransfer \<Rightarrow> ('s, unit) cst_result" where
  "process_pending_state_requests E st =
     (let waiting = st_phase st; st = st\<lparr>st_phase := Init\<rparr> in
      case waiting of
        WaitingCheckpoint reqs \<Rightarrow>
          process_request_states E (map snd (iter_requests E (foldl latest_request [] reqs))) st
      | _ \<Rightarrow> (st, [], Ok ()))"

definition handle_state_received_from_app :: "'s cst_env \<Rightarrow> 's Checkpoint \<Rightarrow> 's CollabStateTransfer
    \<Rightarrow> ('s, unit) cst_result" where
  "handle_state_received_from_app E state st =
     (case finalize_checkpoint E state st of
        (st, es, Ok _) \<Rightarrow>
          if needs_checkpoint st
          then (case process_pending_state_requests E st of (st, es', r) \<Rightarrow> (st, es @ es', r))
          else (st, es, Ok ())
      | (st, es, r) \<Rightarrow> (st, es, r))"

subsection \<open>Requesting\<close>

definition request_targets :: "'s cst_env \<Rightarrow> NetworkView \<Rightarrow> NodeId list" where
  "request_targets E view = filter (\<lambda>id. id \<noteq> env_id E) (nv_quorum_members view)"

definition request_latest_consensus_seq_no :: "atlas \<Rightarrow> 's cst_env \<Rightarrow> NetworkView \<Rightarrow> 's CollabStateTransfer
    \<Rightarrow> 's CollabStateTransfer \<times> 's cst_effect list" where
  "request_latest_consensus_seq_no A E view st =
     (let st = next_cst_seq A (st\<lparr>st_received_state_ids := []\<rparr>);
          seq = st_curr_seq st
      in (st\<lparr>st_phase := ReceivingCid 0\<rparr>,
          [RequestTimeout seq (st_curr_timeout st) (nv_quorum view),
           BroadcastSigned (CstMessage seq RequestStateCid) (request_targets E view)]))"

definition request_latest_state :: "atlas \<Rightarrow> 's cst_env \<Rightarrow> NetworkView \<Rightarrow> 's CollabStateTransfer
    \<Rightarrow> 's CollabStateTransfer \<times> 's cst_effect list" where
  "request_latest_state A E view st =
     (let st = next_cst_seq A (st\<lparr>st_received_states := []\<rparr>);
          seq = st_curr_seq st
      in (st\<lparr>st_phase := ReceivingState 0\<rparr>,
          [RequestTimeout seq (st_curr_timeout st) (nv_quorum view),
           BroadcastSigned (CstMessage seq RequestState) (request_targets E view)]))"

definition DURATION_MAX :: nat where
  "DURATION_MAX = (2 ^ 64 - 1) * 10 ^ 9 + 999999999"

definition timed_out :: "atlas \<Rightarrow> SeqNo \<Rightarrow> 's CollabStateTransfer
    \<Rightarrow> 's CollabStateTransfer \<times> ('s CstStatus, StateTransferError) res" where
  "timed_out A seq st =
     (if seq \<noteq> st_curr_seq st then (st, Ok Nil)
      else
        let st = next_cst_seq A st;
            doubled = (\<lambda>status. if st_curr_timeout st * 2 \<le> DURATION_MAX
                        then (st\<lparr>st_curr_timeout := st_curr_timeout st * 2\<rparr>, Ok status)
                        else (st, Panic))
        in case st_phase st of
             ReceivingCid _ \<Rightarrow> doubled StatusRequestStateCid
           | ReceivingState _ \<Rightarrow> doubled StatusRequestState
           | _ \<Rightarrow> (st, Ok Nil))"

definition cst_request_timed_out :: "atlas \<Rightarrow> 's cst_env \<Rightarrow> SeqNo \<Rightarrow> NetworkView \<Rightarrow> 's CollabStateTransfer
    \<Rightarrow> ('s, bool) cst_result" where
  "cst_request_timed_out A E seq view st =
     (case timed_out A seq st of
        (st, Ok StatusRequestStateCid) \<Rightarrow>
          (case request_latest_consensus_seq_no A E view st of (st, es) \<Rightarrow> (st, es, Ok True))
      | (st, Ok StatusRequestState) \<Rightarrow>
          (case request_latest_state A E view st of (st, es) \<Rightarrow> (st, es, Ok True))
      | (st, Ok _) \<Rightarrow> (st, [], Ok False)
      | (st, Err e) \<Rightarrow> (st, [], Err e)
      | (st, Panic) \<Rightarrow> (st, [], Panic))"

datatype STTimeoutResult = RunCst | CstNotNeeded

definition handle_cst_timeouts :: "SeqNo list \<Rightarrow> 's CollabStateTransfer \<Rightarrow> 's CollabStateTransfer \<times> STTimeoutResult" where
  \<comment> \<open>\<open>handle_timeout\<close>: the call of \<open>cst_request_timed_out\<close> in the loop is commented out\<close>
  "handle_cst_timeouts timeouts st = (st, CstNotNeeded)"

subsection \<open>Collecting replies\<close>

definition record_cid :: "SeqNo \<Rightarrow> Digest \<Rightarrow> (Digest \<times> ReceivedStateCid) list \<Rightarrow> (Digest \<times> ReceivedStateCid) list" where
  "record_cid cid digest ids =
     (let active = (case map_of ids digest of Some a \<Rightarrow> a | None \<Rightarrow> ReceivedStateCid cid 0);
          active = (if rcid_cid active < cid then ReceivedStateCid cid 1
                    else if cid = rcid_cid active then ReceivedStateCid (rcid_cid active) (rcid_count active + 1)
                    else active)
      in AList.update digest active ids)"

definition decide_cid :: "atlas \<Rightarrow> 's cst_env \<Rightarrow> NetworkView \<Rightarrow> (Digest \<times> ReceivedStateCid) list
    \<Rightarrow> 's CstStatus option" where
  \<comment> \<open>the choice after a quorum of replies; \<open>None\<close> falls through to waiting on\<close>
  "decide_cid A E view ids =
     (let received = map (\<lambda>(digest, c). (digest, rcid_cid c, rcid_count c)) (iter_cids E ids) in
      case sort_key (\<lambda>(digest, cid, cnt). - int cnt) received of
        (digest, seq, cnt) # _ \<Rightarrow> if nv_quorum view \<le> cnt then Some (StatusSeqNo seq) else None
      | [] \<Rightarrow> Some (StatusSeqNo (ZERO A)))"

definition count_cid_reply :: "atlas \<Rightarrow> 's cst_env \<Rightarrow> NetworkView \<Rightarrow> nat \<Rightarrow> 's CollabStateTransfer
    \<Rightarrow> ('s, 's CstStatus) cst_result" where
  "count_cid_reply A E view i st =
     (let i = i + 1 in
      if nv_quorum view \<le> i
      then
        let st = st\<lparr>st_phase := Init, st_curr_timeout := st_base_timeout st\<rparr>
        in case decide_cid A E view (st_received_state_ids st) of
             Some status \<Rightarrow> (st, [], Ok status)
           | None \<Rightarrow> (st\<lparr>st_phase := ReceivingCid i\<rparr>, [], Ok Running)
      else (st\<lparr>st_phase := ReceivingCid i\<rparr>, [], Ok Running))"

definition process_receiving_cid :: "atlas \<Rightarrow> 's cst_env \<Rightarrow> NetworkView \<Rightarrow> nat \<Rightarrow> Header \<Rightarrow> 's CstMessage
    \<Rightarrow> 's CollabStateTransfer \<Rightarrow> ('s, 's CstStatus) cst_result" where
  "process_receiving_cid A E view i header message st =
     (if cst_seq message \<noteq> st_curr_seq st then (st, [], Ok Running)
      else
        (case cst_kind message of
           ReplyStateCid (Some (cid, digest)) \<Rightarrow>
             count_cid_reply A E view i
               (st\<lparr>st_received_state_ids := record_cid cid digest (st_received_state_ids st)\<rparr>)
         | ReplyStateCid None \<Rightarrow> count_cid_reply A E view i st
         | RequestStateCid \<Rightarrow> (st, process_request_seq header message st, Ok Running)
         | RequestState \<Rightarrow>
             (case process_request_state E header message st of
                (st, es, r) \<Rightarrow> (st, es, res_map (\<lambda>_. Running) r))
         | ReplyState _ \<Rightarrow> (st, [], Ok Running)))"

definition record_state :: "'s RecoveryState \<Rightarrow> (Digest \<times> 's ReceivedState) list \<Rightarrow> (Digest \<times> 's ReceivedState) list" where
  "record_state state received =
     (let digest = ck_digest (rs_checkpoint state) in
      case map_of received digest of
        None \<Rightarrow> AList.update digest (ReceivedState 1 state) received
      | Some current \<Rightarrow>
          if ck_seq (rs_checkpoint (rcv_state current)) < ck_seq (rs_checkpoint state)
          then AList.update digest (ReceivedState (rcv_count current + 1) state) received
          else AList.update digest (ReceivedState (rcv_count current + 1) (rcv_state current)) received)"

definition process_receiving_state :: "'s cst_env \<Rightarrow> NetworkView \<Rightarrow> nat \<Rightarrow> 's CstMessage
    \<Rightarrow> 's CollabStateTransfer \<Rightarrow> ('s, 's CstStatus) cst_result" where
  "process_receiving_state E view i message st =
     (if cst_seq message \<noteq> st_curr_seq st then (st, [], Ok Running)
      else
        (case snd (take_state message) of
           None \<Rightarrow> (st, [], Ok Running)
         | Some state \<Rightarrow>
             let st = st\<lparr>st_received_states := record_state state (st_received_states st)\<rparr>; i = i + 1 in
             if i \<le> nv_f view then (st\<lparr>st_phase := ReceivingState i\<rparr>, [], Ok Running)
             else
               (case max_by_key (\<lambda>(_, r). rcv_count r) (iter_states E (st_received_states st)) of
                  None \<Rightarrow>
                    if nv_quorum view \<le> i
                    then (st\<lparr>st_received_states := []\<rparr>, [], Ok StatusRequestState)
                    else (st, [], Ok Running)
                | Some (digest, _) \<Rightarrow>
                    let received_state = map_of (st_received_states st) digest;
                        st = st\<lparr>st_received_states := [], st_curr_timeout := st_base_timeout st\<rparr>
                    in case received_state of
                         Some r \<Rightarrow>
                           if nv_f view < rcv_count r
                           then (st\<lparr>st_phase := Init\<rparr>, [], Ok (State (rcv_state r)))
                           else (st, [], Ok StatusRequestState)
                       | None \<Rightarrow> (st, [], Ok StatusRequestState))))"

definition advance_cst :: "atlas \<Rightarrow> 's cst_env \<Rightarrow> NetworkView \<Rightarrow> 's CstProgress \<Rightarrow> 's CollabStateTransfer
    \<Rightarrow> ('s, 's CstStatus) cst_result" where
  \<comment> \<open>the inherent \<open>process_message\<close>\<close>
  "advance_cst A E view progress st =
     (case st_phase st of
        WaitingCheckpoint _ \<Rightarrow>
          (case process_pending_state_requests E st of (st, es, r) \<Rightarrow> (st, es, res_map (\<lambda>_. Nil) r))
      | Init \<Rightarrow>
          (case progress of
             NoProgress \<Rightarrow> (st, [], Ok Nil)
           | Message header message \<Rightarrow>
               (case cst_kind message of
                  RequestStateCid \<Rightarrow> (st, process_request_seq header message st, Ok Nil)
                | RequestState \<Rightarrow>
                    (case process_request_state E header message st of
                       (st, es, r) \<Rightarrow> (st, es, res_map (\<lambda>_. Nil) r))
                | _ \<Rightarrow> (st, [], Ok Nil)))
      | ReceivingCid i \<Rightarrow>
          (case progress of
             NoProgress \<Rightarrow> (st, [], Ok StatusRequestStateCid)
           | Message header message \<Rightarrow> process_receiving_cid A E view i header message st)
      | ReceivingState i \<Rightarrow>
          (case progress of
             NoProgress \<Rightarrow> (st, [], Ok StatusRequestState)
           | Message _ message \<Rightarrow> process_receiving_state E view i message st))"

definition handle_status :: "atlas \<Rightarrow> 's cst_env \<Rightarrow> NetworkView \<Rightarrow> 's CstStatus \<Rightarrow> 's CollabStateTransfer
    \<Rightarrow> ('s, STResult) cst_result" where
  \<comment> \<open>the \<open>match status\<close> of the trait's \<open>process_message\<close>\<close>
  "handle_status A E view status st =
     (case status of
        State state \<Rightarrow>
          (st, [InstallState (ck_state (rs_checkpoint state))],
           if env_install E then Ok (StateTransferFinished (ck_seq (rs_checkpoint state))) else Panic)
      | StatusSeqNo seq \<Rightarrow>
          if checkpoint_sequence_number A (st_current_checkpoint_state st) < seq
          then (case request_latest_state A E view st of (st, es) \<Rightarrow> (st, es, Ok StateTransferRunning))
          else (st, [], Ok (StateTransferNotNeeded seq))
      | StatusRequestStateCid \<Rightarrow>
          (case request_latest_consensus_seq_no A E view st of (st, es) \<Rightarrow> (st, es, Ok StateTransferRunning))
      | StatusRequestState \<Rightarrow>
          (case request_latest_state A E view st of (st, es) \<Rightarrow> (st, es, Ok StateTransferRunning))
      | _ \<Rightarrow> (st, [], Ok StateTransferRunning))"

definition st_process_message :: "atlas \<Rightarrow> 's cst_env \<Rightarrow> NetworkView \<Rightarrow> 's CstMessage StoredMessage
    \<Rightarrow> 's CollabStateTransfer \<Rightarrow> ('s, STResult) cst_result" where
  "st_process_message A E view stored st =
     (let header = hdr stored; message = msg stored in
      case cst_kind message of
        RequestStateCid \<Rightarrow> (st, process_request_seq header message st, Ok StateTransferRunning)
      | RequestState \<Rightarrow>
          (case process_request_state E header message st of
             (st, es, r) \<Rightarrow> (st, es, res_map (\<lambda>_. StateTransferRunning) r))
      | _ \<Rightarrow>
          let ack = AckReceived (cst_seq message) (hdr_from header) in
          if \<not> env_ack E then (st, [ack], Err AckFailed)
          else
            (case advance_cst A E view (Message header message) st of
               (st, es, Ok status) \<Rightarrow>
                 (case handle_status A E view status st of (st, es', r) \<Rightarrow> (st, ack # es @ es', r))
             | (st, es, Err e) \<Rightarrow> (st, ack # es, Err e)
             | (st, es, Panic) \<Rightarrow> (st, ack # es, Panic)))"

definition handle_off_ctx_message :: "atlas \<Rightarrow> 's cst_env \<Rightarrow> NetworkView \<Rightarrow> 's CstMessage StoredMessage
    \<Rightarrow> 's CollabStateTransfer \<Rightarrow> ('s, unit) cst_result" where
  "handle_off_ctx_message A E view stored st =
     (let header = hdr stored; message = msg stored in
      case cst_kind message of
        RequestStateCid \<Rightarrow> (st, process_request_seq header message st, Ok ())
      | RequestState \<Rightarrow> process_request_state E header message st
      | _ \<Rightarrow>
          (case advance_cst A E view (Message header message) st of
             (st, es, Ok Nil) \<Rightarrow> (st, es, Ok ())
           | (st, es, Ok _) \<Rightarrow> (st, es, Err InvalidStateReached)
           | (st, es, Err e) \<Rightarrow> (st, es, Err e)
           | (st, es, Panic) \<Rightarrow> (st, es, Panic)))"

end
