(* ===== verification/StateTransferSafety.thy ===== *)
theory StateTransferSafety
  imports StateTransfer
begin

text \<open>
  Properties of the state transfer protocol over its runs: any interleaving of messages from
  anyone, in and out of context, requests of the application, checkpoints it delivers, new
  transfers and time-outs, with the outcomes of the external calls and the view chosen anew at
  every step. The history of a run is the list of messages it received.
\<close>

subsection \<open>Runs\<close>

inductive st_run :: "atlas \<Rightarrow> 's CstMessage StoredMessage list \<Rightarrow> 's CollabStateTransfer \<Rightarrow> bool" for A where
  new: "st_run A [] (CollabStateTransfer_new A base)"
| transfer: "st_run A h st \<Longrightarrow> st_run A h (fst (request_latest_consensus_seq_no A E view st))"
| processed: "st_run A h st \<Longrightarrow> st_process_message A E view m st = (st', es, r) \<Longrightarrow> r \<noteq> Panic \<Longrightarrow>
    st_run A (h @ [m]) st'"
| off_context: "st_run A h st \<Longrightarrow> handle_off_ctx_message A E view m st = (st', es, r) \<Longrightarrow> r \<noteq> Panic \<Longrightarrow>
    st_run A (h @ [m]) st'"
| app_requested: "st_run A h st \<Longrightarrow> st_run A h (fst (handle_app_state_requested seq st))"
| app_state: "st_run A h st \<Longrightarrow> handle_state_received_from_app E ck st = (st', es, r) \<Longrightarrow> r \<noteq> Panic \<Longrightarrow>
    st_run A h st'"
| timeout: "st_run A h st \<Longrightarrow> cst_request_timed_out A E seq view st = (st', es, r) \<Longrightarrow> r \<noteq> Panic \<Longrightarrow>
    st_run A h st'"

text \<open>The replies to one request, and those for one digest or one checkpoint number.\<close>

definition state_reply :: "SeqNo \<Rightarrow> Digest \<Rightarrow> 's CstMessage StoredMessage \<Rightarrow> bool" where
  "state_reply q dg m \<longleftrightarrow> cst_seq (msg m) = q \<and>
     (case cst_kind (msg m) of ReplyState s \<Rightarrow> ck_digest (rs_checkpoint s) = dg | _ \<Rightarrow> False)"

definition cid_reply :: "SeqNo \<Rightarrow> SeqNo \<Rightarrow> Digest \<Rightarrow> 's CstMessage StoredMessage \<Rightarrow> bool" where
  "cid_reply q cid dg m \<longleftrightarrow> cst_seq (msg m) = q \<and> cst_kind (msg m) = ReplyStateCid (Some (cid, dg))"

definition blank_reply :: "SeqNo \<Rightarrow> 's CstMessage StoredMessage \<Rightarrow> bool" where
  "blank_reply q m \<longleftrightarrow> cst_seq (msg m) = q \<and> cst_kind (msg m) = ReplyStateCid None"

definition tally :: "('m \<Rightarrow> bool) \<Rightarrow> 'm list \<Rightarrow> nat" where
  "tally P ms = length (filter P ms)"

lemma tally_append [simp]: "tally P (xs @ ys) = tally P xs + tally P ys"
  by (simp add: tally_def)

lemma tally_single [simp]: "tally P [x] = (if P x then 1 else 0)"
  by (simp add: tally_def)

subsection \<open>The invariant\<close>

definition states_ok :: "'s CstMessage StoredMessage list \<Rightarrow> SeqNo \<Rightarrow> (Digest \<times> 's ReceivedState) list \<Rightarrow> bool" where
  "states_ok h q rs \<longleftrightarrow> (\<forall>dg r. map_of rs dg = Some r \<longrightarrow>
     ck_digest (rs_checkpoint (rcv_state r)) = dg \<and> rcv_count r \<le> tally (state_reply q dg) h \<and>
     (\<exists>m \<in> set h. cst_kind (msg m) = ReplyState (rcv_state r)))"

definition cids_ok :: "'s CstMessage StoredMessage list \<Rightarrow> SeqNo \<Rightarrow> (Digest \<times> ReceivedStateCid) list \<Rightarrow> bool" where
  "cids_ok h q ids \<longleftrightarrow> (\<forall>dg c. map_of ids dg = Some c \<longrightarrow> rcid_count c \<le> tally (cid_reply q (rcid_cid c) dg) h) \<and>
     distinct (map fst ids)"

definition blanks_ok :: "'s CstMessage StoredMessage list \<Rightarrow> SeqNo \<Rightarrow> (Digest \<times> ReceivedStateCid) list \<Rightarrow> nat \<Rightarrow> bool" where
  \<comment> \<open>as long as no reply named a checkpoint, all replies that were counted are blank\<close>
  "blanks_ok h q ids i \<longleftrightarrow> (ids = [] \<longrightarrow> i \<le> tally (blank_reply q) h)"

definition st_inv :: "'s CstMessage StoredMessage list \<Rightarrow> 's CollabStateTransfer \<Rightarrow> bool" where
  "st_inv h st \<longleftrightarrow>
     (case st_phase st of
        ReceivingState _ \<Rightarrow> states_ok h (st_curr_seq st) (st_received_states st)
      | ReceivingCid i \<Rightarrow> cids_ok h (st_curr_seq st) (st_received_state_ids st) \<and>
          blanks_ok h (st_curr_seq st) (st_received_state_ids st) i
      | _ \<Rightarrow> True)"

lemma states_ok_more: "states_ok h q rs \<Longrightarrow> states_ok (h @ h') q rs"
  unfolding states_ok_def by (fastforce intro: trans_le_add1)

lemma cids_ok_more: "cids_ok h q ids \<Longrightarrow> cids_ok (h @ h') q ids"
  unfolding cids_ok_def by (fastforce intro: trans_le_add1)

lemma blanks_ok_more: "blanks_ok h q ids i \<Longrightarrow> blanks_ok (h @ h') q ids i"
  by (auto simp: blanks_ok_def)

lemma st_inv_more: "st_inv h st \<Longrightarrow> st_inv (h @ h') st"
  by (auto simp: st_inv_def states_ok_more cids_ok_more blanks_ok_more split: ProtoPhase.splits)

lemma record_state_lookup:
  "map_of (record_state s rs) dg =
   (if dg = ck_digest (rs_checkpoint s)
    then (case map_of rs dg of
            None \<Rightarrow> Some (ReceivedState 1 s)
          | Some c \<Rightarrow> Some (ReceivedState (rcv_count c + 1)
              (if ck_seq (rs_checkpoint (rcv_state c)) < ck_seq (rs_checkpoint s) then s else rcv_state c)))
    else map_of rs dg)"
  by (simp add: record_state_def Let_def update_conv' split: option.split)

lemma states_ok_record:
  assumes "states_ok h q rs" and "cst_seq (msg m) = q" and "cst_kind (msg m) = ReplyState s"
  shows "states_ok (h @ [m]) q (record_state s rs)"
proof -
  have "ck_digest (rs_checkpoint (rcv_state r)) = dg \<and> rcv_count r \<le> tally (state_reply q dg) (h @ [m]) \<and>
      (\<exists>m \<in> set (h @ [m]). cst_kind (msg m) = ReplyState (rcv_state r))"
    if "map_of (record_state s rs) dg = Some r" for dg r
  proof (cases "dg = ck_digest (rs_checkpoint s)")
    case False
    with that have "map_of rs dg = Some r" by (simp add: record_state_lookup)
    with assms(1) show ?thesis unfolding states_ok_def by (fastforce intro: trans_le_add1)
  next
    case True
    have reply: "state_reply q dg m" using assms(2,3) True by (simp add: state_reply_def)
    show ?thesis
    proof (cases "map_of rs dg")
      case None
      with that True have "r = ReceivedState 1 s" by (simp add: record_state_lookup)
      with True reply assms(3) show ?thesis by simp
    next
      case (Some c)
      with that True have r: "r = ReceivedState (rcv_count c + 1)
          (if ck_seq (rs_checkpoint (rcv_state c)) < ck_seq (rs_checkpoint s) then s else rcv_state c)"
        by (simp add: record_state_lookup)
      have "ck_digest (rs_checkpoint (rcv_state c)) = dg" "rcv_count c \<le> tally (state_reply q dg) h"
        "\<exists>m \<in> set h. cst_kind (msg m) = ReplyState (rcv_state c)"
        using assms(1) Some by (simp_all add: states_ok_def)
      with r True reply assms(3) show ?thesis by auto
    qed
  qed
  then show ?thesis by (simp add: states_ok_def)
qed

lemma record_cid_lookup:
  "map_of (record_cid cid d ids) dg =
   (if dg = d
    then Some (case map_of ids dg of
            None \<Rightarrow> ReceivedStateCid cid 1
          | Some c \<Rightarrow> if rcid_cid c < cid then ReceivedStateCid cid 1
              else if cid = rcid_cid c then ReceivedStateCid (rcid_cid c) (rcid_count c + 1) else c)
    else map_of ids dg)"
  by (auto simp: record_cid_def Let_def update_conv' split: option.split)

lemma cids_ok_record:
  assumes "cids_ok h q ids" and "cid_reply q cid d m"
  shows "cids_ok (h @ [m]) q (record_cid cid d ids)"
proof -
  have "rcid_count c \<le> tally (cid_reply q (rcid_cid c) dg) (h @ [m])"
    if "map_of (record_cid cid d ids) dg = Some c" for dg c
  proof (cases "dg = d")
    case False
    with that have "map_of ids dg = Some c" by (simp add: record_cid_lookup)
    with assms(1) show ?thesis unfolding cids_ok_def by (fastforce intro: trans_le_add1)
  next
    case True
    show ?thesis
    proof (cases "map_of ids dg")
      case None
      with that True assms(2) show ?thesis by (auto simp: record_cid_lookup)
    next
      case (Some a)
      then have "rcid_count a \<le> tally (cid_reply q (rcid_cid a) dg) h" using assms(1) by (simp add: cids_ok_def)
      with Some that True assms(2) show ?thesis
        by (auto simp: record_cid_lookup split: if_splits)
    qed
  qed
  moreover have "distinct (map fst (record_cid cid d ids))"
    using assms(1) by (simp add: cids_ok_def record_cid_def Let_def distinct_update)
  ultimately show ?thesis by (simp add: cids_ok_def)
qed

lemma record_cid_nonempty: "record_cid cid d ids \<noteq> []"
  using record_cid_lookup [of cid d ids d] by auto

lemma blanks_ok_recorded: "blanks_ok h q (record_cid cid d ids) i"
  by (simp add: blanks_ok_def record_cid_nonempty)

lemma blanks_ok_counted: "blanks_ok h q ids i \<Longrightarrow> blank_reply q m \<Longrightarrow> blanks_ok (h @ [m]) q ids (i + 1)"
  by (simp add: blanks_ok_def)

subsection \<open>Preservation\<close>

definition idle :: "'s CollabStateTransfer \<Rightarrow> bool" where
  "idle st \<longleftrightarrow> (case st_phase st of Init \<Rightarrow> True | WaitingCheckpoint _ \<Rightarrow> True | _ \<Rightarrow> False)"

lemma idle_inv: "idle st \<Longrightarrow> st_inv h st"
  by (simp add: idle_def st_inv_def split: ProtoPhase.splits)

lemma process_request_state_idle:
  "process_request_state E hh m st = (st', es, r) \<Longrightarrow> idle st \<Longrightarrow> idle st'"
  by (auto simp: process_request_state_def reply_state_def idle_def
      split: ProtoPhase.splits CheckpointState.splits)

lemma process_request_state_busy:
  "process_request_state E hh m st = (st', es, r) \<Longrightarrow> \<not> idle st \<Longrightarrow> st' = st"
  by (auto simp: process_request_state_def idle_def split: ProtoPhase.splits)

lemma process_request_state_inv:
  "process_request_state E hh m st = (st', es, r) \<Longrightarrow> st_inv h st \<Longrightarrow> st_inv h st'"
  using process_request_state_idle process_request_state_busy idle_inv by metis

lemma process_request_states_idle:
  "process_request_states E reqs st = (st', es, r) \<Longrightarrow> idle st \<Longrightarrow> idle st'"
proof (induction reqs arbitrary: st es)
  case (Cons req reqs)
  obtain st1 es1 r1 where p: "process_request_state E (hdr req) (msg req) st = (st1, es1, r1)"
    by (cases "process_request_state E (hdr req) (msg req) st")
  have st1: "idle st1" by (rule process_request_state_idle [OF p Cons.prems(2)])
  obtain st2 es2 r2 where q: "process_request_states E reqs st1 = (st2, es2, r2)"
    by (cases "process_request_states E reqs st1")
  show ?case
  proof (cases r1)
    case (Ok u)
    then have "st' = st2" "r = r2" using Cons.prems(1) p q by simp_all
    with Cons.IH [OF _ st1] q show ?thesis by simp
  qed (use Cons.prems(1) p st1 in simp_all)
qed simp

lemma process_pending_inv: "process_pending_state_requests E st = (st', es, r) \<Longrightarrow> st_inv h st'"
  by (auto simp: process_pending_state_requests_def Let_def idle_def split: ProtoPhase.splits
      intro!: idle_inv dest!: process_request_states_idle)

lemma st_inv_checkpoint [simp]: "st_inv h (st\<lparr>st_current_checkpoint_state := c\<rparr>) = st_inv h st"
  by (simp add: st_inv_def split: ProtoPhase.split)

lemma request_state_inv: "st_inv h (fst (request_latest_state A E view st))"
  by (simp add: request_latest_state_def Let_def st_inv_def states_ok_def next_cst_seq_def)

lemma request_cid_inv: "st_inv h (fst (request_latest_consensus_seq_no A E view st))"
  by (simp add: request_latest_consensus_seq_no_def Let_def st_inv_def cids_ok_def blanks_ok_def next_cst_seq_def)

lemma count_cid_inv:
  assumes "cids_ok h (st_curr_seq st) (st_received_state_ids st)"
    and "blanks_ok h (st_curr_seq st) (st_received_state_ids st) (i + 1)"
    and "count_cid_reply A E view i st = (st', es, r)"
  shows "st_inv h st'"
  using assms by (auto simp: count_cid_reply_def Let_def st_inv_def split: if_splits option.splits)

lemma process_receiving_cid_inv:
  assumes "st_phase st = ReceivingCid i" and "st_inv h st"
    and "process_receiving_cid A E view i (hdr m) (msg m) st = (st', es, r)"
  shows "st_inv (h @ [m]) st'"
proof -
  have ok: "cids_ok h (st_curr_seq st) (st_received_state_ids st)"
    "blanks_ok h (st_curr_seq st) (st_received_state_ids st) i" using assms(1,2) by (simp_all add: st_inv_def)
  have more: "st_inv (h @ [m]) st" by (rule st_inv_more [OF assms(2)])
  show ?thesis
  proof (cases "cst_seq (msg m) = st_curr_seq st")
    case False
    then show ?thesis using assms(3) more by (auto simp: process_receiving_cid_def)
  next
    case seq: True
    show ?thesis
    proof (cases "cst_kind (msg m)")
      case (ReplyStateCid x)
      show ?thesis
      proof (cases x)
        case None
        then show ?thesis
          using assms(3) seq ReplyStateCid count_cid_inv [OF cids_ok_more [OF ok(1), of "[m]"] blanks_ok_counted [OF ok(2)]]
          by (simp add: process_receiving_cid_def blank_reply_def)
      next
        case (Some y)
        obtain cid d where y: "y = (cid, d)" by (cases y)
        have "cid_reply (st_curr_seq st) cid d m" using seq ReplyStateCid Some y by (simp add: cid_reply_def)
        from cids_ok_record [OF ok(1) this] assms(3) seq ReplyStateCid Some y show ?thesis
          by (intro count_cid_inv [of "h @ [m]"
                "st\<lparr>st_received_state_ids := record_cid cid d (st_received_state_ids st)\<rparr>" i A E view st' es r])
            (simp_all add: process_receiving_cid_def blanks_ok_recorded)
      qed
    qed (use assms(3) seq more process_request_state_inv in
        \<open>auto simp: process_receiving_cid_def split: prod.splits\<close>)
  qed
qed

lemma process_receiving_state_inv:
  assumes "st_phase st = ReceivingState i" and "st_inv h st"
    and "process_receiving_state E view i (msg m) st = (st', es, r)"
  shows "st_inv (h @ [m]) st'"
proof -
  have ok: "states_ok h (st_curr_seq st) (st_received_states st)" using assms(1,2) by (simp add: st_inv_def)
  have more: "st_inv (h @ [m]) st" by (rule st_inv_more [OF assms(2)])
  have empty: "states_ok h' q []" for h' :: "'a CstMessage StoredMessage list" and q by (simp add: states_ok_def)
  show ?thesis
  proof (cases "cst_seq (msg m) = st_curr_seq st")
    case False
    then show ?thesis using assms(3) more by (auto simp: process_receiving_state_def)
  next
    case seq: True
    show ?thesis
    proof (cases "cst_kind (msg m)")
      case (ReplyState s)
      from states_ok_record [OF ok seq ReplyState] assms(1,3) seq ReplyState empty show ?thesis
        by (auto simp: process_receiving_state_def take_state_def Let_def st_inv_def
            split: if_splits option.splits)
    qed (use assms(3) seq more in \<open>auto simp: process_receiving_state_def take_state_def\<close>)
  qed
qed

lemma advance_cst_inv:
  assumes "st_inv h st" and "advance_cst A E view (Message (hdr m) (msg m)) st = (st', es, r)"
  shows "st_inv (h @ [m]) st'"
proof (cases "st_phase st")
  case Init
  then have "idle st" by (simp add: idle_def)
  then show ?thesis using assms Init idle_inv process_request_state_inv [OF _ idle_inv]
    by (auto simp: advance_cst_def split: CstMessageKind.splits prod.splits)
next
  case (WaitingCheckpoint ms)
  then show ?thesis using assms(2) process_pending_inv by (auto simp: advance_cst_def split: prod.splits)
next
  case (ReceivingCid i)
  then show ?thesis using process_receiving_cid_inv [OF ReceivingCid assms(1)] assms(2) by (simp add: advance_cst_def)
next
  case (ReceivingState i)
  then show ?thesis using process_receiving_state_inv [OF ReceivingState assms(1)] assms(2) by (simp add: advance_cst_def)
qed

lemma handle_status_inv: "handle_status A E view status st = (st', es, r) \<Longrightarrow> st_inv h st \<Longrightarrow> st_inv h st'"
  using request_state_inv [of h A E view st] request_cid_inv [of h A E view st]
  by (cases status) (auto simp: handle_status_def split: prod.splits if_splits)

lemma st_process_inv:
  assumes "st_inv h st" and "st_process_message A E view m st = (st', es, r)"
  shows "st_inv (h @ [m]) st'"
proof -
  have more: "st_inv (h @ [m]) st" by (rule st_inv_more [OF assms(1)])
  have adv: "st_inv (h @ [m]) st1"
    if "advance_cst A E view (Message (hdr m) (msg m)) st = (st1, es1, r1)" for st1 es1 r1
    using advance_cst_inv [OF assms(1) that] .
  show ?thesis
    using assms(2) more adv process_request_state_inv [OF _ more] handle_status_inv
    by (auto simp: st_process_message_def Let_def split: CstMessageKind.splits prod.splits res.splits if_splits)
qed

lemma off_ctx_inv:
  assumes "st_inv h st" and "handle_off_ctx_message A E view m st = (st', es, r)"
  shows "st_inv (h @ [m]) st'"
proof -
  have more: "st_inv (h @ [m]) st" by (rule st_inv_more [OF assms(1)])
  have adv: "st_inv (h @ [m]) st1"
    if "advance_cst A E view (Message (hdr m) (msg m)) st = (st1, es1, r1)" for st1 es1 r1
    using advance_cst_inv [OF assms(1) that] .
  show ?thesis
    using assms(2) more adv process_request_state_inv [OF _ more]
    by (auto simp: handle_off_ctx_message_def Let_def
        split: CstMessageKind.splits prod.splits res.splits CstStatus.splits)
qed

lemma app_state_inv:
  assumes "st_inv h st" and "handle_state_received_from_app E ck st = (st', es, r)"
  shows "st_inv h st'"
proof -
  have "st_inv h st1" if "finalize_checkpoint E ck st = (st1, es1, r1)" for st1 es1 r1
    using that assms(1) by (auto simp: finalize_checkpoint_def split: CheckpointState.splits)
  then show ?thesis using assms(2) process_pending_inv
    by (auto simp: handle_state_received_from_app_def split: prod.splits res.splits if_splits)
qed

lemma timeout_inv:
  assumes "st_inv h st" and "cst_request_timed_out A E seq view st = (st', es, r)" and "r \<noteq> Panic"
  shows "st_inv h st'"
proof (cases "seq = st_curr_seq st")
  case False
  then show ?thesis using assms by (simp add: cst_request_timed_out_def timed_out_def)
next
  case seq: True
  let ?n = "next_cst_seq A st"
  have ph: "st_phase ?n = st_phase st" by (simp add: next_cst_seq_def)
  have idle: "cst_request_timed_out A E seq view st = (?n, [], Ok False)" if "idle st"
    using that seq ph by (simp add: cst_request_timed_out_def timed_out_def Let_def idle_def
        split: ProtoPhase.splits)
  show ?thesis
  proof (cases "st_phase st")
    case (ReceivingCid i)
    then have "st' = fst (request_latest_consensus_seq_no A E view (?n\<lparr>st_curr_timeout := st_curr_timeout ?n * 2\<rparr>))"
      using assms(2,3) seq ph
      by (auto simp: cst_request_timed_out_def timed_out_def Let_def split: if_splits prod.splits)
    then show ?thesis using request_cid_inv by simp
  next
    case (ReceivingState i)
    then have "st' = fst (request_latest_state A E view (?n\<lparr>st_curr_timeout := st_curr_timeout ?n * 2\<rparr>))"
      using assms(2,3) seq ph
      by (auto simp: cst_request_timed_out_def timed_out_def Let_def split: if_splits prod.splits)
    then show ?thesis using request_state_inv by simp
  qed (use idle assms(2) ph in \<open>auto simp: idle_def st_inv_def\<close>)
qed

lemma st_run_inv: "st_run A h st \<Longrightarrow> st_inv h st"
proof (induction rule: st_run.induct)
  case (new base)
  then show ?case by (simp add: st_inv_def CollabStateTransfer_new_def)
next
  case (app_requested h st seq)
  then show ?case by (simp add: handle_app_state_requested_def split: CheckpointState.split)
qed (blast intro: request_cid_inv st_process_inv off_ctx_inv app_state_inv timeout_inv)+

subsection \<open>What a finished transfer rests on\<close>

lemma process_receiving_state_State:
  assumes "states_ok h (st_curr_seq st) (st_received_states st)"
    and "process_receiving_state E view i (msg m) st = (st', es, Ok (State s))"
  shows "nv_f view < tally (state_reply (st_curr_seq st) (ck_digest (rs_checkpoint s))) (h @ [m]) \<and>
    (\<exists>r \<in> set (h @ [m]). cst_kind (msg r) = ReplyState s)"
proof -
  obtain x where kind: "cst_seq (msg m) = st_curr_seq st" "cst_kind (msg m) = ReplyState x"
    using assms(2) by (auto simp: process_receiving_state_def take_state_def split: if_splits CstMessageKind.splits)
  note ok = states_ok_record [OF assms(1) kind]
  obtain dg r where r: "map_of (record_state x (st_received_states st)) dg = Some r" "nv_f view < rcv_count r" "s = rcv_state r"
    using assms(2) kind
    by (auto simp: process_receiving_state_def take_state_def Let_def split: if_splits option.splits)
  have "ck_digest (rs_checkpoint (rcv_state r)) = dg" "rcv_count r \<le> tally (state_reply (st_curr_seq st) dg) (h @ [m])"
    "\<exists>m \<in> set (h @ [m]). cst_kind (msg m) = ReplyState (rcv_state r)"
    using ok r(1) unfolding states_ok_def by blast+
  with r show ?thesis by auto
qed

lemma advance_State:
  assumes "st_inv h st" and "advance_cst A E view (Message (hdr m) (msg m)) st = (st', es, Ok (State s))"
  shows "nv_f view < tally (state_reply (st_curr_seq st) (ck_digest (rs_checkpoint s))) (h @ [m]) \<and>
    (\<exists>r \<in> set (h @ [m]). cst_kind (msg r) = ReplyState s)"
proof (cases "st_phase st")
  case (ReceivingState i)
  then have "states_ok h (st_curr_seq st) (st_received_states st)" using assms(1) by (simp add: st_inv_def)
  moreover have "process_receiving_state E view i (msg m) st = (st', es, Ok (State s))"
    using assms(2) ReceivingState by (simp add: advance_cst_def)
  ultimately show ?thesis by (rule process_receiving_state_State)
next
  case Init
  then show ?thesis using assms(2)
    by (auto simp: advance_cst_def split: CstMessageKind.splits prod.splits) (auto simp: res_map_def split: res.splits)
next
  case (WaitingCheckpoint ms)
  then show ?thesis using assms(2)
    by (auto simp: advance_cst_def split: prod.splits) (auto simp: res_map_def split: res.splits)
next
  case (ReceivingCid i)
  then show ?thesis using assms(2)
    by (auto simp: advance_cst_def process_receiving_cid_def count_cid_reply_def decide_cid_def Let_def
        split: if_splits CstMessageKind.splits prod.splits option.splits list.splits)
      (auto simp: res_map_def split: res.splits)
qed

lemma st_process_finished:
  assumes "st_process_message A E view m st = (st', es, Ok (StateTransferFinished n))"
  shows "\<exists>st1 es1 s. advance_cst A E view (Message (hdr m) (msg m)) st = (st1, es1, Ok (State s)) \<and>
    n = ck_seq (rs_checkpoint s) \<and> InstallState (ck_state (rs_checkpoint s)) \<in> set es"
proof -
  obtain st1 es1 r1 where a: "advance_cst A E view (Message (hdr m) (msg m)) st = (st1, es1, r1)"
    by (cases "advance_cst A E view (Message (hdr m) (msg m)) st")
  have "\<exists>status. r1 = Ok status"
    using assms a by (cases r1)
      (auto simp: st_process_message_def Let_def res_map_def split: CstMessageKind.splits if_splits prod.splits res.splits)
  then obtain status where status: "r1 = Ok status" by blast
  obtain st2 es2 r2 where hs: "handle_status A E view status st1 = (st2, es2, r2)"
    by (cases "handle_status A E view status st1")
  have "r2 = Ok (StateTransferFinished n)" "set es2 \<subseteq> set es"
    using assms a status hs
    by (auto simp: st_process_message_def Let_def res_map_def split: CstMessageKind.splits if_splits prod.splits res.splits)
  moreover from this(1) hs obtain s where "status = State s" "n = ck_seq (rs_checkpoint s)"
    "es2 = [InstallState (ck_state (rs_checkpoint s))]"
    by (cases status) (auto simp: handle_status_def split: if_splits prod.splits)
  ultimately show ?thesis using a status by auto
qed

text \<open>
  C27. When the protocol finishes a transfer, the state it hands to the executor is the one of a
  checkpoint \<open>ck\<close> with the reported number that a reply carried, and more than \<open>f\<close> replies to the
  current request were for the digest of \<open>ck\<close>. If every replica answered this request at most
  once, they are replies of more than \<open>f\<close> replicas, at least one of them correct.
\<close>

theorem installed_state_supported:
  assumes "st_run A h st" and "st_process_message A E view m st = (st', es, Ok (StateTransferFinished n))"
  shows "\<exists>ck. ck_seq ck = n \<and> InstallState (ck_state ck) \<in> set es \<and>
    (\<exists>r \<in> set (h @ [m]). cst_kind (msg r) = ReplyState (RecoveryState ck)) \<and>
    (let replies = filter (state_reply (st_curr_seq st) (ck_digest ck)) (h @ [m]) in
     nv_f view < length replies \<and>
     (distinct (map (\<lambda>r. hdr_from (hdr r)) replies) \<longrightarrow> nv_f view < card ((\<lambda>r. hdr_from (hdr r)) ` set replies)))"
proof -
  obtain st1 es1 s where a: "advance_cst A E view (Message (hdr m) (msg m)) st = (st1, es1, Ok (State s))"
    "n = ck_seq (rs_checkpoint s)" "InstallState (ck_state (rs_checkpoint s)) \<in> set es"
    using st_process_finished [OF assms(2)] by blast
  note sup = advance_State [OF st_run_inv [OF assms(1)] a(1)]
  define replies where "replies = filter (state_reply (st_curr_seq st) (ck_digest (rs_checkpoint s))) (h @ [m])"
  have "distinct (map (\<lambda>r. hdr_from (hdr r)) replies) \<Longrightarrow> card ((\<lambda>r. hdr_from (hdr r)) ` set replies) = length replies"
    using distinct_card [of "map (\<lambda>r. hdr_from (hdr r)) replies"] by simp
  moreover have "RecoveryState (rs_checkpoint s) = s" by (cases s) simp
  moreover have "nv_f view < length replies" using sup by (simp only: tally_def replies_def)
  ultimately show ?thesis
    using sup a(2,3) by (intro exI [of _ "rs_checkpoint s"]) (simp only: Let_def flip: replies_def, auto)
qed

lemma iter_cids_set: "env_laws E \<Longrightarrow> set (iter_cids E xs) = set xs"
  unfolding env_laws_def by (metis set_mset_mset)

lemma decide_cid_supported:
  assumes "env_laws E" and "decide_cid A E view ids = Some (StatusSeqNo n)"
  shows "(ids = [] \<and> n = ZERO A) \<or> (\<exists>dg c. (dg, c) \<in> set ids \<and> n = rcid_cid c \<and> nv_quorum view \<le> rcid_count c)"
proof -
  let ?l = "map (\<lambda>(digest, c). (digest, rcid_cid c, rcid_count c)) (iter_cids E ids)"
  let ?s = "sort_key (\<lambda>(digest :: Digest, cid :: SeqNo, cnt). - int cnt) ?l"
  show ?thesis
  proof (cases ?s)
    case Nil
    have "length ?l = 0" using arg_cong [OF Nil, of length] by (simp only: length_sort list.size)
    then have "iter_cids E ids = []" by simp
    then have "ids = []" using iter_cids_set [OF assms(1), of ids] by simp
    with assms(2) Nil show ?thesis by (simp add: decide_cid_def Let_def)
  next
    case (Cons x xs)
    obtain dg cid cnt where x: "x = (dg, cid, cnt)" by (cases x)
    have "x \<in> set ?l" using arg_cong [OF Cons, of set] by auto
    then obtain c where c: "(dg, c) \<in> set ids" "cid = rcid_cid c" "cnt = rcid_count c"
      using iter_cids_set [OF assms(1), of ids] x by auto
    with assms(2) Cons x show ?thesis by (auto simp: decide_cid_def Let_def split: if_splits)
  qed
qed

lemma count_cid_SeqNo:
  assumes "cids_ok h (st_curr_seq st) (st_received_state_ids st)" and "env_laws E"
    and "blanks_ok h (st_curr_seq st) (st_received_state_ids st) (i + 1)"
    and "count_cid_reply A E view i st = (st', es, Ok (StatusSeqNo n))"
  shows "(n = ZERO A \<and> nv_quorum view \<le> tally (blank_reply (st_curr_seq st)) h) \<or>
    (\<exists>dg. nv_quorum view \<le> tally (cid_reply (st_curr_seq st) n dg) h)"
proof -
  have d: "decide_cid A E view (st_received_state_ids st) = Some (StatusSeqNo n)"
    "nv_quorum view \<le> i + 1"
    using assms(4) by (auto simp: count_cid_reply_def Let_def split: if_splits option.splits)
  from decide_cid_supported [OF assms(2) d(1)] show ?thesis
  proof
    assume "\<exists>dg c. (dg, c) \<in> set (st_received_state_ids st) \<and> n = rcid_cid c \<and> nv_quorum view \<le> rcid_count c"
    then obtain dg c where c: "(dg, c) \<in> set (st_received_state_ids st)" "n = rcid_cid c" "nv_quorum view \<le> rcid_count c"
      by blast
    then have "map_of (st_received_state_ids st) dg = Some c"
      using assms(1) by (simp add: cids_ok_def)
    with assms(1) c show ?thesis unfolding cids_ok_def by (metis le_trans)
  qed (use d(2) assms(3) in \<open>simp add: blanks_ok_def\<close>)
qed

text \<open>
  C28. When the protocol reports the number of the latest checkpoint, a quorum of replies to the
  current request named this number together with one digest, or the number is zero and a quorum of
  replies to the current request was blank. As the code does, replies are counted and not their
  senders.
\<close>

theorem reported_seq_supported:
  assumes "st_run A h st" and "env_laws E"
    and "advance_cst A E view (Message (hdr m) (msg m)) st = (st', es, Ok (StatusSeqNo n))"
  shows "(n = ZERO A \<and> nv_quorum view \<le> tally (blank_reply (st_curr_seq st)) (h @ [m])) \<or>
    (\<exists>dg. nv_quorum view \<le> tally (cid_reply (st_curr_seq st) n dg) (h @ [m]))"
proof -
  note inv = st_run_inv [OF assms(1)]
  obtain i where ph: "st_phase st = ReceivingCid i"
  proof (cases "st_phase st")
    case Init
    then show ?thesis using assms(3)
      by (auto simp: advance_cst_def split: CstMessageKind.splits prod.splits)
        (auto simp: res_map_def split: res.splits)
  next
    case (WaitingCheckpoint ms)
    then show ?thesis using assms(3)
      by (auto simp: advance_cst_def split: prod.splits) (auto simp: res_map_def split: res.splits)
  next
    case (ReceivingState j)
    then show ?thesis using assms(3)
      by (auto simp: advance_cst_def process_receiving_state_def Let_def split: if_splits option.splits)
  qed (use that in blast)
  have ok: "cids_ok h (st_curr_seq st) (st_received_state_ids st)"
    "blanks_ok h (st_curr_seq st) (st_received_state_ids st) i" using inv ph by (simp_all add: st_inv_def)
  have p: "process_receiving_cid A E view i (hdr m) (msg m) st = (st', es, Ok (StatusSeqNo n))"
    using assms(3) ph by (simp add: advance_cst_def)
  then obtain x where seq: "cst_seq (msg m) = st_curr_seq st" and kind: "cst_kind (msg m) = ReplyStateCid x"
    by (auto simp: process_receiving_cid_def res_map_def split: if_splits CstMessageKind.splits prod.splits res.splits)
  show ?thesis
  proof (cases x)
    case None
    then show ?thesis
      using p seq kind count_cid_SeqNo [OF cids_ok_more [OF ok(1), of "[m]"] assms(2) blanks_ok_counted [OF ok(2)]]
      by (simp add: process_receiving_cid_def blank_reply_def)
  next
    case (Some y)
    obtain cid d where y: "y = (cid, d)" by (cases y)
    have "cid_reply (st_curr_seq st) cid d m" using seq kind Some y by (simp add: cid_reply_def)
    note ok' = cids_ok_record [OF ok(1) this]
    let ?st = "st\<lparr>st_received_state_ids := record_cid cid d (st_received_state_ids st)\<rparr>"
    have "count_cid_reply A E view i ?st = (st', es, Ok (StatusSeqNo n))"
      using p seq kind Some y by (simp add: process_receiving_cid_def)
    from count_cid_SeqNo [where h = "h @ [m]", OF _ assms(2) _ this] ok' show ?thesis
      by (simp add: blanks_ok_recorded del: tally_append)
  qed
qed

subsection \<open>Matching replies finish a transfer\<close>

fun st_feed :: "atlas \<Rightarrow> 's cst_env \<Rightarrow> NetworkView \<Rightarrow> 's CstMessage StoredMessage list \<Rightarrow> 's CollabStateTransfer
    \<Rightarrow> 's CollabStateTransfer \<times> (STResult, StateTransferError) res" where
  \<comment> \<open>processing messages until the protocol stops running\<close>
  "st_feed A E view [] st = (st, Ok StateTransferRunning)"
| "st_feed A E view (m # ms) st =
     (case st_process_message A E view m st of
        (st, _, Ok StateTransferRunning) \<Rightarrow> st_feed A E view ms st
      | (st, _, r) \<Rightarrow> (st, r))"

text \<open>\<open>k\<close> replies for \<open>dg\<close> were counted, the newest of them with number \<open>n\<close>.\<close>

definition collecting :: "nat \<Rightarrow> SeqNo \<Rightarrow> Digest \<Rightarrow> SeqNo \<Rightarrow> 's CollabStateTransfer \<Rightarrow> bool" where
  "collecting k q dg n st \<longleftrightarrow> st_phase st = ReceivingState k \<and> st_curr_seq st = q \<and>
     (if k = 0 then st_received_states st = [] \<and> n = 0
      else \<exists>s. st_received_states st = [(dg, ReceivedState k s)] \<and> ck_seq (rs_checkpoint s) = n)"

definition reply_seq :: "'s CstMessage StoredMessage \<Rightarrow> SeqNo" where
  "reply_seq m = (case cst_kind (msg m) of ReplyState s \<Rightarrow> ck_seq (rs_checkpoint s) | _ \<Rightarrow> 0)"

lemma iter_states_single: "env_laws E \<Longrightarrow> iter_states E [x] = [x]"
  unfolding env_laws_def by (metis mset_single_iff_right mset.simps(1) mset.simps(2))

lemma state_replyE:
  assumes "state_reply q dg m"
  obtains s where "cst_seq (msg m) = q" "cst_kind (msg m) = ReplyState s" "ck_digest (rs_checkpoint s) = dg"
  using assms by (cases "cst_kind (msg m)") (auto simp: state_reply_def)

lemma collecting_step:
  assumes "collecting k q dg n st" and "state_reply q dg m" and "env_laws E" and "env_ack E" and "env_install E"
  shows "k < nv_f view \<Longrightarrow> \<exists>st' es. st_process_message A E view m st = (st', es, Ok StateTransferRunning) \<and>
      collecting (Suc k) q dg (max n (reply_seq m)) st'"
    and "k = nv_f view \<Longrightarrow> \<exists>st' es. st_process_message A E view m st =
      (st', es, Ok (StateTransferFinished (max n (reply_seq m)))) \<and> st_phase st' = Init"
proof -
  obtain s where s: "cst_seq (msg m) = q" "cst_kind (msg m) = ReplyState s" "ck_digest (rs_checkpoint s) = dg"
    using assms(2) by (rule state_replyE)
  have ph: "st_phase st = ReceivingState k" "st_curr_seq st = q" using assms(1) by (simp_all add: collecting_def)
  obtain t where t: "record_state s (st_received_states st) = [(dg, ReceivedState (Suc k) t)]"
    "ck_seq (rs_checkpoint t) = max n (reply_seq m)"
  proof (cases "k = 0")
    case True
    then show ?thesis using assms(1) s that [of s] by (simp add: collecting_def record_state_def reply_seq_def)
  next
    case False
    then obtain u where u: "st_received_states st = [(dg, ReceivedState k u)]" "ck_seq (rs_checkpoint u) = n"
      using assms(1) by (auto simp: collecting_def)
    then show ?thesis
      using s that [of "if ck_seq (rs_checkpoint u) < ck_seq (rs_checkpoint s) then s else u"]
      by (auto simp: record_state_def Let_def reply_seq_def max_def)
  qed
  show "\<exists>st' es. st_process_message A E view m st = (st', es, Ok StateTransferRunning) \<and>
      collecting (Suc k) q dg (max n (reply_seq m)) st'" if "k < nv_f view"
    using that ph s t assms(4)
    by (simp add: st_process_message_def Let_def advance_cst_def process_receiving_state_def take_state_def
        handle_status_def collecting_def)
  show "\<exists>st' es. st_process_message A E view m st =
      (st', es, Ok (StateTransferFinished (max n (reply_seq m)))) \<and> st_phase st' = Init" if "k = nv_f view"
    using that ph s t assms(4,5) iter_states_single [OF assms(3)]
    by (simp add: st_process_message_def Let_def advance_cst_def process_receiving_state_def take_state_def
        handle_status_def)
qed

lemma collecting_feed:
  assumes "env_laws E" and "env_ack E" and "env_install E"
  shows "collecting k q dg n st \<Longrightarrow> list_all (state_reply q dg) ms \<Longrightarrow> k + length ms = Suc (nv_f view) \<Longrightarrow>
    ms \<noteq> [] \<Longrightarrow> \<exists>st'. st_feed A E view ms st = (st', Ok (StateTransferFinished (foldl max n (map reply_seq ms)))) \<and>
    st_phase st' = Init"
proof (induction ms arbitrary: k n st)
  case (Cons m ms)
  have m: "state_reply q dg m" using Cons.prems(2) by simp
  show ?case
  proof (cases ms)
    case Nil
    then have "k = nv_f view" using Cons.prems(3) by simp
    from collecting_step(2) [OF Cons.prems(1) m assms this, of A] Nil show ?thesis by auto
  next
    case (Cons m' ms')
    then have "k < nv_f view" using Cons.prems(3) by simp
    then obtain st' es where p: "st_process_message A E view m st = (st', es, Ok StateTransferRunning)"
      "collecting (Suc k) q dg (max n (reply_seq m)) st'"
      using collecting_step(1) [OF Cons.prems(1) m assms] by blast
    from Cons.IH [OF p(2)] Cons.prems(2,3) Cons p(1) show ?thesis by auto
  qed
qed simp

text \<open>
  C29. A transfer finishes: when the first \<open>f + 1\<close> replies to a state request are for the same
  digest, the protocol hands over a state with the largest number among them and is idle again.
  (The replies are not checked to come from different replicas.)
\<close>

theorem matching_replies_finish:
  assumes "env_laws E" and "env_ack E" and "env_install E"
    and "st1 = fst (request_latest_state A E view st)"
    and "list_all (state_reply (st_curr_seq st1) dg) ms" and "length ms = nv_f view + 1"
  shows "\<exists>st2. st_feed A E view ms st1 = (st2, Ok (StateTransferFinished (Max (set (map reply_seq ms))))) \<and>
    st_phase st2 = Init"
proof -
  have "collecting 0 (st_curr_seq st1) dg 0 st1"
    by (simp add: collecting_def assms(4) request_latest_state_def Let_def next_cst_seq_def)
  moreover have "foldl max 0 xs = Max (set xs)" if "xs \<noteq> []" for xs :: "nat list"
    using that
  proof (induction xs rule: rev_induct)
    case (snoc x xs)
    then show ?case by (cases "xs = []") (simp_all add: max.commute)
  qed simp
  moreover have "ms \<noteq> []" using assms(6) by auto
  ultimately show ?thesis
    using collecting_feed [OF assms(1-3), of 0 "st_curr_seq st1" dg 0 st1 ms view A] assms(5,6) by simp
qed

subsection \<open>Waiting requests\<close>

definition served :: "'s CollabStateTransfer \<Rightarrow> 's Checkpoint option" where
  \<comment> \<open>the checkpoint requests are answered with\<close>
  "served st =
     (case st_current_checkpoint_state st of
        PartialWithEarlier _ earlier \<Rightarrow> Some earlier | Complete ck \<Rightarrow> Some ck | _ \<Rightarrow> None)"

abbreviation requester :: "'s CstMessage StoredMessage \<Rightarrow> NodeId" where
  "requester r \<equiv> hdr_from (hdr r)"

definition request_seqs :: "NodeId \<Rightarrow> 's CstMessage StoredMessage list \<Rightarrow> SeqNo set" where
  "request_seqs n reqs = (\<lambda>r. cst_seq (msg r)) ` {r \<in> set reqs. requester r = n}"

lemma request_seqs_snoc:
  "request_seqs n (reqs @ [r]) =
   (if requester r = n then insert (cst_seq (msg r)) (request_seqs n reqs) else request_seqs n reqs)"
  by (auto simp: request_seqs_def)

lemma request_seqs_simps:
  "request_seqs n [] = {}"
  "request_seqs n (r # reqs) =
   (if requester r = n then insert (cst_seq (msg r)) (request_seqs n reqs) else request_seqs n reqs)"
  by (auto simp: request_seqs_def)

lemma finite_request_seqs [simp]: "finite (request_seqs n reqs)"
  by (simp add: request_seqs_def)

lemma request_seqs_empty: "request_seqs n reqs = {} \<longleftrightarrow> n \<notin> requester ` set reqs"
  by (auto simp: request_seqs_def)

definition kept_ok :: "'s CstMessage StoredMessage list \<Rightarrow> (NodeId \<times> 's CstMessage StoredMessage) list \<Rightarrow> bool" where
  "kept_ok reqs m \<longleftrightarrow> distinct (map fst m) \<and> fst ` set m = requester ` set reqs \<and>
     (\<forall>n x. map_of m n = Some x \<longrightarrow> requester x = n \<and> cst_seq (msg x) = Max (request_seqs n reqs))"

lemma kept_okD:
  assumes "kept_ok reqs m"
  shows "distinct (map fst m)" "fst ` set m = requester ` set reqs"
    "map_of m n = Some x \<Longrightarrow> requester x = n" "map_of m n = Some x \<Longrightarrow> cst_seq (msg x) = Max (request_seqs n reqs)"
  using assms unfolding kept_ok_def by blast+

lemma kept_update:
  assumes "kept_ok reqs m" and "cst_seq (msg r) = Max (request_seqs (requester r) (reqs @ [r]))"
  shows "kept_ok (reqs @ [r]) (AList.update (requester r) r m)"
proof -
  let ?m = "AList.update (requester r) r m"
  have "distinct (map fst ?m)" "fst ` set ?m = requester ` set (reqs @ [r])"
    using kept_okD(1,2) [OF assms(1)] by (simp_all add: distinct_update dom_update)
  moreover have "requester y = n \<and> cst_seq (msg y) = Max (request_seqs n (reqs @ [r]))"
    if "map_of ?m n = Some y" for n y
    using assms(2) that kept_okD(3,4) [OF assms(1), of n y]
    by (cases "n = requester r") (simp_all add: request_seqs_snoc update_conv')
  ultimately show ?thesis unfolding kept_ok_def by blast
qed

lemma kept_skip:
  assumes "kept_ok reqs m" and "map_of m (requester r) = Some x"
    and "cst_seq (msg x) = Max (request_seqs (requester r) (reqs @ [r]))"
  shows "kept_ok (reqs @ [r]) m"
proof -
  have "requester r \<in> fst ` set m" using map_of_SomeD [OF assms(2)] by force
  then have "fst ` set m = requester ` set (reqs @ [r])" using kept_okD(2) [OF assms(1)] by auto
  moreover have "requester y = n \<and> cst_seq (msg y) = Max (request_seqs n (reqs @ [r]))"
    if "map_of m n = Some y" for n y
    using assms(2,3) that kept_okD(3,4) [OF assms(1) that]
    by (cases "n = requester r") (simp_all add: request_seqs_snoc)
  ultimately show ?thesis using kept_okD(1) [OF assms(1)] unfolding kept_ok_def by blast
qed

lemma latest_request_ok:
  assumes "kept_ok reqs m"
  shows "kept_ok (reqs @ [r]) (latest_request m r)"
proof (cases "map_of m (requester r)")
  case None
  then have "requester r \<notin> requester ` set reqs" using kept_okD(2) [OF assms] by (simp add: map_of_eq_None_iff)
  then have "cst_seq (msg r) = Max (request_seqs (requester r) (reqs @ [r]))"
    by (simp add: request_seqs_snoc flip: request_seqs_empty)
  from kept_update [OF assms this] None show ?thesis by (simp add: latest_request_def)
next
  case (Some x)
  then have x: "cst_seq (msg x) = Max (request_seqs (requester r) reqs)" "requester r \<in> requester ` set reqs"
    using kept_okD(2,4) [OF assms] Some map_of_SomeD [OF Some] by (blast, metis fst_conv imageI)
  then have "request_seqs (requester r) reqs \<noteq> {}" by (simp add: request_seqs_empty)
  then have mx: "Max (request_seqs (requester r) (reqs @ [r])) = max (cst_seq (msg r)) (cst_seq (msg x))"
    using x(1) by (simp add: request_seqs_snoc)
  show ?thesis
  proof (cases "cst_seq (msg x) < cst_seq (msg r)")
    case True
    then show ?thesis using kept_update [OF assms, of r] Some mx by (simp add: latest_request_def)
  next
    case False
    then show ?thesis using kept_skip [OF assms Some] Some mx by (simp add: latest_request_def)
  qed
qed

lemma latest_requests_ok: "kept_ok reqs (foldl latest_request [] reqs)"
proof (induction reqs rule: rev_induct)
  case Nil
  then show ?case by (simp add: kept_ok_def)
next
  case (snoc r reqs)
  then show ?case using latest_request_ok by simp
qed

definition state_answer :: "'s Checkpoint \<Rightarrow> SeqNo \<Rightarrow> NodeId \<Rightarrow> 's cst_effect" where
  "state_answer ck q n = SendSigned (CstMessage q (ReplyState (RecoveryState ck))) n"

lemma answer_all:
  assumes "st_phase st = Init" and "served st = Some ck" and "\<And>n. env_send E n"
  shows "process_request_states E reqs st =
    (st, map (\<lambda>r. state_answer ck (cst_seq (msg r)) (requester r)) reqs, Ok ())"
proof (induction reqs)
  case (Cons r reqs)
  have "process_request_state E (hdr r) (msg r) st = (st, [state_answer ck (cst_seq (msg r)) (requester r)], Ok ())"
    using assms by (auto simp: process_request_state_def served_def reply_state_def state_answer_def
        split: CheckpointState.splits)
  with Cons show ?case by simp
qed simp

text \<open>
  C30. When a checkpoint is available the waiting requests are answered: every replica that
  asked gets exactly one reply with this checkpoint, to the latest of its requests, and nobody
  else gets any.
\<close>

theorem waiting_requests_answered:
  assumes "env_laws E" and "\<And>n. env_send E n" and "st_phase st = WaitingCheckpoint reqs" and "served st = Some ck"
  shows "\<exists>es. process_pending_state_requests E st = (st\<lparr>st_phase := Init\<rparr>, es, Ok ()) \<and>
    mset es = image_mset (\<lambda>n. state_answer ck (Max (request_seqs n reqs)) n) (mset_set (requester ` set reqs))"
proof -
  let ?m = "foldl latest_request [] reqs" and ?answer = "\<lambda>r. state_answer ck (cst_seq (msg r)) (requester r)"
  have ok: "distinct (map fst ?m)" "fst ` set ?m = requester ` set reqs"
    "\<And>n x. map_of ?m n = Some x \<Longrightarrow> requester x = n \<and> cst_seq (msg x) = Max (request_seqs n reqs)"
    using kept_okD [OF latest_requests_ok [of reqs]] by blast+
  have eq: "process_pending_state_requests E st =
      (st\<lparr>st_phase := Init\<rparr>, map ?answer (map snd (iter_requests E ?m)), Ok ())"
    using answer_all [of "st\<lparr>st_phase := Init\<rparr>" ck E] assms(2-4)
    by (simp add: process_pending_state_requests_def Let_def served_def)
  have "mset (map ?answer (map snd (iter_requests E ?m))) = image_mset (?answer \<circ> snd) (mset ?m)"
    using assms(1) by (simp add: env_laws_def multiset.map_comp)
  also have "\<dots> = image_mset ((\<lambda>n. state_answer ck (Max (request_seqs n reqs)) n) \<circ> fst) (mset ?m)"
  proof (rule image_mset_cong)
    fix p assume "p \<in># mset ?m"
    then have "map_of ?m (fst p) = Some (snd p)" using ok(1) by simp
    then show "(?answer \<circ> snd) p = ((\<lambda>n. state_answer ck (Max (request_seqs n reqs)) n) \<circ> fst) p"
      using ok(3) by simp
  qed
  also have "\<dots> = image_mset (\<lambda>n. state_answer ck (Max (request_seqs n reqs)) n) (mset_set (requester ` set reqs))"
    using ok(1,2) mset_set_set [OF ok(1)] by (simp flip: multiset.map_comp)
  finally show ?thesis using eq by blast
qed

subsection \<open>The checkpoint\<close>

lemma process_request_state_checkpoint:
  "st_current_checkpoint_state (fst (process_request_state E hh m st)) = st_current_checkpoint_state st"
  by (simp add: process_request_state_def reply_state_def split: ProtoPhase.split CheckpointState.split)

lemma process_request_states_checkpoint:
  "st_current_checkpoint_state (fst (process_request_states E reqs st)) = st_current_checkpoint_state st"
proof (induction reqs arbitrary: st)
  case (Cons r reqs)
  obtain st1 es1 r1 where p: "process_request_state E (hdr r) (msg r) st = (st1, es1, r1)"
    by (cases "process_request_state E (hdr r) (msg r) st")
  have "st_current_checkpoint_state st1 = st_current_checkpoint_state st"
    using process_request_state_checkpoint [of E "hdr r" "msg r" st] p by simp
  with Cons [of st1] p show ?case by (cases "process_request_states E reqs st1") (simp split: res.split)
qed simp

lemma process_pending_checkpoint:
  "st_current_checkpoint_state (fst (process_pending_state_requests E st)) = st_current_checkpoint_state st"
  by (simp add: process_pending_state_requests_def Let_def process_request_states_checkpoint split: ProtoPhase.split)

lemma advance_cst_checkpoint:
  "st_current_checkpoint_state (fst (advance_cst A E view p st)) = st_current_checkpoint_state st"
proof -
  have req: "st_current_checkpoint_state (fst (case process_request_state E hh m st of
      (st, es, r) \<Rightarrow> (st, es, res_map f r))) = st_current_checkpoint_state st" for hh m f
    using process_request_state_checkpoint [of E hh m st] by (cases "process_request_state E hh m st") simp
  have pend: "st_current_checkpoint_state (fst (case process_pending_state_requests E st of
      (st, es, r) \<Rightarrow> (st, es, res_map f r))) = st_current_checkpoint_state st" for f
    using process_pending_checkpoint [of E st] by (cases "process_pending_state_requests E st") simp
  have cid: "st_current_checkpoint_state (fst (count_cid_reply A E view i st')) = st_current_checkpoint_state st'" for i st'
    by (simp add: count_cid_reply_def Let_def split: option.split)
  show ?thesis
    unfolding advance_cst_def process_receiving_cid_def process_receiving_state_def
    by (simp add: req pend cid Let_def split: ProtoPhase.split CstProgress.split CstMessageKind.split option.split prod.split)
qed

lemma handle_status_checkpoint:
  "st_current_checkpoint_state (fst (handle_status A E view status st)) = st_current_checkpoint_state st"
  by (simp add: handle_status_def request_latest_state_def request_latest_consensus_seq_no_def next_cst_seq_def
      Let_def split: CstStatus.split)

lemma served_cong: "st_current_checkpoint_state st = st_current_checkpoint_state st' \<Longrightarrow> served st = served st'"
  by (simp add: served_def)

lemma process_checkpoint:
  "st_current_checkpoint_state (fst (st_process_message A E view m st)) = st_current_checkpoint_state st"
  "st_current_checkpoint_state (fst (handle_off_ctx_message A E view m st)) = st_current_checkpoint_state st"
proof -
  obtain st1 es1 r1 where a: "advance_cst A E view (Message (hdr m) (msg m)) st = (st1, es1, r1)"
    by (cases "advance_cst A E view (Message (hdr m) (msg m)) st")
  have st1: "st_current_checkpoint_state st1 = st_current_checkpoint_state st"
    using advance_cst_checkpoint [of A E view "Message (hdr m) (msg m)" st] a by simp
  obtain st2 es2 r2 where q: "process_request_state E (hdr m) (msg m) st = (st2, es2, r2)"
    by (cases "process_request_state E (hdr m) (msg m) st")
  have st2: "st_current_checkpoint_state st2 = st_current_checkpoint_state st"
    using process_request_state_checkpoint [of E "hdr m" "msg m" st] q by simp
  have hs: "st_current_checkpoint_state (fst (case handle_status A E view status st1 of
      (st, es', r) \<Rightarrow> (st, f es', r))) = st_current_checkpoint_state st" for status f
    using handle_status_checkpoint [of A E view status st1] st1 by (cases "handle_status A E view status st1") simp
  show "st_current_checkpoint_state (fst (st_process_message A E view m st)) = st_current_checkpoint_state st"
    unfolding st_process_message_def Let_def a q
    using st1 st2 by (simp add: hs split: CstMessageKind.split res.split)
  show "st_current_checkpoint_state (fst (handle_off_ctx_message A E view m st)) = st_current_checkpoint_state st"
    unfolding handle_off_ctx_message_def Let_def a q
    using st1 st2 by (simp split: CstMessageKind.split res.split CstStatus.split)
qed

definition awaiting :: "'s CollabStateTransfer \<Rightarrow> bool" where
  \<comment> \<open>the application is building a checkpoint\<close>
  "awaiting st = (case st_current_checkpoint_state st of Partial _ \<Rightarrow> True | PartialWithEarlier _ _ \<Rightarrow> True | _ \<Rightarrow> False)"

lemma finalize_checkpoint_cases:
  "awaiting st \<Longrightarrow> finalize_checkpoint E ck st =
     (st\<lparr>st_current_checkpoint_state := Complete ck\<rparr>, [WriteCheckpoint ck], if env_write E then Ok () else Err WriteFailed)"
  "\<not> awaiting st \<Longrightarrow> finalize_checkpoint E ck st =
     (st, [], Err (if served st = None then CheckpointNotInitiated else CheckpointAlreadyFinalized))"
  by (auto simp: awaiting_def finalize_checkpoint_def served_def split: CheckpointState.splits)

text \<open>
  C31. A replica never loses the checkpoint it answers requests with. Messages, in and out of
  context, do not touch it. A request for a checkpoint begins one exactly if none is being built, and the
  earlier one stays meanwhile. A delivered checkpoint is accepted exactly if one is being built: then it takes the
  place of the earlier one and is handed to the log, and if the log fails to write it that error is
  reported, the waiting requests are not answered, and the replica serves it all the same. Otherwise
  nothing changes and the error says whether no checkpoint was begun or it was finished already.
\<close>

theorem checkpoint_kept:
  "served (fst (st_process_message A E view m st)) = served st \<and>
   served (fst (handle_off_ctx_message A E view m st)) = served st \<and>
   (case handle_app_state_requested seq st of
      (st', r) \<Rightarrow> served st' = served st \<and> awaiting st' \<and> r = (if awaiting st then ExecutionNil else BeginCheckpoint)) \<and>
   (case handle_state_received_from_app E ck st of
      (st', es, r) \<Rightarrow>
        if awaiting st
        then served st' = Some ck \<and> \<not> awaiting st' \<and> (\<exists>es'. es = WriteCheckpoint ck # es') \<and>
          (\<not> env_write E \<longrightarrow> r = Err WriteFailed \<and> es = [WriteCheckpoint ck] \<and> st_phase st' = st_phase st) \<and>
          (env_write E \<and> \<not> needs_checkpoint st \<longrightarrow> r = Ok () \<and> es = [WriteCheckpoint ck])
        else st' = st \<and> es = [] \<and>
          r = Err (if served st = None then CheckpointNotInitiated else CheckpointAlreadyFinalized))"
proof -
  have "case handle_app_state_requested seq st of
      (st', r) \<Rightarrow> served st' = served st \<and> awaiting st' \<and> r = (if awaiting st then ExecutionNil else BeginCheckpoint)"
    by (simp add: handle_app_state_requested_def served_def awaiting_def split: CheckpointState.split)
  moreover have "case handle_state_received_from_app E ck st of
      (st', es, r) \<Rightarrow>
        served st' = Some ck \<and> \<not> awaiting st' \<and> (\<exists>es'. es = WriteCheckpoint ck # es') \<and>
        (\<not> env_write E \<longrightarrow> r = Err WriteFailed \<and> es = [WriteCheckpoint ck] \<and> st_phase st' = st_phase st) \<and>
        (env_write E \<and> \<not> needs_checkpoint st \<longrightarrow> r = Ok () \<and> es = [WriteCheckpoint ck])" if "awaiting st"
  proof -
    let ?st = "st\<lparr>st_current_checkpoint_state := Complete ck\<rparr>"
    have need: "needs_checkpoint ?st = needs_checkpoint st" by (simp add: needs_checkpoint_def)
    obtain st2 es2 r2 where p: "process_pending_state_requests E ?st = (st2, es2, r2)"
      by (cases "process_pending_state_requests E ?st")
    have "st_current_checkpoint_state st2 = Complete ck" using process_pending_checkpoint [of E ?st] p by simp
    then show ?thesis using p finalize_checkpoint_cases(1) [OF that, of E ck] need
      by (simp add: handle_state_received_from_app_def served_def awaiting_def)
  qed
  moreover have "handle_state_received_from_app E ck st =
      (st, [], Err (if served st = None then CheckpointNotInitiated else CheckpointAlreadyFinalized))" if "\<not> awaiting st"
    using finalize_checkpoint_cases(2) [OF that, of E ck] by (simp add: handle_state_received_from_app_def)
  moreover have "served (fst (st_process_message A E view m st)) = served st"
    "served (fst (handle_off_ctx_message A E view m st)) = served st"
    by (rule served_cong [OF process_checkpoint(1)], rule served_cong [OF process_checkpoint(2)])
  ultimately show ?thesis by (cases "awaiting st") (simp_all add: case_prod_unfold)
qed

subsection \<open>A concrete transfer\<close>

definition sample_env :: "nat cst_env" where
  "sample_env = \<lparr>env_id = 0, env_send = (\<lambda>_. True), env_ack = True, env_install = True, env_write = True,
     iter_cids = rev, iter_states = rev, iter_requests = rev\<rparr>"

lemma sample_env_laws: "env_laws sample_env" "env_ack sample_env" "env_install sample_env" "env_send sample_env n"
  by (simp_all add: env_laws_def sample_env_def)

definition sample_network :: NetworkView where
  "sample_network = \<lparr>nv_quorum = 3, nv_f = 1, nv_quorum_members = [0, 1, 2, 3]\<rparr>"

definition sample_checkpoint :: "nat Checkpoint" where
  "sample_checkpoint = Checkpoint 7 [9] 42"

definition sample_cid_reply :: "NodeId \<Rightarrow> nat CstMessage StoredMessage" where
  "sample_cid_reply n = StoredMessage (Header n [] []) (CstMessage 1 (ReplyStateCid (Some (7, [9]))))"

definition sample_state_reply :: "NodeId \<Rightarrow> nat CstMessage StoredMessage" where
  "sample_state_reply n = StoredMessage (Header n [] []) (CstMessage 2 (ReplyState (RecoveryState sample_checkpoint)))"

definition sample_st_step :: "nat CstMessage StoredMessage \<Rightarrow> nat CollabStateTransfer \<Rightarrow> nat CollabStateTransfer" where
  "sample_st_step m st = fst (st_process_message sample_atlas sample_env sample_network m st)"

definition sample_asking :: "nat CollabStateTransfer" where
  "sample_asking = sample_st_step (sample_cid_reply 2) (sample_st_step (sample_cid_reply 1)
     (fst (request_latest_consensus_seq_no sample_atlas sample_env sample_network (CollabStateTransfer_new sample_atlas 10))))"

definition sample_receiving :: "nat CollabStateTransfer" where
  "sample_receiving = sample_st_step (sample_state_reply 1) (sample_st_step (sample_cid_reply 3) sample_asking)"

lemma sample_st_processed:
  assumes "st_run sample_atlas h st"
    and "case snd (snd (st_process_message sample_atlas sample_env sample_network m st)) of Panic \<Rightarrow> False | _ \<Rightarrow> True"
  shows "st_run sample_atlas (h @ [m]) (sample_st_step m st)"
proof -
  obtain st' es r where p: "st_process_message sample_atlas sample_env sample_network m st = (st', es, r)"
    by (cases "st_process_message sample_atlas sample_env sample_network m st")
  with assms(2) have "r \<noteq> Panic" by auto
  from st_run.processed [OF assms(1) p this] p show ?thesis by (simp add: sample_st_step_def)
qed

lemma sample_asking_run: "st_run sample_atlas [sample_cid_reply 1, sample_cid_reply 2] sample_asking"
proof -
  let ?st = "fst (request_latest_consensus_seq_no sample_atlas sample_env sample_network
    (CollabStateTransfer_new sample_atlas 10))"
  have "st_run sample_atlas [] ?st" by (intro st_run.transfer st_run.new)
  then have "st_run sample_atlas ([] @ [sample_cid_reply 1]) (sample_st_step (sample_cid_reply 1) ?st)"
    by (rule sample_st_processed) code_simp
  then have "st_run sample_atlas (([] @ [sample_cid_reply 1]) @ [sample_cid_reply 2]) sample_asking"
    unfolding sample_asking_def by (rule sample_st_processed) code_simp
  then show ?thesis by simp
qed

lemma sample_receiving_run:
  "st_run sample_atlas [sample_cid_reply 1, sample_cid_reply 2, sample_cid_reply 3, sample_state_reply 1] sample_receiving"
proof -
  have "st_run sample_atlas ([sample_cid_reply 1, sample_cid_reply 2] @ [sample_cid_reply 3])
      (sample_st_step (sample_cid_reply 3) sample_asking)"
    by (rule sample_st_processed [OF sample_asking_run]) code_simp
  then have "st_run sample_atlas (([sample_cid_reply 1, sample_cid_reply 2] @ [sample_cid_reply 3]) @ [sample_state_reply 1])
      sample_receiving"
    unfolding sample_receiving_def by (rule sample_st_processed) code_simp
  then show ?thesis by simp
qed

theorem reported_seq_supported_witness:
  "\<exists>dg. 3 \<le> tally (cid_reply 1 7 dg) [sample_cid_reply 1, sample_cid_reply 2, sample_cid_reply 3]"
proof -
  let ?m = "sample_cid_reply 3"
  have "case snd (snd (advance_cst sample_atlas sample_env sample_network (Message (hdr ?m) (msg ?m)) sample_asking)) of
      Ok (StatusSeqNo n) \<Rightarrow> n = 7 | _ \<Rightarrow> False"
    by code_simp
  then obtain st es where
    "advance_cst sample_atlas sample_env sample_network (Message (hdr ?m) (msg ?m)) sample_asking = (st, es, Ok (StatusSeqNo 7))"
    by (cases "advance_cst sample_atlas sample_env sample_network (Message (hdr ?m) (msg ?m)) sample_asking")
      (auto split: res.splits CstStatus.splits)
  from reported_seq_supported [OF sample_asking_run sample_env_laws(1) this]
  have "\<exists>dg. nv_quorum sample_network \<le>
      tally (cid_reply (st_curr_seq sample_asking) 7 dg) ([sample_cid_reply 1, sample_cid_reply 2] @ [?m])"
    by (simp only: sample_atlas_simps) simp
  moreover have "st_curr_seq sample_asking = 1" by code_simp
  ultimately show ?thesis by (simp add: sample_network_def)
qed

theorem installed_state_supported_witness:
  "\<exists>st es. st_process_message sample_atlas sample_env sample_network (sample_state_reply 3) sample_receiving =
     (st, es, Ok (StateTransferFinished 7)) \<and>
     (\<exists>ck. ck_seq ck = 7 \<and> InstallState (ck_state ck) \<in> set es)"
proof -
  have "case snd (snd (st_process_message sample_atlas sample_env sample_network (sample_state_reply 3) sample_receiving)) of
      Ok (StateTransferFinished n) \<Rightarrow> n = 7 | _ \<Rightarrow> False"
    by code_simp
  then obtain st es where p: "st_process_message sample_atlas sample_env sample_network (sample_state_reply 3) sample_receiving =
      (st, es, Ok (StateTransferFinished 7))"
    by (cases "st_process_message sample_atlas sample_env sample_network (sample_state_reply 3) sample_receiving")
      (auto split: res.splits STResult.splits)
  from installed_state_supported [OF sample_receiving_run p] p show ?thesis by blast
qed

theorem matching_replies_finish_witness:
  "\<exists>st. st_feed sample_atlas sample_env sample_network [sample_state_reply 1, sample_state_reply 1]
     (fst (request_latest_state sample_atlas sample_env sample_network
       (fst (request_latest_state sample_atlas sample_env sample_network (CollabStateTransfer_new sample_atlas 10))))) =
     (st, Ok (StateTransferFinished 7)) \<and> st_phase st = Init"
proof -
  let ?st = "fst (request_latest_state sample_atlas sample_env sample_network (CollabStateTransfer_new sample_atlas 10))"
  have q: "st_curr_seq (fst (request_latest_state sample_atlas sample_env sample_network ?st)) = 2"
    by (simp add: request_latest_state_def Let_def next_cst_seq_def CollabStateTransfer_new_def)
  have r: "state_reply 2 [9] (sample_state_reply 1)" "reply_seq (sample_state_reply 1) = 7"
    by (simp_all add: state_reply_def reply_seq_def sample_state_reply_def sample_checkpoint_def)
  show ?thesis
    using matching_replies_finish [OF sample_env_laws(1-3) refl, where st = ?st and dg = "[9]"
        and ms = "[sample_state_reply 1, sample_state_reply 1]" and view = sample_network and A = sample_atlas] q r
    by (simp add: sample_network_def)
qed

definition sample_waiting :: "nat CollabStateTransfer" where
  "sample_waiting = (CollabStateTransfer_new sample_atlas 10)\<lparr>st_current_checkpoint_state := Complete sample_checkpoint,
     st_phase := WaitingCheckpoint [StoredMessage (Header 1 [] []) (CstMessage 3 RequestState),
       StoredMessage (Header 1 [] []) (CstMessage 5 RequestState)]\<rparr>"

theorem waiting_requests_answered_witness:
  "\<exists>es. process_pending_state_requests sample_env sample_waiting = (sample_waiting\<lparr>st_phase := Init\<rparr>, es, Ok ()) \<and>
     mset es = {#state_answer sample_checkpoint 5 1#}"
proof -
  let ?reqs = "[StoredMessage (Header 1 [] []) (CstMessage 3 RequestState),
       StoredMessage (Header 1 [] []) (CstMessage 5 (RequestState :: nat CstMessageKind))]"
  have "st_phase sample_waiting = WaitingCheckpoint ?reqs" "served sample_waiting = Some sample_checkpoint"
    by (simp_all add: sample_waiting_def served_def)
  moreover have "request_seqs 1 ?reqs = {3, 5}" by (simp add: request_seqs_simps)
  ultimately show ?thesis
    using waiting_requests_answered [OF sample_env_laws(1,4), of sample_waiting ?reqs sample_checkpoint] by simp
qed

definition sample_partial :: "nat CollabStateTransfer" where
  "sample_partial = fst (handle_app_state_requested 7 (CollabStateTransfer_new sample_atlas 10))"

theorem checkpoint_kept_witness:
  "case handle_state_received_from_app (sample_env\<lparr>env_write := False\<rparr>) sample_checkpoint sample_partial of
     (st, es, r) \<Rightarrow> served st = Some sample_checkpoint \<and> r = Err WriteFailed \<and> es = [WriteCheckpoint sample_checkpoint]"
proof -
  have "awaiting sample_partial"
    by (simp add: awaiting_def sample_partial_def handle_app_state_requested_def CollabStateTransfer_new_def)
  then show ?thesis
    using checkpoint_kept [where st = sample_partial and ck = sample_checkpoint and E = "sample_env\<lparr>env_write := False\<rparr>"]
    by (auto simp: sample_env_def)
qed

end
