(* ===== verification/Soundness.thy ===== *)
theory Soundness
  imports Decisions
begin

text \<open>
  What a new leader, and every replica that checks it, computes from the collected \<open>STOP-DATA\<close>
  messages: the free functions at the end of \<open>bft/sync/mod.rs\<close>, from \<open>sound\<close> to
  \<open>highest_proof\<close>.

  The two hash sets of \<open>sound\<close> are lists without repetition. They are iterated in an arbitrary
  order, so each iteration goes through a function of the parameter \<open>iter_env\<close>, which
  \<open>iter_laws\<close> requires to keep the elements. A signature check is three calls of
  \<open>atlas_communication\<close>, the fields of the parameter \<open>signatures\<close>. Reading a message of the
  wrong kind with \<open>PBFTMessage::consensus\<close> or \<open>view_change\<close> is \<open>Panic\<close>. The counts are lengths
  of lists in memory, so they do not reach the width of \<open>usize\<close>.

  Shown: with exactly a quorum of collects, which is when the leader evaluates it, at most one
  value binds and \<open>sound\<close> finds it whatever the order of iteration; \<open>highest_proof\<close> returns a
  proof of the greatest sequence number among those with a quorum of matching signed votes.
\<close>

record signatures =
  wire_from_header :: "Header \<Rightarrow> bool"
  node_public_key :: "NodeId \<Rightarrow> nat option"
  wire_is_valid :: "Header \<Rightarrow> nat \<Rightarrow> bool"

record iter_env =
  iter_seq_numbers :: "SeqNo list \<Rightarrow> SeqNo list"
  iter_values :: "Digest list \<Rightarrow> Digest list"

definition iter_laws :: "iter_env \<Rightarrow> bool" where
  "iter_laws I \<longleftrightarrow> (\<forall>xs. set (iter_seq_numbers I xs) = set xs) \<and> (\<forall>xs. set (iter_values I xs) = set xs)"

datatype Sound = Unbound bool | Bound Digest

definition sound_value :: "Sound \<Rightarrow> Digest option" where
  "sound_value s = (case s of Bound d \<Rightarrow> Some d | _ \<Rightarrow> None)"

definition sound_test :: "Sound \<Rightarrow> bool" where
  "sound_test s = (case s of Unbound ok \<Rightarrow> ok | _ \<Rightarrow> True)"

subsection \<open>The predicates\<close>

abbreviation collect_quorum_prepares :: "'o CollectData \<Rightarrow> ViewDecisionPair option" where
  "collect_quorum_prepares c \<equiv> ip_quorum_prepares (cd_incomplete_proof c)"

abbreviation collect_write_set :: "'o CollectData \<Rightarrow> ViewDecisionPair list" where
  "collect_write_set c \<equiv> ps_pairs (ip_write_set (cd_incomplete_proof c))"

definition quorum_highest :: "ViewInfo \<Rightarrow> SeqNo \<Rightarrow> Digest \<Rightarrow> 'o CollectData option list \<Rightarrow> bool" where
  "quorum_highest curr_view ts value normalized_collects =
     (let collects = List.map_filter id normalized_collects;
          appears = list_ex (\<lambda>collect. case collect_quorum_prepares collect of
              Some (ViewDecisionPair other_ts other_value) \<Rightarrow> other_ts = ts \<and> other_value = value
            | None \<Rightarrow> False) collects;
          count = length (filter (\<lambda>collect. case collect_quorum_prepares collect of
              Some (ViewDecisionPair other_ts other_value) \<Rightarrow>
                if other_ts < ts then True else other_ts = ts \<and> other_value = value
            | None \<Rightarrow> False) collects)
      in appears \<and> view_quorum curr_view \<le> count)"

definition certified_value :: "ViewInfo \<Rightarrow> SeqNo \<Rightarrow> Digest \<Rightarrow> 'o CollectData option list \<Rightarrow> bool" where
  "certified_value curr_view ts value normalized_collects =
     (let count = sum_list (map (\<lambda>collect.
            length (filter (\<lambda>ViewDecisionPair other_ts other_value \<Rightarrow> ts \<le> other_ts \<and> other_value = value)
              (collect_write_set collect))) (List.map_filter id normalized_collects))
      in view_f curr_view < count)"

definition binds :: "ViewInfo \<Rightarrow> SeqNo \<Rightarrow> Digest \<Rightarrow> 'o CollectData option list \<Rightarrow> bool" where
  "binds curr_view ts value normalized_collects =
     (if length normalized_collects < view_quorum curr_view then False
      else quorum_highest curr_view ts value normalized_collects \<and>
           certified_value curr_view ts value normalized_collects)"

definition unbound :: "atlas \<Rightarrow> ViewInfo \<Rightarrow> 'o CollectData option list \<Rightarrow> bool" where
  "unbound A curr_view normalized_collects =
     (if length normalized_collects < view_quorum curr_view then False
      else
        let count = length (filter (\<lambda>maybe_collect. case maybe_collect of
                Some collect \<Rightarrow>
                  (case collect_quorum_prepares collect of
                     Some (ViewDecisionPair other_ts _) \<Rightarrow> other_ts = ZERO A
                   | None \<Rightarrow> True)
              | None \<Rightarrow> True) normalized_collects)
        in view_quorum curr_view \<le> count)"

fun add_write_set :: "ViewDecisionPair list \<Rightarrow> SeqNo list \<times> Digest list \<Rightarrow> SeqNo list \<times> Digest list" where
  "add_write_set [] sv = sv"
| "add_write_set (ViewDecisionPair seq_no value # ps) (seq_numbers, values) =
     add_write_set ps (List.insert seq_no seq_numbers, List.insert value values)"

fun collect_votes :: "atlas \<Rightarrow> 'o CollectData option list \<Rightarrow> SeqNo list \<times> Digest list
    \<Rightarrow> SeqNo list \<times> Digest list" where
  "collect_votes A [] sv = sv"
| "collect_votes A (None # cs) (seq_numbers, values) =
     collect_votes A cs (List.insert (ZERO A) seq_numbers, values)"
| "collect_votes A (Some c # cs) (seq_numbers, values) =
     collect_votes A cs (add_write_set (collect_write_set c)
       (List.insert (case collect_quorum_prepares c of Some (ViewDecisionPair ts _) \<Rightarrow> ts | None \<Rightarrow> ZERO A)
          seq_numbers, values))"

definition sound :: "iter_env \<Rightarrow> atlas \<Rightarrow> ViewInfo \<Rightarrow> 'o CollectData option list \<Rightarrow> Sound" where
  "sound I A curr_view normalized_collects =
     (let (seq_numbers, values) = collect_votes A normalized_collects ([], [])
      in case find (\<lambda>(seq_no, value). binds curr_view seq_no value normalized_collects)
                (List.product (iter_seq_numbers I seq_numbers) (iter_values I values)) of
           Some (_, value) \<Rightarrow> Bound value
         | None \<Rightarrow> Unbound (unbound A curr_view normalized_collects))"

subsection \<open>Collects and proofs\<close>

fun collect_data :: "'o StoredConsensusMessage list \<Rightarrow> ('o CollectData list, 'e) res" where
  "collect_data [] = Ok []"
| "collect_data (stored # rest) =
     res_bind (view_change (msg stored)) (\<lambda>v.
       case vc_kind v of
         StopData collects \<Rightarrow> res_map ((#) collects) (collect_data rest)
       | _ \<Rightarrow> collect_data rest)"

definition normalized_collects :: "SeqNo \<Rightarrow> 'o CollectData list \<Rightarrow> 'o CollectData option list" where
  "normalized_collects in_exec collects =
     map (\<lambda>collect. if ip_in_exec (cd_incomplete_proof collect) = in_exec then Some collect else None) collects"

definition validate_signature :: "signatures \<Rightarrow> 'm StoredMessage \<Rightarrow> bool" where
  "validate_signature S stored =
     (if \<not> wire_from_header S (hdr stored) then False
      else case node_public_key S (hdr_from (hdr stored)) of
             Some key \<Rightarrow> wire_is_valid S (hdr stored) key
           | None \<Rightarrow> False)"

definition signed_collects :: "signatures \<Rightarrow> 'o StoredConsensusMessage list \<Rightarrow> 'o StoredConsensusMessage list" where
  "signed_collects S collects = filter (validate_signature S) collects"

fun count_valid :: "signatures \<Rightarrow> Digest \<Rightarrow> 'o StoredConsensusMessage list \<Rightarrow> (nat, 'e) res" where
  \<comment> \<open>the two filters and the count\<close>
  "count_valid S digest [] = Ok 0"
| "count_valid S digest (stored # rest) =
     res_bind (consensus (msg stored)) (\<lambda>c.
       res_map (\<lambda>n. if has_proposed_digest c digest = Some True \<and> validate_signature S stored then Suc n else n)
         (count_valid S digest rest))"

definition is_valid_proof :: "signatures \<Rightarrow> ViewInfo \<Rightarrow> 'o Proof \<Rightarrow> (bool, 'e) res" where
  \<comment> \<open>the closure given to \<open>filter\<close>\<close>
  "is_valid_proof S view p =
     (let digest = pm_batch_digest (pf_metadata p) in
      res_bind (count_valid S digest (pf_commits p)) (\<lambda>commits.
        res_bind (count_valid S digest (pf_prepares p)) (\<lambda>prepares.
          Ok (view_quorum view \<le> commits \<and> view_quorum view \<le> prepares))))"

fun filter_proofs :: "signatures \<Rightarrow> ViewInfo \<Rightarrow> 'o Proof list \<Rightarrow> ('o Proof list, 'e) res" where
  "filter_proofs S view [] = Ok []"
| "filter_proofs S view (p # ps) =
     res_bind (is_valid_proof S view p) (\<lambda>ok.
       res_map (\<lambda>rest. if ok then p # rest else rest) (filter_proofs S view ps))"

definition highest_proof :: "signatures \<Rightarrow> ViewInfo \<Rightarrow> 'o StoredConsensusMessage list
    \<Rightarrow> ('o Proof option, 'e) res" where
  "highest_proof S view collects =
     res_bind (collect_data collects) (\<lambda>data.
       res_map (max_by_key Proof_sequence_number)
         (filter_proofs S view (List.map_filter cd_last_proof data)))"


subsection \<open>What soundness means\<close>

definition prepared_at_most :: "SeqNo \<Rightarrow> Digest \<Rightarrow> 'o CollectData \<Rightarrow> bool" where
  "prepared_at_most ts value c \<longleftrightarrow>
     (\<exists>ts' value'. collect_quorum_prepares c = Some (ViewDecisionPair ts' value') \<and>
        (ts' < ts \<or> ts' = ts \<and> value' = value))"

definition bound_by :: "ViewInfo \<Rightarrow> 'o CollectData option list \<Rightarrow> SeqNo \<Rightarrow> Digest \<Rightarrow> bool" where
  \<comment> \<open>every collect reports a prepared value, \<open>value\<close> in view \<open>ts\<close> is the latest of them, and
      more than \<open>f\<close> reported \<open>PREPARE\<close>s are for it\<close>
  "bound_by v cs ts value \<longleftrightarrow>
     (\<forall>c \<in> set cs. \<exists>c'. c = Some c' \<and> prepared_at_most ts value c') \<and>
     (\<exists>c'. Some c' \<in> set cs \<and> collect_quorum_prepares c' = Some (ViewDecisionPair ts value)) \<and>
     view_f v < length (filter (\<lambda>p. ts \<le> vdp_view p \<and> vdp_digest p = value)
       (concat (map collect_write_set (List.map_filter id cs))))"

lemma set_map_filter_id [simp]: "set (List.map_filter id xs) = {x. Some x \<in> set xs}"
  by (induction xs) (auto split: option.splits)

lemma length_map_filter_id: "length (List.map_filter id xs) \<le> length xs"
  by (induction xs) (auto split: option.splits)

lemma length_map_filter_id_all:
  "length (List.map_filter id xs) = length xs \<longleftrightarrow> None \<notin> set xs"
proof (induction xs)
  case (Cons x xs)
  then show ?case using length_map_filter_id [of xs] by (cases x) (auto simp: id_def)
qed simp

lemma filter_all_iff: "length xs \<le> length (filter P xs) \<longleftrightarrow> (\<forall>x \<in> set xs. P x)"
  by (metis filter_True length_filter_less linorder_not_less order_refl)

lemma quorum_highest_exact:
  assumes "length cs = view_quorum v"
  shows "quorum_highest v ts value cs \<longleftrightarrow>
    (\<forall>c \<in> set cs. \<exists>c'. c = Some c' \<and> prepared_at_most ts value c') \<and>
    (\<exists>c'. Some c' \<in> set cs \<and> collect_quorum_prepares c' = Some (ViewDecisionPair ts value))"
proof -
  let ?cs = "List.map_filter id cs"
  let ?P = "\<lambda>collect. case collect_quorum_prepares collect of
              Some (ViewDecisionPair other_ts other_value) \<Rightarrow>
                if other_ts < ts then True else other_ts = ts \<and> other_value = value
            | None \<Rightarrow> False"
  have P: "?P = prepared_at_most ts value"
    by (auto simp: fun_eq_iff prepared_at_most_def split: option.splits ViewDecisionPair.splits)
  have "length cs \<le> length (filter ?P ?cs) \<longleftrightarrow> length ?cs = length cs \<and> (\<forall>c \<in> set ?cs. ?P c)"
    using length_map_filter_id [of cs] filter_all_iff [of ?cs ?P] length_filter_le [of ?P ?cs] by linarith
  also have "\<dots> \<longleftrightarrow> (\<forall>c \<in> set cs. \<exists>c'. c = Some c' \<and> prepared_at_most ts value c')"
    unfolding length_map_filter_id_all P by (auto) (metis not_None_eq)
  finally have count: "length cs \<le> length (filter ?P ?cs) \<longleftrightarrow>
      (\<forall>c \<in> set cs. \<exists>c'. c = Some c' \<and> prepared_at_most ts value c')" .
  have appears: "(case collect_quorum_prepares c of
        Some (ViewDecisionPair other_ts other_value) \<Rightarrow> other_ts = ts \<and> other_value = value | None \<Rightarrow> False) \<longleftrightarrow>
      collect_quorum_prepares c = Some (ViewDecisionPair ts value)" for c :: "'a CollectData"
    by (auto split: option.splits ViewDecisionPair.splits)
  show ?thesis
    unfolding quorum_highest_def Let_def assms [symmetric] count appears list_ex_iff by auto
qed

lemma certified_value_iff:
  "certified_value v ts value cs \<longleftrightarrow>
   view_f v < length (filter (\<lambda>p. ts \<le> vdp_view p \<and> vdp_digest p = value)
     (concat (map collect_write_set (List.map_filter id cs))))"
proof -
  have "(\<lambda>ViewDecisionPair other_ts other_value \<Rightarrow> ts \<le> other_ts \<and> other_value = value) =
      (\<lambda>p. ts \<le> vdp_view p \<and> vdp_digest p = value)"
    by (auto simp: fun_eq_iff split: ViewDecisionPair.splits)
  then show ?thesis
    by (simp add: certified_value_def length_concat filter_concat comp_def)
qed

lemma binds_exact: "length cs = view_quorum v \<Longrightarrow> binds v ts value cs \<longleftrightarrow> bound_by v cs ts value"
  by (simp add: binds_def bound_by_def quorum_highest_exact certified_value_iff)

lemma bound_by_unique:
  assumes "bound_by v cs ts value" and "bound_by v cs ts' value'"
  shows "ts = ts' \<and> value = value'"
proof -
  obtain c c' where c: "Some c \<in> set cs" "collect_quorum_prepares c = Some (ViewDecisionPair ts value)"
    and c': "Some c' \<in> set cs" "collect_quorum_prepares c' = Some (ViewDecisionPair ts' value')"
    using assms unfolding bound_by_def by blast
  have "prepared_at_most ts' value' c" "prepared_at_most ts value c'"
    using assms c(1) c'(1) unfolding bound_by_def by blast+
  then show ?thesis using c(2) c'(2) by (auto simp: prepared_at_most_def)
qed

subsection \<open>The values that are tried\<close>

lemma add_write_set_sets:
  "set (fst (add_write_set ps sv)) = set (fst sv) \<union> vdp_view ` set ps"
  "set (snd (add_write_set ps sv)) = set (snd sv) \<union> vdp_digest ` set ps"
  by (induction ps sv rule: add_write_set.induct) auto

lemma collect_votes_views:
  "Some c \<in> set cs \<Longrightarrow> collect_quorum_prepares c = Some (ViewDecisionPair ts value) \<Longrightarrow>
   ts \<in> set (fst (collect_votes A cs sv))"
  "ts \<in> set (fst sv) \<Longrightarrow> ts \<in> set (fst (collect_votes A cs sv))"
  by (induction A cs sv rule: collect_votes.induct) (auto simp: add_write_set_sets)

lemma collect_votes_values:
  "set (snd (collect_votes A cs sv)) =
   set (snd sv) \<union> vdp_digest ` set (concat (map collect_write_set (List.map_filter id cs)))"
  by (induction A cs sv rule: collect_votes.induct) (auto simp: add_write_set_sets map_filter_simps)

lemma bound_by_tried:
  assumes "bound_by v cs ts value"
  shows "ts \<in> set (fst (collect_votes A cs ([], [])))" "value \<in> set (snd (collect_votes A cs ([], [])))"
proof -
  show "ts \<in> set (fst (collect_votes A cs ([], [])))"
    using assms collect_votes_views(1) unfolding bound_by_def by blast
  have "filter (\<lambda>p. ts \<le> vdp_view p \<and> vdp_digest p = value)
      (concat (map collect_write_set (List.map_filter id cs))) \<noteq> []"
    using assms unfolding bound_by_def by force
  then show "value \<in> set (snd (collect_votes A cs ([], [])))"
    unfolding collect_votes_values by (auto simp: filter_empty_conv)
qed

lemma find_SomeD: "find P xs = Some x \<Longrightarrow> x \<in> set xs \<and> P x"
  by (auto simp: find_Some_iff)

lemma sound_Bound_iff:
  assumes I: "iter_laws I" and len: "length cs = view_quorum v"
  shows "sound I A v cs = Bound value \<longleftrightarrow> (\<exists>ts. bound_by v cs ts value)"
    and "sound I A v cs = Unbound ok \<longleftrightarrow> (\<nexists>ts value. bound_by v cs ts value) \<and> ok = unbound A v cs"
proof -
  let ?t = "collect_votes A cs ([], [])"
  let ?pairs = "List.product (iter_seq_numbers I (fst ?t)) (iter_values I (snd ?t))"
  let ?find = "find (\<lambda>(seq_no, value). binds v seq_no value cs) ?pairs"
  have pairs: "set (iter_seq_numbers I xs) = set xs" "set (iter_values I ys) = set ys" for xs ys
    using I by (simp_all add: iter_laws_def)
  have some: "\<exists>ts value. ?find = Some (ts, value) \<and> bound_by v cs ts value" if "bound_by v cs ts d" for ts d
  proof (cases ?find)
    case None
    then show ?thesis
      using that bound_by_tried [OF that, of A] binds_exact [OF len] by (auto simp: find_None_iff pairs)
  next
    case (Some p)
    then show ?thesis using binds_exact [OF len] find_SomeD [OF Some] by (cases p) auto
  qed
  have none: "?find = None" if "\<nexists>ts value. bound_by v cs ts value"
    using that binds_exact [OF len] by (auto simp: find_None_iff)
  have eq: "sound I A v cs = (case ?find of Some (_, value) \<Rightarrow> Bound value | None \<Rightarrow> Unbound (unbound A v cs))"
    by (simp add: sound_def case_prod_beta)
  show "sound I A v cs = Bound value \<longleftrightarrow> (\<exists>ts. bound_by v cs ts value)"
    unfolding eq using some none bound_by_unique by (cases "\<exists>ts value. bound_by v cs ts value") (fastforce, auto)
  show "sound I A v cs = Unbound ok \<longleftrightarrow> (\<nexists>ts value. bound_by v cs ts value) \<and> ok = unbound A v cs"
    unfolding eq using some none by (cases "\<exists>ts value. bound_by v cs ts value") (fastforce, auto)
qed

lemma sound_order:
  assumes "iter_laws I" and "length cs = view_quorum v" and "iter_laws J"
  shows "sound J A v cs = sound I A v cs"
  by (cases "sound I A v cs") (use sound_Bound_iff [OF assms(1,2)] sound_Bound_iff [OF assms(3,2)] in metis)+

text \<open>
  C18. The value a view change is bound to. On exactly a quorum of collects, which is when the new
  leader evaluates it, \<open>sound\<close> returns \<open>Bound value\<close> if and only if every collect reports a
  prepared value for the instance, \<open>value\<close> is the one of the latest view, and more than \<open>f\<close> of
  the reported \<open>PREPARE\<close>s are for it; otherwise it returns \<open>Unbound\<close> with the count of \<open>unbound\<close>.
  There is at most one such value, so the result does not depend on the order in which the hash
  sets are iterated, and every replica that repeats the computation gets the leader's result.
\<close>

theorem sound_correct:
  assumes "iter_laws I" and "length cs = view_quorum v"
  shows "(sound I A v cs = Bound value \<longleftrightarrow> (\<exists>ts. bound_by v cs ts value)) \<and>
    (sound I A v cs = Unbound ok \<longleftrightarrow> (\<nexists>ts value. bound_by v cs ts value) \<and> ok = unbound A v cs) \<and>
    (iter_laws J \<longrightarrow> sound J A v cs = sound I A v cs)"
  using sound_Bound_iff [OF assms] sound_order [OF assms] by blast

definition id_iter :: iter_env where
  "id_iter = \<lparr>iter_seq_numbers = id, iter_values = id\<rparr>"

lemma id_iter_laws: "iter_laws id_iter"
  by (simp add: iter_laws_def id_iter_def)

definition prepared_collect :: "SeqNo \<Rightarrow> Digest \<Rightarrow> nat CollectData option" where
  "prepared_collect ts d =
     Some (CollectData (IncompleteProof 5 (PrepareSet (replicate 3 (ViewDecisionPair ts d)))
       (Some (ViewDecisionPair ts d))) None)"

theorem sound_correct_witness:
  "iter_laws id_iter \<and> sound id_iter sample_atlas sample_view
     [prepared_collect 2 [8], prepared_collect 1 [7], prepared_collect 2 [8]] = Bound [8]"
proof -
  let ?cs = "[prepared_collect 2 [8], prepared_collect 1 [7], prepared_collect 2 [8]]"
  have "length ?cs = view_quorum sample_view" by simp
  moreover have "bound_by sample_view ?cs 2 [8]"
    by (simp add: bound_by_def prepared_collect_def prepared_at_most_def)
      (metis CollectData.sel(1) IncompleteProof.sel(3))
  ultimately show ?thesis using sound_correct [OF id_iter_laws] id_iter_laws by blast
qed

subsection \<open>The highest proof\<close>

definition signed_vote :: "signatures \<Rightarrow> Digest \<Rightarrow> 'o StoredConsensusMessage \<Rightarrow> bool" where
  "signed_vote S d m \<longleftrightarrow>
     (\<exists>c. msg m = ConsensusMsg c \<and> has_proposed_digest c d = Some True) \<and> validate_signature S m"

definition supported_proof :: "signatures \<Rightarrow> ViewInfo \<Rightarrow> 'o Proof \<Rightarrow> bool" where
  "supported_proof S v p \<longleftrightarrow>
     (let d = pm_batch_digest (pf_metadata p) in
      view_quorum v \<le> length (filter (signed_vote S d) (pf_commits p)) \<and>
      view_quorum v \<le> length (filter (signed_vote S d) (pf_prepares p)))"

definition collected :: "'o StoredConsensusMessage list \<Rightarrow> 'o CollectData list" where
  "collected cs = List.map_filter (\<lambda>m. case msg m of
     ViewChangeMsg (ViewChangeMessage _ (StopData c)) \<Rightarrow> Some c | _ \<Rightarrow> None) cs"

definition collected_proofs :: "'o StoredConsensusMessage list \<Rightarrow> 'o Proof set" where
  "collected_proofs cs = set (List.map_filter cd_last_proof (collected cs))"

definition readable :: "'o StoredConsensusMessage list \<Rightarrow> bool" where
  \<comment> \<open>no accessor meets a message of the wrong kind\<close>
  "readable cs \<longleftrightarrow> (\<forall>m \<in> set cs. \<exists>v. msg m = ViewChangeMsg v) \<and>
     (\<forall>p \<in> collected_proofs cs. list_all (\<lambda>m. is_consensus (msg m)) (pf_commits p @ pf_prepares p))"

lemma count_valid_eq:
  "count_valid S d ms =
   (if list_all (\<lambda>m. is_consensus (msg m)) ms then Ok (length (filter (signed_vote S d) ms)) else Panic)"
proof (induction ms)
  case (Cons m ms)
  have "signed_vote S d m \<longleftrightarrow> has_proposed_digest c d = Some True \<and> validate_signature S m"
    if "msg m = ConsensusMsg c" for c
    using that by (simp add: signed_vote_def)
  then show ?case using Cons by (cases "msg m") (auto simp: is_consensus_def)
qed simp

lemma is_valid_proof_eq:
  "is_valid_proof S v p =
   (if list_all (\<lambda>m. is_consensus (msg m)) (pf_commits p @ pf_prepares p) then Ok (supported_proof S v p) else Panic)"
  by (simp add: is_valid_proof_def count_valid_eq supported_proof_def Let_def)

lemma filter_proofs_eq:
  "filter_proofs S v ps =
   (if \<forall>p \<in> set ps. list_all (\<lambda>m. is_consensus (msg m)) (pf_commits p @ pf_prepares p)
    then Ok (filter (supported_proof S v) ps) else Panic)"
  by (induction ps) (auto simp: is_valid_proof_eq)

lemma collect_data_eq:
  "collect_data cs = (if \<forall>m \<in> set cs. \<exists>v. msg m = ViewChangeMsg v then Ok (collected cs) else Panic)"
proof (induction cs)
  case (Cons m cs)
  show ?case
  proof (cases "msg m")
    case (ViewChangeMsg v)
    then show ?thesis using Cons
      by (cases v; cases "vc_kind v") (auto simp: view_change_def collected_def)
  qed (auto simp: view_change_def)
qed (simp add: collected_def)

lemma highest_proof_eq:
  "highest_proof S v cs =
   (if readable cs
    then Ok (max_by_key Proof_sequence_number
      (filter (supported_proof S v) (List.map_filter cd_last_proof (collected cs))))
    else Panic)"
  by (simp add: highest_proof_def collect_data_eq filter_proofs_eq readable_def collected_proofs_def)

text \<open>
  C19. The highest proof of a set of collects. Unless an accessor meets a message of the wrong kind,
  which is a panic, \<open>highest_proof\<close> returns none exactly if no collect carries a proof with a
  quorum of signed \<open>COMMIT\<close>s and a quorum of signed \<open>PREPARE\<close>s for its digest, and otherwise one of
  these proofs whose sequence number is the greatest among them.
\<close>

theorem highest_proof_correct:
  "case highest_proof S v cs of
     Ok None \<Rightarrow> readable cs \<and> (\<forall>p \<in> collected_proofs cs. \<not> supported_proof S v p)
   | Ok (Some p) \<Rightarrow> readable cs \<and> p \<in> collected_proofs cs \<and> supported_proof S v p \<and>
       (\<forall>q \<in> collected_proofs cs. supported_proof S v q \<longrightarrow> Proof_sequence_number q \<le> Proof_sequence_number p)
   | Err _ \<Rightarrow> False
   | Panic \<Rightarrow> \<not> readable cs"
proof (cases "readable cs")
  case True
  let ?ps = "filter (supported_proof S v) (List.map_filter cd_last_proof (collected cs))"
  have ps: "set ?ps = {p \<in> collected_proofs cs. supported_proof S v p}"
    by (simp add: collected_proofs_def)
  show ?thesis
  proof (cases "max_by_key Proof_sequence_number ?ps")
    case None
    then have "set ?ps = {}" by simp
    then have "\<forall>p \<in> collected_proofs cs. \<not> supported_proof S v p" unfolding ps by blast
    then show ?thesis by (simp only: highest_proof_eq True None if_True res.case option.case simp_thms)
  next
    case (Some p)
    note max = max_by_key_Some [OF Some]
    have "p \<in> collected_proofs cs" "supported_proof S v p"
        "\<forall>q \<in> collected_proofs cs. supported_proof S v q \<longrightarrow> Proof_sequence_number q \<le> Proof_sequence_number p"
      using max unfolding ps by blast+
    then show ?thesis by (simp only: highest_proof_eq True Some if_True res.case option.case simp_thms)
  qed
qed (simp add: highest_proof_eq)

definition all_signed :: signatures where
  "all_signed = \<lparr>wire_from_header = \<lambda>_. True, node_public_key = Some, wire_is_valid = \<lambda>_ _. True\<rparr>"

definition vote_msg :: "nat ConsensusMessageKind \<Rightarrow> nat StoredConsensusMessage" where
  "vote_msg k = StoredMessage (Header 1 [] []) (ConsensusMsg (ConsensusMessage 6 0 0 k))"

definition one_voter_proof :: "nat Proof" where
  \<comment> \<open>all votes of this proof are copies of the votes of one replica\<close>
  "one_voter_proof = Proof (ProofMetadata 6 [7] [] 0) []
     (replicate 3 (vote_msg (Prepare [7]))) (replicate 3 (vote_msg (Commit [7])))"

definition stop_data_msg :: "SeqNo \<Rightarrow> NodeId \<Rightarrow> nat CollectData \<Rightarrow> nat StoredConsensusMessage" where
  "stop_data_msg view from c = StoredMessage (Header from [] []) (ViewChangeMsg (ViewChangeMessage view (StopData c)))"

definition one_voter_collects :: "nat StoredConsensusMessage list" where
  "one_voter_collects =
     [stop_data_msg 1 1 (CollectData (IncompleteProof 7 (PrepareSet []) None) (Some one_voter_proof)),
      stop_data_msg 1 2 (CollectData (IncompleteProof 6 (PrepareSet []) None) None)]"

theorem highest_proof_correct_witness:
  "highest_proof all_signed sample_view one_voter_collects = (Ok (Some one_voter_proof) :: (_, unit) res) \<and>
   supported_proof all_signed sample_view one_voter_proof \<and> one_voter_proof \<in> collected_proofs one_voter_collects"
proof -
  have "highest_proof all_signed sample_view one_voter_collects = (Ok (Some one_voter_proof) :: (_, unit) res)"
    by (simp add: highest_proof_def one_voter_collects_def stop_data_msg_def view_change_def is_valid_proof_def
        one_voter_proof_def vote_msg_def numeral_3_eq_3 has_proposed_digest_def validate_signature_def all_signed_def)
  then show ?thesis
    using highest_proof_correct [where S = all_signed and v = sample_view and cs = one_voter_collects, where 'b = unit]
    by simp
qed

end
