(* ===== verification/SyncState.thy ===== *)
theory SyncState
  imports ConsensusHandler Soundness
begin

text \<open>
  The state of the view change protocol of \<open>bft/sync/mod.rs\<close>: the queue of view change messages
  that arrive early (\<open>TboQueue\<close>, here \<open>SyncTboQueue\<close>), the phases, the statuses and the
  \<open>Synchronizer\<close> with its constructors and small operations.

  \<open>IntMap\<close> belongs to the crate \<open>intmap\<close>; the two maps of the synchronizer are association lists
  in the order of insertion, and every iteration goes through a function of the parameter
  \<open>sync_env\<close>, which also has the calls whose result the code uses: the queue functions, the
  signatures, the pending requests of the pre-processor and the serialisation of the proposal.
  Each call of an operation gets its own \<open>sync_env\<close>, so that these results may differ from call
  to call. \<open>BTreeMap\<close> is an association list in ascending order of its keys.

  The locks and cells of the structure protect single accesses and have no state of their own.
\<close>

datatype SynchronizerAccessory = FollowerAccessory | ReplicaAccessory nat

definition role_of :: "SynchronizerAccessory \<Rightarrow> SynchronizerRole" where
  "role_of acc = (case acc of FollowerAccessory \<Rightarrow> FollowerSynchronizer | ReplicaAccessory _ \<Rightarrow> ReplicaSynchronizer)"

record 'o FinalizeState =
  fs_curr_cid :: SeqNo
  fs_sound :: Sound
  fs_proposed :: "'o FwdConsensusMessage"
  fs_last_proof :: "'o Proof option"

datatype 'o FinalizeStatus =
  NoValue | FinalizeRunCst "'o FinalizeState" | FinalizeCommit "'o FinalizeState"

datatype ProtoPhase =
  Init | Stopping nat | Stopping2 nat | ViewStopping nat | ViewStopping2 nat
| StoppingData nat | Syncing | SyncingState

datatype 'o SynchronizerStatus =
  StatusNil | Running
| NewView "'o ConsensusStatus" "'o FeDecision option"
| NewViewJoinedQuorum "'o ConsensusStatus" "'o FeDecision option" NodeId
| RunCst
| RequestsTimedOut "ClientRqInfo list" "ClientRqInfo list"

datatype 'o SynchronizerPollStatus =
  SyncRecv | SyncNextMessage "'o StoredConsensusMessage" | ResumeViewChange

datatype SyncReconfigurationResult =
  Failed | OnGoingViewChange | OnGoingQuorumChange NodeId | AlreadyPartOfQuorum | InProgress | Completed

record 'o SyncTboQueue =
  sq_view :: ViewInfo
  sq_next_view :: "ViewInfo option"
  sq_previous_view :: "ViewInfo option"
  sq_get_queue :: bool
  sq_stop :: "'o StoredConsensusMessage list list"
  sq_stop_data :: "'o StoredConsensusMessage list list"
  sq_sync :: "'o StoredConsensusMessage list list"

record 'o Synchronizer =
  sy_node_id :: NodeId
  sy_phase :: ProtoPhase
  sy_tbo :: "'o SyncTboQueue"
  sy_stopped :: "(NodeId \<times> 'o Request StoredMessage list) list"
  sy_currently_adding_node :: "NodeId option"
  sy_currently_adding :: "(NodeId \<times> NodeId list) list"
  sy_collects :: "(NodeId \<times> 'o StoredConsensusMessage) list"
  sy_finalize_state :: "'o FinalizeState option"
  sy_entering_quorum :: bool
  sy_accessory :: SynchronizerAccessory

record 'o sync_env =
  se_id :: NodeId
  se_tbo :: "'o pbft_tbo"
  se_pop_message :: "'o StoredConsensusMessage list list
    \<Rightarrow> ('o StoredConsensusMessage \<times> 'o StoredConsensusMessage list list) option"
  se_signatures :: signatures
  se_iter :: iter_env
  se_collects_values :: "(NodeId \<times> 'o StoredConsensusMessage) list \<Rightarrow> 'o StoredConsensusMessage list"
  se_iter_stopped :: "(NodeId \<times> 'o Request StoredMessage list) list \<Rightarrow> (NodeId \<times> 'o Request StoredMessage list) list"
  se_drain_requests :: "(Digest \<times> 'o Request StoredMessage) list \<Rightarrow> (Digest \<times> 'o Request StoredMessage) list"
  se_drain_infos :: "ClientRqInfo list \<Rightarrow> ClientRqInfo list"
  se_process_stopped :: bool
  se_pending_rqs :: "'o Request StoredMessage list option"
  se_serialize :: "'o PBFTMessage \<Rightarrow> ('o PBFTMessage \<times> Digest) option"
  se_wire_header :: "NodeId \<Rightarrow> NodeId \<Rightarrow> Digest \<Rightarrow> Header"
  se_nonces :: "nat \<times> nat"

text \<open>What an operation hands to the network, the time-outs and the request pre-processor.\<close>

datatype 'o sync_effect =
  OfConsensus "'o effect"
| SyncSendSigned "'o PBFTMessage" NodeId
| SyncBroadcastSigned "'o PBFTMessage" "NodeId list"
| RequestTimeouts "ClientRqInfo list" nat
| CancelTimeouts
| ResetTimeouts
| ProcessStoppedRequests "'o Request StoredMessage list"
| ForwardRequests "'o Request StoredMessage list" "NodeId list"

subsection \<open>The queue of early messages\<close>

definition SyncTboQueue_new :: "ViewInfo \<Rightarrow> 'o SyncTboQueue" where
  "SyncTboQueue_new view =
     \<lparr>sq_view = view, sq_next_view = None, sq_previous_view = None, sq_get_queue = False,
      sq_stop = [], sq_stop_data = [], sq_sync = []\<rparr>"

definition sq_install_next_view :: "ViewInfo \<Rightarrow> 'o SyncTboQueue \<Rightarrow> 'o SyncTboQueue" where
  "sq_install_next_view view q = q\<lparr>sq_next_view := Some view\<rparr>"

definition sq_next_instance_queue :: "'o pbft_tbo \<Rightarrow> 'o SyncTboQueue \<Rightarrow> 'o SyncTboQueue" where
  "sq_next_instance_queue T q =
     q\<lparr>sq_stop := tbo_advance_message_queue T (sq_stop q),
       sq_stop_data := tbo_advance_message_queue T (sq_stop_data q),
       sq_sync := tbo_advance_message_queue T (sq_sync q)\<rparr>"

definition sq_install_view :: "'o pbft_tbo \<Rightarrow> atlas \<Rightarrow> ViewInfo \<Rightarrow> 'o SyncTboQueue
    \<Rightarrow> ('o SyncTboQueue \<times> bool, 'e) res" where
  "sq_install_view T A view q =
     (case index_seq A (vi_seq view) (vi_seq (sq_view q)) of
        Inr i \<Rightarrow>
          if 0 < i
          then Ok ((sq_next_instance_queue T ^^ i) (q\<lparr>sq_view := view, sq_previous_view := Some (sq_view q)\<rparr>), True)
          else Ok (q, False)
      | Inl _ \<Rightarrow> Panic)"

definition sq_advance :: "'o pbft_tbo \<Rightarrow> atlas \<Rightarrow> 'o SyncTboQueue \<Rightarrow> ('o SyncTboQueue \<times> bool, 'e) res" where
  "sq_advance T A q =
     (case sq_next_view q of
        Some view \<Rightarrow> sq_install_view T A view (q\<lparr>sq_next_view := None\<rparr>)
      | None \<Rightarrow> Ok (q, False))"

definition sq_signal :: "'o SyncTboQueue \<Rightarrow> 'o SyncTboQueue" where
  "sq_signal q = q\<lparr>sq_get_queue := True\<rparr>"

definition queue_stop :: "'o pbft_tbo \<Rightarrow> atlas \<Rightarrow> 'o StoredConsensusMessage \<Rightarrow> 'o SyncTboQueue \<Rightarrow> 'o SyncTboQueue" where
  "queue_stop T A m q =
     q\<lparr>sq_stop := tbo_queue_message_arc T (next_seq A (vi_seq (sq_view q))) (sq_stop q)
         (PBFTMessage_sequence_number A (msg m), m)\<rparr>"

definition queue_stop_data :: "'o pbft_tbo \<Rightarrow> atlas \<Rightarrow> 'o StoredConsensusMessage \<Rightarrow> 'o SyncTboQueue \<Rightarrow> 'o SyncTboQueue" where
  "queue_stop_data T A m q =
     q\<lparr>sq_stop_data := tbo_queue_message_arc T (next_seq A (vi_seq (sq_view q))) (sq_stop_data q)
         (PBFTMessage_sequence_number A (msg m), m)\<rparr>"

definition queue_sync :: "'o pbft_tbo \<Rightarrow> atlas \<Rightarrow> 'o StoredConsensusMessage \<Rightarrow> 'o SyncTboQueue \<Rightarrow> 'o SyncTboQueue" where
  "queue_sync T A m q =
     q\<lparr>sq_sync := tbo_queue_message_arc T (next_seq A (vi_seq (sq_view q))) (sq_sync q)
         (PBFTMessage_sequence_number A (msg m), m)\<rparr>"

definition sq_queue :: "'o pbft_tbo \<Rightarrow> atlas \<Rightarrow> 'o StoredConsensusMessage \<Rightarrow> 'o SyncTboQueue
    \<Rightarrow> ('o SyncTboQueue, 'e) res" where
  "sq_queue T A m q =
     res_map (\<lambda>v. case vc_kind v of
         Stop _ \<Rightarrow> queue_stop T A m q
       | StopQuorumJoin _ \<Rightarrow> queue_stop T A m q
       | StopData _ \<Rightarrow> queue_stop_data T A m q
       | Sync _ \<Rightarrow> queue_sync T A m q) (view_change (msg m))"

definition front_nonempty :: "'m list list \<Rightarrow> bool" where
  "front_nonempty q = (case q of deque # _ \<Rightarrow> deque \<noteq> [] | [] \<Rightarrow> False)"

definition sq_can_process_stops :: "'o SyncTboQueue \<Rightarrow> bool" where
  "sq_can_process_stops q = front_nonempty (sq_stop q)"

definition sq_can_process_stop_data :: "'o SyncTboQueue \<Rightarrow> bool" where
  "sq_can_process_stop_data q = front_nonempty (sq_stop_data q)"

definition sq_can_process_sync :: "'o SyncTboQueue \<Rightarrow> bool" where
  "sq_can_process_sync q = front_nonempty (sq_sync q)"

subsection \<open>The synchronizer\<close>

abbreviation sy_view :: "'o Synchronizer \<Rightarrow> ViewInfo" where
  "sy_view s \<equiv> sq_view (sy_tbo s)"

definition new_synchronizer :: "NodeId \<Rightarrow> ViewInfo \<Rightarrow> SynchronizerAccessory \<Rightarrow> 'o Synchronizer" where
  "new_synchronizer node_id view accessory =
     \<lparr>sy_node_id = node_id, sy_phase = Init, sy_tbo = SyncTboQueue_new view, sy_stopped = [],
      sy_currently_adding_node = None, sy_currently_adding = [], sy_collects = [],
      sy_finalize_state = None, sy_entering_quorum = False, sy_accessory = accessory\<rparr>"

definition Synchronizer_new_follower :: "NodeId \<Rightarrow> ViewInfo \<Rightarrow> 'o Synchronizer" where
  "Synchronizer_new_follower node_id view = new_synchronizer node_id view FollowerAccessory"

definition Synchronizer_new_replica :: "NodeId \<Rightarrow> ViewInfo \<Rightarrow> nat \<Rightarrow> 'o Synchronizer" where
  "Synchronizer_new_replica node_id view timeout_dur = new_synchronizer node_id view (ReplicaAccessory timeout_dur)"

definition initialize_with_quorum :: "atlas \<Rightarrow> NodeId \<Rightarrow> SeqNo \<Rightarrow> NodeId list \<Rightarrow> nat
    \<Rightarrow> ('o Synchronizer, ViewError) res" where
  "initialize_with_quorum A node_id seq_no quorum_members timeout_dur =
     res_map (\<lambda>view_info. new_synchronizer node_id view_info (ReplicaAccessory timeout_dur))
       (from_quorum A seq_no quorum_members)"

definition sy_signal :: "'o Synchronizer \<Rightarrow> 'o Synchronizer" where
  "sy_signal s = s\<lparr>sy_tbo := sq_signal (sy_tbo s)\<rparr>"

definition sy_queue :: "'o pbft_tbo \<Rightarrow> atlas \<Rightarrow> 'o StoredConsensusMessage \<Rightarrow> 'o Synchronizer
    \<Rightarrow> ('o Synchronizer, 'e) res" where
  "sy_queue T A m s = res_map (\<lambda>q. s\<lparr>sy_tbo := q\<rparr>) (sq_queue T A m (sy_tbo s))"

definition install_next_view :: "ViewInfo \<Rightarrow> 'o Synchronizer \<Rightarrow> 'o Synchronizer" where
  "install_next_view view s = s\<lparr>sy_tbo := sq_install_next_view view (sy_tbo s)\<rparr>"

definition advance_view :: "'o pbft_tbo \<Rightarrow> atlas \<Rightarrow> 'o Synchronizer \<Rightarrow> ('o Synchronizer \<times> bool, 'e) res" where
  "advance_view T A s = res_map (\<lambda>(q, b). (s\<lparr>sy_tbo := q\<rparr>, b)) (sq_advance T A (sy_tbo s))"

definition sy_install_view :: "'o pbft_tbo \<Rightarrow> atlas \<Rightarrow> ViewInfo \<Rightarrow> 'o Synchronizer
    \<Rightarrow> ('o Synchronizer \<times> bool, 'e) res" where
  \<comment> \<open>\<open>self.tbo.lock().unwrap().install_view(view)\<close>\<close>
  "sy_install_view T A view s = res_map (\<lambda>(q, b). (s\<lparr>sy_tbo := q\<rparr>, b)) (sq_install_view T A view (sy_tbo s))"

definition received_view_after_previous :: "'o pbft_tbo \<Rightarrow> atlas \<Rightarrow> ViewInfo \<Rightarrow> 'o Synchronizer
    \<Rightarrow> ('o Synchronizer \<times> bool, 'e) res" where
  \<comment> \<open>the checks once the view before \<open>view\<close> is in place\<close>
  "received_view_after_previous T A view s =
     res_bind (leader A view) (\<lambda>l.
       if l = sy_node_id s \<and> sq_can_process_stop_data (sy_tbo s)
       then Ok (install_next_view view (s\<lparr>sy_phase := StoppingData 0\<rparr>), True)
       else if sq_can_process_sync (sy_tbo s)
       then Ok (install_next_view view (s\<lparr>sy_phase := Syncing\<rparr>), True)
       else res_map (\<lambda>(s, _). (s, False)) (sy_install_view T A view s))"

definition received_view_from_state_transfer :: "'o pbft_tbo \<Rightarrow> atlas \<Rightarrow> ViewInfo \<Rightarrow> 'o Synchronizer
    \<Rightarrow> ('o Synchronizer \<times> bool, 'e) res" where
  "received_view_from_state_transfer T A view s =
     res_bind (previous_view A view) (\<lambda>prev.
       case prev of
         Some pv \<Rightarrow>
           if vi_seq (sy_view s) \<noteq> vi_seq pv
           then res_bind (sy_install_view T A pv s) (\<lambda>(s, installed).
                  received_view_after_previous T A view (if \<not> installed then s\<lparr>sy_phase := Init\<rparr> else s))
           else received_view_after_previous T A view s
       | None \<Rightarrow>
           res_map (\<lambda>(s, installed). (if \<not> installed then s\<lparr>sy_phase := Init\<rparr> else s, False))
             (sy_install_view T A view s))"

subsection \<open>Polling\<close>

definition extract_msg :: "'o sync_env \<Rightarrow> 'o StoredConsensusMessage list list
    \<Rightarrow> ('o StoredConsensusMessage list list \<Rightarrow> 'o SyncTboQueue \<Rightarrow> 'o SyncTboQueue)
    \<Rightarrow> 'o SyncTboQueue \<Rightarrow> 'o SyncTboQueue \<times> 'o SynchronizerPollStatus" where
  \<comment> \<open>the macro; \<open>put\<close> writes the queue it was given back\<close>
  "extract_msg E queue put q =
     (case se_pop_message E queue of
        Some (stored, queue') \<Rightarrow> (put queue' q, SyncNextMessage stored)
      | None \<Rightarrow> (q\<lparr>sq_get_queue := False\<rparr>, SyncRecv))"

definition put_stop :: "'o StoredConsensusMessage list list \<Rightarrow> 'o SyncTboQueue \<Rightarrow> 'o SyncTboQueue" where
  "put_stop x q = q\<lparr>sq_stop := x\<rparr>"

definition put_stop_data :: "'o StoredConsensusMessage list list \<Rightarrow> 'o SyncTboQueue \<Rightarrow> 'o SyncTboQueue" where
  "put_stop_data x q = q\<lparr>sq_stop_data := x\<rparr>"

definition put_sync :: "'o StoredConsensusMessage list list \<Rightarrow> 'o SyncTboQueue \<Rightarrow> 'o SyncTboQueue" where
  "put_sync x q = q\<lparr>sq_sync := x\<rparr>"

definition phase_after_poll :: "'o SynchronizerPollStatus \<Rightarrow> (ProtoPhase, 'e) res" where
  \<comment> \<open>the phase the \<open>Init\<close> arm moves to\<close>
  "phase_after_poll result =
     (case result of
        SyncNextMessage message \<Rightarrow>
          res_map (\<lambda>v. case vc_kind v of StopQuorumJoin _ \<Rightarrow> ViewStopping 0 | _ \<Rightarrow> Stopping 0)
            (view_change (msg message))
      | _ \<Rightarrow> Ok Init)"

definition sy_poll :: "'o sync_env \<Rightarrow> 'o Synchronizer
    \<Rightarrow> ('o Synchronizer \<times> 'o SynchronizerPollStatus, 'e) res" where
  "sy_poll E s =
     (let q = sy_tbo s;
          stops = (case extract_msg E (sq_stop q) put_stop q of (q', r) \<Rightarrow> (s\<lparr>sy_tbo := q'\<rparr>, r)) in
      if \<not> sq_get_queue q then Ok (s, SyncRecv)
      else
        case sy_phase s of
          Init \<Rightarrow>
            (case stops of (s', r) \<Rightarrow> res_map (\<lambda>phase. (s'\<lparr>sy_phase := phase\<rparr>, r)) (phase_after_poll r))
        | Stopping _ \<Rightarrow> Ok stops
        | Stopping2 _ \<Rightarrow> Ok stops
        | ViewStopping _ \<Rightarrow> Ok stops
        | ViewStopping2 _ \<Rightarrow> Ok stops
        | StoppingData _ \<Rightarrow>
            (case extract_msg E (sq_stop_data q) put_stop_data q of (q', r) \<Rightarrow> Ok (s\<lparr>sy_tbo := q'\<rparr>, r))
        | Syncing \<Rightarrow>
            (case extract_msg E (sq_sync q) put_sync q of (q', r) \<Rightarrow> Ok (s\<lparr>sy_tbo := q'\<rparr>, r))
        | SyncingState \<Rightarrow> Ok (s, ResumeViewChange))"

end
