(* ===== verification/ReplicaSync.thy ===== *)
theory ReplicaSync
  imports SyncState
begin

text \<open>
  The replica's side of the synchronizer: \<open>ReplicaSynchronizer\<close> of \<open>bft/sync/replica_sync/mod.rs\<close>
  and \<open>FollowerSynchronizer\<close> of \<open>bft/sync/follower_sync/mod.rs\<close>: which requests a \<open>STOP\<close> message
  carries, what happens when a quorum of \<open>STOP\<close>s is reached, and what happens when requests time
  out. The only field of a \<open>ReplicaSynchronizer\<close> is the duration of its time-outs.

  A \<open>ModTimeout\<close> of \<open>atlas_core\<close> is represented by its additional information, whose dynamic
  type may or may not be \<open>ClientRqInfo\<close>, and by how often it has expired. The requests are
  gathered in hash maps keyed by their digest; these are association lists, drained in the order
  the environment chooses.

  Shown: a \<open>STOP\<close> carries every request that timed out or that a received \<open>STOP\<close> carried, once
  per digest; on time-outs, first expirations are forwarded and later ones stop the view.
\<close>

datatype ModTimeout = ModTimeout (mt_extra_info: "ClientRqInfo option option") (mt_timeout_count: nat)

definition entry_or_insert :: "'k \<Rightarrow> 'v \<Rightarrow> ('k \<times> 'v) list \<Rightarrow> ('k \<times> 'v) list" where
  \<comment> \<open>\<open>map.entry(k).or_insert_with(|| v)\<close>\<close>
  "entry_or_insert k v m = (if k \<in> fst ` set m then m else m @ [(k, v)])"

subsection \<open>The requests of \<open>STOP\<close> messages\<close>

definition add_request :: "'o Request StoredMessage \<Rightarrow> (Digest \<times> 'o Request StoredMessage) list
    \<Rightarrow> (Digest \<times> 'o Request StoredMessage) list" where
  "add_request r all_reqs = entry_or_insert (hdr_unique_digest (hdr r)) r all_reqs"

definition add_stopped :: "(NodeId \<times> 'o Request StoredMessage list) list
    \<Rightarrow> (Digest \<times> 'o Request StoredMessage) list \<Rightarrow> (Digest \<times> 'o Request StoredMessage) list" where
  \<comment> \<open>the two nested loops over \<open>base_sync.stopped\<close>\<close>
  "add_stopped stopped all_reqs = fold (\<lambda>(_, rs). fold add_request rs) stopped all_reqs"

definition stopped_requests :: "'o sync_env \<Rightarrow> 'o Synchronizer \<Rightarrow> 'o Request StoredMessage list option
    \<Rightarrow> 'o Request StoredMessage list" where
  "stopped_requests E base_sync requests =
     (let all_reqs = (case requests of
            Some rs \<Rightarrow> fold (\<lambda>r m. AList.update (hdr_unique_digest (hdr r)) r m) rs []
          | None \<Rightarrow> []);
          all_reqs = add_stopped (se_iter_stopped E (sy_stopped base_sync)) all_reqs
      in map snd (se_drain_requests E all_reqs))"

definition stopped_request_digests :: "'o sync_env \<Rightarrow> atlas \<Rightarrow> 'o Synchronizer
    \<Rightarrow> 'o Request StoredMessage list option \<Rightarrow> ClientRqInfo list" where
  "stopped_request_digests E A base_sync requests =
     (let all_reqs = (case requests of
            Some rs \<Rightarrow> fold (\<lambda>r m. List.insert (rq_info A r) m) rs []
          | None \<Rightarrow> []);
          all_reqs = fold (\<lambda>(_, rs). fold (\<lambda>r m. List.insert (rq_info A r) m) rs)
                       (se_iter_stopped E (sy_stopped base_sync)) all_reqs
      in se_drain_infos E all_reqs)"

definition drain_stopped_request :: "'o sync_env \<Rightarrow> 'o Synchronizer
    \<Rightarrow> 'o Synchronizer \<times> 'o Request StoredMessage list" where
  "drain_stopped_request E base_sync =
     (base_sync\<lparr>sy_stopped := []\<rparr>,
      map snd (se_drain_requests E (add_stopped (se_iter_stopped E (sy_stopped base_sync)) [])))"

subsection \<open>Operations\<close>

definition take_stopped_requests_and_register_them :: "'o sync_env \<Rightarrow> atlas \<Rightarrow> nat \<Rightarrow> 'o Synchronizer
    \<Rightarrow> 'o Synchronizer \<times> 'o sync_effect list \<times> (unit, unit) res" where
  "take_stopped_requests_and_register_them E A timeout_dur base_sync =
     (case drain_stopped_request E base_sync of
        (base_sync, requests) \<Rightarrow>
          if \<not> se_process_stopped E then (base_sync, [], Panic)
          else (base_sync,
                [ProcessStoppedRequests requests, RequestTimeouts (map (rq_info A) requests) timeout_dur], Ok ()))"

definition handle_stopping_quorum :: "'o sync_env \<Rightarrow> atlas \<Rightarrow> nat \<Rightarrow> ViewInfo \<Rightarrow> 'o Consensus \<Rightarrow> 'o Log
    \<Rightarrow> 'o Synchronizer \<Rightarrow> 'o Synchronizer \<times> 'o sync_effect list \<times> (unit, unit) res" where
  "handle_stopping_quorum E A timeout_dur prev_view c log base_sync =
     (case take_stopped_requests_and_register_them E A timeout_dur base_sync of
        (base_sync, es, Ok _) \<Rightarrow>
          let es = es @ [ResetTimeouts] in
          (case res_bind (expect (sq_next_view (sy_tbo base_sync))) (\<lambda>view_info.
                 res_bind (leader A view_info) (\<lambda>current_leader.
                   res_map (\<lambda>incomplete_proof.
                       SyncSendSigned (ViewChangeMsg (ViewChangeMessage (vi_seq view_info)
                         (StopData (CollectData incomplete_proof (last_proof log))))) current_leader)
                     (collect_incomplete_proof (view_f prev_view) c))) of
             Ok e \<Rightarrow> (base_sync, es @ [e], Ok ())
           | Err x \<Rightarrow> (base_sync, es, Err x)
           | Panic \<Rightarrow> (base_sync, es, Panic))
      | (base_sync, es, Err x) \<Rightarrow> (base_sync, es, Err x)
      | (base_sync, es, Panic) \<Rightarrow> (base_sync, es, Panic))"

definition handle_begin_view_change :: "'o sync_env \<Rightarrow> atlas \<Rightarrow> 'o Synchronizer
    \<Rightarrow> 'o Request StoredMessage list option \<Rightarrow> 'o sync_effect list" where
  "handle_begin_view_change E A base_sync timed_out =
     (let requests = stopped_requests E base_sync timed_out;
          current_view = sy_view base_sync
      in [CancelTimeouts,
          SyncBroadcastSigned (ViewChangeMsg (ViewChangeMessage (next_seq A (vi_seq current_view)) (Stop requests)))
            (vi_quorum_members current_view)])"

definition handle_begin_quorum_view_change :: "atlas \<Rightarrow> 'o Synchronizer \<Rightarrow> NodeId \<Rightarrow> 'o sync_effect list" where
  "handle_begin_quorum_view_change A base_sync join_cert =
     (let current_view = sy_view base_sync
      in [SyncBroadcastSigned
            (ViewChangeMsg (ViewChangeMessage (next_seq A (vi_seq current_view)) (StopQuorumJoin join_cert)))
            (vi_quorum_members current_view)])"

definition watch_received_requests :: "SynchronizerAccessory \<Rightarrow> ClientRqInfo list \<Rightarrow> 'o sync_effect list" where
  "watch_received_requests acc requests =
     (case acc of ReplicaAccessory timeout_dur \<Rightarrow> [RequestTimeouts requests timeout_dur] | FollowerAccessory \<Rightarrow> [])"

definition forward_requests :: "'o Synchronizer \<Rightarrow> 'o Request StoredMessage list \<Rightarrow> 'o sync_effect list" where
  "forward_requests s timed_out =
     (case sy_accessory s of
        FollowerAccessory \<Rightarrow> []
      | ReplicaAccessory _ \<Rightarrow> [ForwardRequests timed_out (vi_quorum_members (sy_view s))])"

subsection \<open>Time-outs\<close>

fun split_timeouts :: "ModTimeout list \<Rightarrow> ClientRqInfo list \<times> ClientRqInfo list
    \<Rightarrow> ClientRqInfo list \<times> ClientRqInfo list" where
  \<comment> \<open>the loop over the expired time-outs with the lists \<open>forwarded\<close> and \<open>stopped\<close>\<close>
  "split_timeouts [] acc = acc"
| "split_timeouts (t # ts) (forwarded, stopped) =
     split_timeouts ts
       (case mt_extra_info t of
          Some (Some cli_rq) \<Rightarrow>
            if mt_timeout_count t = 1 then (forwarded @ [cli_rq], stopped)
            else if 2 \<le> mt_timeout_count t then (forwarded, stopped @ [cli_rq])
            else (forwarded, stopped)
        | _ \<Rightarrow> (forwarded, stopped))"

fun add_known_stops :: "ClientRqInfo list \<Rightarrow> ClientRqInfo list \<Rightarrow> ClientRqInfo list" where
  "add_known_stops [] stopped = stopped"
| "add_known_stops (rq # rqs) stopped =
     add_known_stops rqs (if rq \<in> set stopped then stopped else stopped @ [rq])"

definition rep_client_requests_timed_out :: "'o sync_env \<Rightarrow> atlas \<Rightarrow> 'o Synchronizer \<Rightarrow> ModTimeout list
    \<Rightarrow> 'o SynchronizerStatus" where
  "rep_client_requests_timed_out E A base_sync timed_out_rqs =
     (let (forwarded, stopped) = split_timeouts timed_out_rqs ([], []) in
      if forwarded = [] \<and> stopped = [] then StatusNil
      else
        let stopped = (if stopped \<noteq> [] \<or> sy_stopped base_sync \<noteq> []
                       then add_known_stops (stopped_request_digests E A base_sync None) stopped else stopped)
        in RequestsTimedOut forwarded stopped)"

definition client_requests_timed_out :: "'o sync_env \<Rightarrow> atlas \<Rightarrow> 'o Synchronizer \<Rightarrow> ModTimeout list
    \<Rightarrow> 'o SynchronizerStatus" where
  "client_requests_timed_out E A s seq =
     (case sy_accessory s of
        FollowerAccessory \<Rightarrow> StatusNil
      | ReplicaAccessory _ \<Rightarrow> rep_client_requests_timed_out E A s seq)"

end
