(* ===== verification/Synchronizer.thy ===== *)
theory Synchronizer
  imports ReplicaSync
begin

text \<open>
  The state machine of the view change: \<open>process_message\<close>, \<open>begin_view_change\<close>,
  \<open>begin_quorum_view_change\<close>, the two operations of the quorum join, \<open>resume_view_change\<close>,
  \<open>pre_finalize\<close> and \<open>finalize\<close> of \<open>Synchronizer\<close> in \<open>bft/sync/mod.rs\<close>.

  An operation of the source that is given the log and the consensus handler works on a
  \<open>sync_ctx\<close>, the three states together, and returns the new ones, what it hands to the other
  parties and its result. \<open>process_message\<close> is one definition per phase, put together by
  \<open>sy_process_message\<close>. \<open>u32\<close> additions wrap. \<open>expect\<close>, \<open>unwrap\<close>, \<open>unreachable!\<close> and \<open>todo!\<close>
  are \<open>Panic\<close>.
\<close>

record 'o sync_ctx =
  cx_sync :: "'o Synchronizer"
  cx_log :: "'o Log"
  cx_consensus :: "'o Consensus"

type_synonym 'o sync_result = "'o sync_ctx \<times> 'o sync_effect list \<times> ('o SynchronizerStatus, unit) res"

definition on_sync :: "('o Synchronizer \<Rightarrow> 'o Synchronizer) \<Rightarrow> 'o sync_ctx \<Rightarrow> 'o sync_ctx" where
  "on_sync f cx = cx\<lparr>cx_sync := f (cx_sync cx)\<rparr>"

definition or_panic :: "'o sync_ctx \<Rightarrow> ('a, unit) res \<Rightarrow> ('a \<Rightarrow> 'o sync_result) \<Rightarrow> 'o sync_result" where
  \<comment> \<open>a call whose failure is a panic\<close>
  "or_panic cx r k = (case r of Ok a \<Rightarrow> k a | _ \<Rightarrow> (cx, [], Panic))"

definition after :: "'o sync_effect list \<Rightarrow> 'o sync_result \<Rightarrow> 'o sync_result" where
  "after es r = (case r of (cx, es', s) \<Rightarrow> (cx, es @ es', s))"

definition u32_succ :: "atlas \<Rightarrow> SeqNo \<Rightarrow> nat" where
  \<comment> \<open>\<open>u32::from(seq) + 1\<close>\<close>
  "u32_succ A s = (u32_of_seq A s + 1) mod 2 ^ 32"

definition set_phase :: "ProtoPhase \<Rightarrow> 'o Synchronizer \<Rightarrow> 'o Synchronizer" where
  "set_phase p s = s\<lparr>sy_phase := p\<rparr>"

subsection \<open>Starting a view change\<close>

definition clear_view_change :: "'o Synchronizer \<Rightarrow> 'o Synchronizer" where
  "clear_view_change s =
     s\<lparr>sy_stopped := [], sy_collects := [], sy_currently_adding_node := None, sy_currently_adding := []\<rparr>"

definition begin_quorum_view_change :: "atlas \<Rightarrow> NodeId option \<Rightarrow> 'o Synchronizer
    \<Rightarrow> 'o Synchronizer \<times> 'o sync_effect list" where
  "begin_quorum_view_change A join_cert s =
     (let started = (\<lambda>s. (s, case (sy_accessory s, join_cert) of
              (ReplicaAccessory _, Some cert) \<Rightarrow> handle_begin_quorum_view_change A s cert
            | _ \<Rightarrow> [])) in
      case sy_phase s of
        ViewStopping i \<Rightarrow>
          (case join_cert of
             None \<Rightarrow> started (set_phase (ViewStopping (i + 1)) s)
           | Some _ \<Rightarrow> started (set_phase (ViewStopping2 i) s))
      | StoppingData _ \<Rightarrow> (s, [])
      | Syncing \<Rightarrow> (s, [])
      | ViewStopping2 _ \<Rightarrow> (s, [])
      | _ \<Rightarrow> started (set_phase (ViewStopping2 0) (clear_view_change s)))"

definition begin_view_change :: "'o sync_env \<Rightarrow> atlas \<Rightarrow> 'o Request StoredMessage list option
    \<Rightarrow> 'o Synchronizer \<Rightarrow> 'o Synchronizer \<times> 'o sync_effect list" where
  "begin_view_change E A timed_out s =
     (let started = (\<lambda>s. (s, case sy_accessory s of
              ReplicaAccessory _ \<Rightarrow> handle_begin_view_change E A s timed_out
            | FollowerAccessory \<Rightarrow> [])) in
      case sy_phase s of
        Stopping i \<Rightarrow>
          (case timed_out of
             None \<Rightarrow> started (set_phase (Stopping2 (i + 1)) s)
           | Some _ \<Rightarrow> started (set_phase (Stopping2 i) s))
      | ViewStopping _ \<Rightarrow>
          (case timed_out of
             None \<Rightarrow> started (set_phase (Stopping 1) s)
           | Some _ \<Rightarrow> started (set_phase (Stopping2 0) s))
      | ViewStopping2 _ \<Rightarrow>
          (case timed_out of
             None \<Rightarrow> started (set_phase (Stopping 1) s)
           | Some _ \<Rightarrow> started (set_phase (Stopping2 0) s))
      | StoppingData _ \<Rightarrow> (s, [])
      | Syncing \<Rightarrow> (s, [])
      | Stopping2 _ \<Rightarrow> (s, [])
      | _ \<Rightarrow> started (set_phase (Stopping2 0) ((clear_view_change s)\<lparr>sy_entering_quorum := False\<rparr>)))"

definition start_join_quorum :: "'o sync_env \<Rightarrow> atlas \<Rightarrow> NodeId \<Rightarrow> 'o Synchronizer
    \<Rightarrow> 'o Synchronizer \<times> 'o sync_effect list \<times> (SyncReconfigurationResult, 'e) res" where
  "start_join_quorum E A joining_node s =
     (if joining_node \<in> set (vi_quorum_members (sy_view s)) then (s, [], Ok SyncReconfigurationResult.AlreadyPartOfQuorum)
      else
        let ongoing = (s, [], Ok (case sy_currently_adding_node s of
                Some currently_adding \<Rightarrow> OnGoingQuorumChange currently_adding
              | None \<Rightarrow> OnGoingViewChange))
        in case sy_phase s of
             Init \<Rightarrow>
               if joining_node = se_id E then (s, [], Panic)
               else (case begin_quorum_view_change A (Some joining_node) s of
                       (s, es) \<Rightarrow> (s, es, Ok SyncReconfigurationResult.InProgress))
           | StoppingData _ \<Rightarrow> ongoing
           | SyncingState \<Rightarrow> ongoing
           | Syncing \<Rightarrow> ongoing
           | _ \<Rightarrow> (s, [], Ok OnGoingViewChange))"

datatype ReconfigurationAttemptResult =
  Failed | AlreadyPartOfQuorum | CurrentlyReconfiguring NodeId | InProgress | Successful "NodeId list"

definition attempt_join_quorum :: "'o sync_env \<Rightarrow> atlas \<Rightarrow> 'o Synchronizer
    \<Rightarrow> ('o Synchronizer \<times> ReconfigurationAttemptResult, 'e) res" where
  "attempt_join_quorum E A s =
     (if se_id E \<in> set (vi_quorum_members (sy_view s)) \<or>
         (case sq_next_view (sy_tbo s) of Some v \<Rightarrow> se_id E \<in> set (vi_quorum_members v) | None \<Rightarrow> False)
      then Ok (s, AlreadyPartOfQuorum)
      else
        res_bind (next_view_with_new_node A (sy_view s) (se_id E)) (\<lambda>view.
        res_map (\<lambda>l.
          (set_phase (if l = se_id E then StoppingData 0 else Syncing)
             (install_next_view view (s\<lparr>sy_entering_quorum := True, sy_currently_adding_node := Some (sy_node_id s)\<rparr>)),
           InProgress)) (leader A view)))"

subsection \<open>Finishing a view change\<close>

definition pre_finalize :: "atlas \<Rightarrow> 'o FinalizeState \<Rightarrow> 'o Proof option \<Rightarrow> 'o Log
    \<Rightarrow> ('o FinalizeStatus, 'e) res" where
  "pre_finalize A state p log =
     (let last_executed_cid = (case p of Some p \<Rightarrow> Proof_sequence_number p | None \<Rightarrow> ZERO A);
          ours = (case last_execution (lg_decided log) of Some s \<Rightarrow> s | None \<Rightarrow> ZERO A)
      in if u32_succ A ours < u32_of_seq A last_executed_cid then Ok (FinalizeRunCst state)
         else
           case cm_kind (fwd_consensus_msg (fs_proposed state)) of
             PrePrepare rqs \<Rightarrow>
               if rqs = [] \<and> \<not> sound_test (fs_sound state) then Ok NoValue else Ok (FinalizeCommit state)
           | _ \<Rightarrow> Panic)"

definition catch_up :: "'o sync_env \<Rightarrow> atlas \<Rightarrow> ViewInfo \<Rightarrow> 'o FinalizeState \<Rightarrow> 'o sync_ctx
    \<Rightarrow> 'o sync_ctx \<times> 'o sync_effect list \<times> ('o FeDecision option, unit) res" where
  \<comment> \<open>the computation of \<open>to_execute\<close> in \<open>finalize\<close>\<close>
  "catch_up E A view state cx =
     (let last_executed_cid = (case fs_last_proof state of Some p \<Rightarrow> Proof_sequence_number p | None \<Rightarrow> ZERO A);
          ours = (case last_execution (lg_decided (cx_log cx)) of Some s \<Rightarrow> s | None \<Rightarrow> ZERO A)
      in if u32_succ A ours = u32_of_seq A last_executed_cid
         then
           case fs_last_proof state of
             Some p \<Rightarrow>
               (case catch_up_to_quorum (se_tbo E) A view p (cx_log cx) (cx_consensus cx) of
                  (c, log, es, Ok d) \<Rightarrow>
                    (cx\<lparr>cx_log := log, cx_consensus := c\<rparr>, map OfConsensus es, Ok (Some d))
                | (c, log, es, _) \<Rightarrow> (cx\<lparr>cx_log := log, cx_consensus := c\<rparr>, map OfConsensus es, Panic))
           | None \<Rightarrow> (cx, [], Ok None)
         else (cx, [], Ok None))"

definition finished :: "'o ConsensusStatus \<Rightarrow> 'o FeDecision option \<Rightarrow> 'o Synchronizer
    \<Rightarrow> 'o Synchronizer \<times> 'o SynchronizerStatus" where
  \<comment> \<open>the end of \<open>finalize\<close>\<close>
  "finished consensus_result to_execute s =
     (let s = set_phase Init s in
      case sy_currently_adding_node s of
        Some node \<Rightarrow>
          (s\<lparr>sy_currently_adding_node := None, sy_currently_adding := []\<rparr>,
           NewViewJoinedQuorum consensus_result to_execute node)
      | None \<Rightarrow> (s, NewView consensus_result to_execute))"

definition sy_finalize :: "'o sync_env \<Rightarrow> atlas \<Rightarrow> 'o FinalizeState \<Rightarrow> 'o sync_ctx \<Rightarrow> 'o sync_result" where
  "sy_finalize E A state cx =
     or_panic cx (advance_view (se_tbo E) A (cx_sync cx)) (\<lambda>(s, _).
       let cx = cx\<lparr>cx_sync := s\<rparr>; view = sy_view s in
       case catch_up E A view state cx of
         (cx, es, Ok to_execute) \<Rightarrow>
           (case finalize_view_change (se_tbo E) A (role_of (sy_accessory (cx_sync cx))) (se_nonces E)
                   (fwd_header (fs_proposed state), fwd_consensus_msg (fs_proposed state)) view view (cx_consensus cx) of
              (c, es', Ok consensus_result) \<Rightarrow>
                (case finished consensus_result to_execute (cx_sync cx) of
                   (s, status) \<Rightarrow>
                     (cx\<lparr>cx_sync := s, cx_consensus := c\<rparr>, es @ map OfConsensus es', Ok status))
            | (c, es', _) \<Rightarrow> (cx\<lparr>cx_consensus := c\<rparr>, es @ map OfConsensus es', Panic))
       | (cx, es, _) \<Rightarrow> (cx, es, Panic))"

definition sy_finalize_view_change :: "'o sync_env \<Rightarrow> atlas \<Rightarrow> 'o FinalizeState \<Rightarrow> 'o Proof option
    \<Rightarrow> 'o sync_ctx \<Rightarrow> 'o sync_result" where
  \<comment> \<open>the macro \<open>finalize_view_change!\<close>\<close>
  "sy_finalize_view_change E A state p cx =
     or_panic cx (pre_finalize A state p (cx_log cx)) (\<lambda>status.
       case status of
         NoValue \<Rightarrow> (cx, [], Ok Running)
       | FinalizeRunCst state \<Rightarrow>
           (on_sync (\<lambda>s. s\<lparr>sy_finalize_state := Some state, sy_phase := SyncingState\<rparr>) cx, [], Ok RunCst)
       | FinalizeCommit state \<Rightarrow> sy_finalize E A state cx)"

definition resume_view_change :: "'o sync_env \<Rightarrow> atlas \<Rightarrow> 'o sync_ctx
    \<Rightarrow> 'o sync_ctx \<times> 'o sync_effect list \<times> ('o SynchronizerStatus option, unit) res" where
  "resume_view_change E A cx =
     (case sy_finalize_state (cx_sync cx) of
        None \<Rightarrow> (cx, [], Ok None)
      | Some state \<Rightarrow>
          (case sy_finalize_view_change E A state None (on_sync (\<lambda>s. s\<lparr>sy_finalize_state := None\<rparr>) cx) of
             (cx, es, r) \<Rightarrow> (cx, es, res_map Some r)))"


subsection \<open>Processing a message\<close>

definition stop_status :: "nat \<Rightarrow> ViewInfo \<Rightarrow> 'o SynchronizerStatus" where
  "stop_status i view = (if view_f view < i then Running else StatusNil)"

definition queue_then :: "('o SyncTboQueue \<Rightarrow> 'o SyncTboQueue) \<Rightarrow> 'o SynchronizerStatus \<Rightarrow> 'o sync_ctx
    \<Rightarrow> 'o sync_result" where
  \<comment> \<open>keep the message for later and return\<close>
  "queue_then f status cx = (on_sync (\<lambda>s. s\<lparr>sy_tbo := f (sy_tbo s)\<rparr>) cx, [], Ok status)"

definition queue_stop_data_then :: "'o sync_env \<Rightarrow> atlas \<Rightarrow> 'o StoredConsensusMessage \<Rightarrow> 'o SynchronizerStatus
    \<Rightarrow> 'o sync_ctx \<Rightarrow> 'o sync_result" where
  \<comment> \<open>\<open>STOP-DATA\<close> outside its phase: a follower ignores it\<close>
  "queue_stop_data_then E A s_message status cx =
     (case sy_accessory (cx_sync cx) of
        FollowerAccessory \<Rightarrow> (cx, [], Ok status)
      | ReplicaAccessory _ \<Rightarrow> queue_then (queue_stop_data (se_tbo E) A s_message) status cx)"

definition process_init :: "'o sync_env \<Rightarrow> atlas \<Rightarrow> 'o StoredConsensusMessage \<Rightarrow> 'o ViewChangeMessage
    \<Rightarrow> 'o sync_ctx \<Rightarrow> 'o sync_result" where
  "process_init E A s_message message cx =
     (case vc_kind message of
        Stop _ \<Rightarrow> queue_then (queue_stop (se_tbo E) A s_message) StatusNil cx
      | StopQuorumJoin _ \<Rightarrow> queue_then (queue_stop (se_tbo E) A s_message) StatusNil cx
      | StopData _ \<Rightarrow> queue_stop_data_then E A s_message StatusNil cx
      | Sync _ \<Rightarrow> queue_then (queue_sync (se_tbo E) A s_message) StatusNil cx)"

definition enter_next_view :: "'o sync_env \<Rightarrow> atlas \<Rightarrow> ViewInfo \<Rightarrow> ViewInfo \<Rightarrow> 'o sync_ctx \<Rightarrow> 'o sync_result" where
  \<comment> \<open>a quorum has stopped: what both stopping phases do once the next view is known\<close>
  "enter_next_view E A nv prev_view cx =
     or_panic cx (leader A nv) (\<lambda>next_leader.
       let cx = on_sync (install_next_view nv) cx;
           moved = on_sync (set_phase (if next_leader = se_id E then StoppingData 0 else Syncing))
       in case sy_accessory (cx_sync cx) of
            ReplicaAccessory timeout_dur \<Rightarrow>
              (case handle_stopping_quorum E A timeout_dur prev_view (cx_consensus cx) (cx_log cx) (cx_sync cx) of
                 (s, es, Ok _) \<Rightarrow> (moved (cx\<lparr>cx_sync := s\<rparr>), es, Ok Running)
               | (s, es, Err e) \<Rightarrow> (cx\<lparr>cx_sync := s\<rparr>, es, Err e)
               | (s, es, Panic) \<Rightarrow> (cx\<lparr>cx_sync := s\<rparr>, es, Panic))
          | FollowerAccessory \<Rightarrow> (moved cx, [], Ok Running))"

definition count_stop :: "'o sync_env \<Rightarrow> atlas \<Rightarrow> Header \<Rightarrow> 'o Request StoredMessage list \<Rightarrow> nat
    \<Rightarrow> 'o sync_ctx \<Rightarrow> 'o sync_result" where
  \<comment> \<open>the rest of the arm for a \<open>STOP\<close> that counts; \<open>i\<close> includes it\<close>
  "count_stop E A header stopped i cx =
     (let current_view = sy_view (cx_sync cx);
          cx = on_sync (\<lambda>s. s\<lparr>sy_stopped := AList.update (hdr_from header) stopped (sy_stopped s)\<rparr>) cx
      in case sy_phase (cx_sync cx) of
           Stopping _ \<Rightarrow>
             if view_f current_view < i
             then (case begin_view_change E A None (cx_sync cx) of (s, es) \<Rightarrow> (cx\<lparr>cx_sync := s\<rparr>, es, Ok Running))
             else (on_sync (set_phase (Stopping i)) cx, [], Ok StatusNil)
         | _ \<Rightarrow>
             if view_quorum current_view \<le> i
             then or_panic cx (next_view A current_view) (\<lambda>nv. enter_next_view E A nv current_view cx)
             else (on_sync (set_phase (Stopping2 i)) cx, [], Ok Running))"

definition process_stopping :: "'o sync_env \<Rightarrow> atlas \<Rightarrow> 'o StoredConsensusMessage \<Rightarrow> 'o ViewChangeMessage
    \<Rightarrow> nat \<Rightarrow> 'o sync_ctx \<Rightarrow> 'o sync_result" where
  "process_stopping E A s_message message i cx =
     (let header = hdr s_message;
          current_view = sy_view (cx_sync cx);
          next_seq = next_seq A (vi_seq current_view);
          status = stop_status i current_view
      in case vc_kind message of
           Stop stopped \<Rightarrow>
             if vc_view message \<noteq> next_seq then queue_then (queue_stop (se_tbo E) A s_message) status cx
             else if hdr_from header \<in> fst ` set (sy_stopped (cx_sync cx)) then (cx, [], Ok status)
             else count_stop E A header stopped (i + 1) cx
         | StopQuorumJoin _ \<Rightarrow>
             if vc_view message \<noteq> next_seq then queue_then (queue_stop (se_tbo E) A s_message) status cx
             else (cx, [], Ok status)
         | StopData _ \<Rightarrow> queue_stop_data_then E A s_message status cx
         | Sync _ \<Rightarrow> queue_then (queue_sync (se_tbo E) A s_message) status cx)"

fun add_vote :: "NodeId \<Rightarrow> NodeId \<Rightarrow> (NodeId \<times> NodeId list) list \<Rightarrow> (NodeId \<times> NodeId list) list" where
  \<comment> \<open>\<open>entry(node_id).or_default()\<close> on the \<open>BTreeMap\<close> and \<open>insert\<close> into the \<open>BTreeSet\<close> found there\<close>
  "add_vote node_id voter [] = [(node_id, [voter])]"
| "add_vote node_id voter ((k, voters) # m) =
     (if node_id < k then (node_id, [voter]) # (k, voters) # m
      else if node_id = k then (k, List.insert voter voters) # m
      else (k, voters) # add_vote node_id voter m)"

definition first_by_votes :: "(NodeId \<times> NodeId list) list \<Rightarrow> (NodeId \<times> nat) option" where
  \<comment> \<open>\<open>sort_by\<close> is stable and puts the most votes first\<close>
  "first_by_votes m =
     (case sort_key (\<lambda>(_, votes). - int votes) (map (\<lambda>(node, voters). (node, length voters)) m) of
        vote_count # _ \<Rightarrow> Some vote_count | [] \<Rightarrow> None)"

definition count_join :: "'o sync_env \<Rightarrow> atlas \<Rightarrow> Header \<Rightarrow> NodeId \<Rightarrow> nat \<Rightarrow> 'o sync_ctx \<Rightarrow> 'o sync_result" where
  \<comment> \<open>the rest of the arm for a \<open>STOP-QUORUM-JOIN\<close>; \<open>received\<close> includes it\<close>
  "count_join E A header node_id received cx =
     (let current_view = sy_view (cx_sync cx);
          cx = on_sync (\<lambda>s. s\<lparr>sy_currently_adding := add_vote node_id (hdr_from header) (sy_currently_adding s),
                             sy_phase := ViewStopping received\<rparr>) cx
      in if view_quorum current_view \<le> received
         then
           case first_by_votes (sy_currently_adding (cx_sync cx)) of
             Some (node_to_add, votes) \<Rightarrow>
               if view_quorum current_view \<le> votes
               then
                 let cx = on_sync (\<lambda>s. s\<lparr>sy_currently_adding_node := Some node_id\<rparr>) cx
                 in or_panic cx (next_view_with_new_node A current_view node_to_add) (\<lambda>nv.
                      enter_next_view E A nv current_view cx)
               else if view_n current_view \<le> received then (cx, [], Panic)
               else (cx, [], Ok Running)
           | None \<Rightarrow> (cx, [], Ok Running)
         else (on_sync (set_phase (ViewStopping2 received)) cx, [], Ok Running))"

definition process_view_stopping :: "'o sync_env \<Rightarrow> atlas \<Rightarrow> 'o StoredConsensusMessage \<Rightarrow> 'o ViewChangeMessage
    \<Rightarrow> nat \<Rightarrow> 'o sync_ctx \<Rightarrow> 'o sync_result" where
  "process_view_stopping E A s_message message received cx =
     (let current_view = sy_view (cx_sync cx);
          next_seq = next_seq A (vi_seq current_view);
          status = stop_status received current_view
      in case vc_kind message of
           Stop _ \<Rightarrow>
             if vc_view message \<noteq> next_seq then queue_then (queue_stop (se_tbo E) A s_message) status cx
             else queue_then (queue_stop (se_tbo E) A s_message) Running (on_sync (set_phase (Stopping 0)) cx)
         | StopQuorumJoin node \<Rightarrow>
             if vc_view message \<noteq> next_seq then queue_then (queue_stop (se_tbo E) A s_message) status cx
             else count_join E A (hdr s_message) node (received + 1) cx
         | StopData _ \<Rightarrow> queue_stop_data_then E A s_message status cx
         | Sync _ \<Rightarrow> queue_then (queue_sync (se_tbo E) A s_message) status cx)"


subsection \<open>Collecting \<open>STOP-DATA\<close> and synchronising\<close>

definition leader_proposal :: "'o sync_env \<Rightarrow> atlas \<Rightarrow> ViewInfo \<Rightarrow> 'o Request StoredMessage list \<Rightarrow> 'o Consensus
    \<Rightarrow> ('o FwdConsensusMessage, unit) res" where
  \<comment> \<open>the new leader's \<open>PRE-PREPARE\<close>, signed for the \<open>SYNC\<close> message\<close>
  "leader_proposal E A nv p c =
     res_bind (expect (se_serialize E (forge_propose (fst (se_nonces E)) p nv c))) (\<lambda>(message, digest).
     res_bind (leader A nv) (\<lambda>l.
       case message of
         ConsensusMsg m \<Rightarrow> Ok (FwdConsensusMessage (se_wire_header E l l digest) m)
       | _ \<Rightarrow> Panic))"

definition leader_state :: "'o sync_env \<Rightarrow> atlas \<Rightarrow> ViewInfo \<Rightarrow> ViewInfo \<Rightarrow> (NodeId \<times> 'o StoredConsensusMessage) list
    \<Rightarrow> (SeqNo \<times> Sound \<times> 'o Proof option, unit) res" where
  \<comment> \<open>the number to decide next, the soundness and the highest proof, as the leader computes them\<close>
  "leader_state E A current_view nv collects =
     (let values = se_collects_values E collects in
      res_bind (highest_proof (se_signatures E) current_view values) (\<lambda>p.
        let curr_cid = (case p of Some p \<Rightarrow> seq_of_u32 A (u32_succ A (Proof_sequence_number p)) | None \<Rightarrow> ZERO A)
        in res_map (\<lambda>data. (curr_cid, sound (se_iter E) A nv (normalized_collects curr_cid data), p))
             (collect_data values)))"

definition lead_view_change :: "'o sync_env \<Rightarrow> atlas \<Rightarrow> ViewInfo \<Rightarrow> 'o sync_ctx \<Rightarrow> 'o sync_result" where
  \<comment> \<open>the leader has a quorum of \<open>STOP-DATA\<close>\<close>
  "lead_view_change E A nv cx =
     or_panic cx (leader_state E A (sy_view (cx_sync cx)) nv (sy_collects (cx_sync cx))) (\<lambda>(curr_cid, snd', p).
       case se_pending_rqs E of
         None \<Rightarrow> (cx, [], Ok Running)
       | Some rqs \<Rightarrow>
           or_panic cx (leader_proposal E A nv rqs (cx_consensus cx)) (\<lambda>fwd_request.
             let message = ViewChangeMsg (ViewChangeMessage (vi_seq nv)
                   (Sync (LeaderCollects fwd_request (se_collects_values E (sy_collects (cx_sync cx))))));
                 targets = filter (\<lambda>id. id \<noteq> se_id E) (vi_quorum_members nv);
                 state = \<lparr>fs_curr_cid = curr_cid, fs_sound = snd', fs_proposed = fwd_request, fs_last_proof = p\<rparr>
             in after [SyncBroadcastSigned message targets] (sy_finalize_view_change E A state p cx)))"

definition count_stop_data :: "'o sync_env \<Rightarrow> atlas \<Rightarrow> 'o StoredConsensusMessage \<Rightarrow> ViewInfo \<Rightarrow> nat
    \<Rightarrow> 'o sync_ctx \<Rightarrow> 'o sync_result" where
  \<comment> \<open>the rest of the arm for a \<open>STOP-DATA\<close> that counts; \<open>i\<close> includes it\<close>
  "count_stop_data E A s_message nv i cx =
     (let cx = on_sync (\<lambda>s. s\<lparr>sy_collects := AList.update (hdr_from (hdr s_message)) s_message (sy_collects s)\<rparr>) cx
      in if i < view_quorum nv then (on_sync (set_phase (StoppingData i)) cx, [], Ok Running)
         else lead_view_change E A nv cx)"

definition process_stopping_data :: "'o sync_env \<Rightarrow> atlas \<Rightarrow> 'o StoredConsensusMessage \<Rightarrow> 'o ViewChangeMessage
    \<Rightarrow> nat \<Rightarrow> 'o sync_ctx \<Rightarrow> 'o sync_result" where
  "process_stopping_data E A s_message message i cx =
     (case sy_accessory (cx_sync cx) of
        FollowerAccessory \<Rightarrow> (cx, [], Panic)
      | ReplicaAccessory _ \<Rightarrow>
          or_panic cx (expect (sq_next_view (sy_tbo (cx_sync cx)))) (\<lambda>nv.
            case vc_kind message of
              Stop _ \<Rightarrow> queue_then (queue_stop (se_tbo E) A s_message) Running cx
            | StopQuorumJoin _ \<Rightarrow> queue_then (queue_stop (se_tbo E) A s_message) Running cx
            | StopData _ \<Rightarrow>
                if vc_view message \<noteq> vi_seq nv
                then or_panic cx (res_bind (peek A nv (vc_view message)) (leader A)) (\<lambda>l.
                       if l = se_id E then queue_then (queue_stop_data (se_tbo E) A s_message) Running cx
                       else (cx, [], Ok Running))
                else
                  or_panic cx (leader A nv) (\<lambda>l.
                    if l \<noteq> se_id E then (cx, [], Ok Running)
                    else if hdr_from (hdr s_message) \<in> fst ` set (sy_collects (cx_sync cx)) then (cx, [], Ok Running)
                    else count_stop_data E A s_message nv (i + 1) cx)
            | Sync _ \<Rightarrow> queue_then (queue_sync (se_tbo E) A s_message) Running cx))"

definition replica_state :: "'o sync_env \<Rightarrow> atlas \<Rightarrow> ViewInfo \<Rightarrow> 'o StoredConsensusMessage list
    \<Rightarrow> (SeqNo \<times> Sound \<times> 'o Proof option, unit) res" where
  \<comment> \<open>the same as a replica recomputes it from the \<open>SYNC\<close> message\<close>
  "replica_state E A nv collects =
     (let signed = signed_collects (se_signatures E) collects in
      res_bind (highest_proof (se_signatures E) nv signed) (\<lambda>p.
        let curr_cid = (case p of Some p \<Rightarrow> next_seq A (Proof_sequence_number p) | None \<Rightarrow> ZERO A)
        in res_map (\<lambda>data. (curr_cid, sound (se_iter E) A nv (normalized_collects curr_cid data), p))
             (collect_data signed)))"

definition follow_view_change :: "'o sync_env \<Rightarrow> atlas \<Rightarrow> ViewInfo \<Rightarrow> 'o LeaderCollects \<Rightarrow> 'o sync_ctx
    \<Rightarrow> 'o sync_result" where
  "follow_view_change E A nv collects cx =
     or_panic cx (replica_state E A nv (lc_collects collects)) (\<lambda>(curr_cid, snd', p).
       sy_finalize_view_change E A
         \<lparr>fs_curr_cid = curr_cid, fs_sound = snd', fs_proposed = lc_proposed collects, fs_last_proof = p\<rparr> p cx)"

definition process_syncing :: "'o sync_env \<Rightarrow> atlas \<Rightarrow> 'o StoredConsensusMessage \<Rightarrow> 'o ViewChangeMessage
    \<Rightarrow> 'o sync_ctx \<Rightarrow> 'o sync_result" where
  "process_syncing E A s_message message cx =
     or_panic cx (expect (sq_next_view (sy_tbo (cx_sync cx)))) (\<lambda>nv.
       case vc_kind message of
         Stop _ \<Rightarrow> queue_then (queue_stop (se_tbo E) A s_message) Running cx
       | StopQuorumJoin _ \<Rightarrow> queue_then (queue_stop (se_tbo E) A s_message) Running cx
       | StopData _ \<Rightarrow> queue_stop_data_then E A s_message Running cx
       | Sync collects \<Rightarrow>
           if vc_view message \<noteq> vi_seq nv then queue_then (queue_sync (se_tbo E) A s_message) Running cx
           else
             or_panic cx (leader A nv) (\<lambda>l.
               if hdr_from (hdr s_message) \<noteq> l then (cx, [], Ok Running)
               else follow_view_change E A nv collects cx))"

definition sy_process_message :: "'o sync_env \<Rightarrow> atlas \<Rightarrow> 'o StoredConsensusMessage \<Rightarrow> 'o sync_ctx
    \<Rightarrow> 'o sync_result" where
  "sy_process_message E A s_message cx =
     or_panic cx (view_change (msg s_message)) (\<lambda>message.
       case sy_phase (cx_sync cx) of
         Init \<Rightarrow> process_init E A s_message message cx
       | Stopping i \<Rightarrow> process_stopping E A s_message message i cx
       | Stopping2 i \<Rightarrow> process_stopping E A s_message message i cx
       | ViewStopping received \<Rightarrow> process_view_stopping E A s_message message received cx
       | ViewStopping2 received \<Rightarrow> process_view_stopping E A s_message message received cx
       | StoppingData i \<Rightarrow> process_stopping_data E A s_message message i cx
       | Syncing \<Rightarrow> process_syncing E A s_message message cx
       | SyncingState \<Rightarrow> (cx, [], Panic))"

end
