(* ===== verification/SyncRuns.thy ===== *)
theory SyncRuns
  imports Synchronizer ConsensusSafety
begin

text \<open>
  Runs of the view change protocol of a replica. A step of \<open>sync_step\<close> is one operation of the
  synchronizer with any environment, or any change of the log and the consensus handler by the
  rest of the replica; it records the message that was processed. A panic has no successor.
  Installing a view by state transfer and joining the quorum are steps only while no \<open>STOP\<close> is
  stored: both leave the stored \<open>STOP\<close>s in place although they change the view or the phase.

  Shown: the invariant \<open>sync_inv\<close>; a replica stops its view because of the others only after more
  than \<open>f\<close> of them, and moves to the next view only after a quorum of them, have stopped for that
  view; a quorum of \<open>STOP\<close>s suffices to move on; leader and replicas derive the same state from
  the collects of a \<open>SYNC\<close> message.
\<close>

inductive sync_step :: "atlas \<Rightarrow> 'o sync_ctx \<Rightarrow> 'o StoredConsensusMessage list \<Rightarrow> 'o sync_ctx \<Rightarrow> bool" for A where
  processed: "sy_process_message E A m cx = (cx', es, Ok st) \<Longrightarrow> sync_step A cx [m] cx'"
| polled: "sy_poll E (cx_sync cx) = (Ok (s, r) :: (_, unit) res) \<Longrightarrow> sync_step A cx [] (cx\<lparr>cx_sync := s\<rparr>)"
| queued: "sy_queue T A m (cx_sync cx) = (Ok s :: (_, unit) res) \<Longrightarrow> sync_step A cx [] (cx\<lparr>cx_sync := s\<rparr>)"
| signalled: "sync_step A cx [] (cx\<lparr>cx_sync := sy_signal (cx_sync cx)\<rparr>)"
| timed_out: "begin_view_change E A (Some rqs) (cx_sync cx) = (s, es) \<Longrightarrow> sync_step A cx [] (cx\<lparr>cx_sync := s\<rparr>)"
| join_started: "start_join_quorum E A n (cx_sync cx) = (s, es, (Ok r :: (_, unit) res)) \<Longrightarrow>
    sync_step A cx [] (cx\<lparr>cx_sync := s\<rparr>)"
| resumed: "sy_phase (cx_sync cx) = SyncingState \<Longrightarrow> resume_view_change E A cx = (cx', es, Ok st) \<Longrightarrow>
    sync_step A cx [] cx'"
| joining: "sy_stopped (cx_sync cx) = [] \<Longrightarrow> attempt_join_quorum E A (cx_sync cx) = (Ok (s, r) :: (_, unit) res) \<Longrightarrow>
    sync_step A cx [] (cx\<lparr>cx_sync := s\<rparr>)"
| view_received: "sy_stopped (cx_sync cx) = [] \<Longrightarrow>
    received_view_from_state_transfer T A v (cx_sync cx) = (Ok (s, b) :: (_, unit) res) \<Longrightarrow>
    sync_step A cx [] (cx\<lparr>cx_sync := s\<rparr>)"
| others: "sync_step A cx [] (cx\<lparr>cx_log := l, cx_consensus := c\<rparr>)"

inductive sync_run :: "atlas \<Rightarrow> 'o sync_ctx \<Rightarrow> 'o StoredConsensusMessage list \<Rightarrow> 'o sync_ctx \<Rightarrow> bool" for A cx0 where
  start: "sync_run A cx0 [] cx0"
| step: "sync_run A cx0 h cx \<Longrightarrow> sync_step A cx ms cx' \<Longrightarrow> sync_run A cx0 (h @ ms) cx'"

definition stop_from :: "SeqNo \<Rightarrow> NodeId \<Rightarrow> 'o StoredConsensusMessage \<Rightarrow> bool" where
  "stop_from view n m \<longleftrightarrow> hdr_from (hdr m) = n \<and> (\<exists>rqs. msg m = ViewChangeMsg (ViewChangeMessage view (Stop rqs)))"

definition stop_senders :: "SeqNo \<Rightarrow> 'o StoredConsensusMessage list \<Rightarrow> NodeId set" where
  \<comment> \<open>the replicas whose \<open>STOP\<close> for the given view is among the messages\<close>
  "stop_senders view h = {n. \<exists>m \<in> set h. stop_from view n m}"

definition stops_ok :: "'o Synchronizer \<Rightarrow> bool" where
  "stops_ok s \<longleftrightarrow> distinct (map fst (sy_stopped s)) \<and> distinct (map fst (sy_collects s)) \<and>
     (case sy_phase s of
        Stopping i \<Rightarrow> i = length (sy_stopped s)
      | Stopping2 i \<Rightarrow> i = length (sy_stopped s)
      | StoppingData i \<Rightarrow> sy_stopped s = [] \<and> i \<le> length (sy_collects s) \<and> sq_next_view (sy_tbo s) \<noteq> None
      | Syncing \<Rightarrow> sy_stopped s = [] \<and> sq_next_view (sy_tbo s) \<noteq> None
      | _ \<Rightarrow> sy_stopped s = [])"

definition sync_inv :: "atlas \<Rightarrow> 'o StoredConsensusMessage list \<Rightarrow> 'o Synchronizer \<Rightarrow> bool" where
  "sync_inv A h s \<longleftrightarrow> stops_ok s \<and> sy_accessory s \<noteq> FollowerAccessory \<and>
     fst ` set (sy_stopped s) \<subseteq> stop_senders (next_seq A (vi_seq (sy_view s))) h"

subsection \<open>What the parts of a step leave alone\<close>

definition same_votes :: "'o Synchronizer \<Rightarrow> 'o Synchronizer \<Rightarrow> bool" where
  "same_votes s s' \<longleftrightarrow> sy_stopped s' = sy_stopped s \<and> sy_collects s' = sy_collects s \<and> sy_accessory s' = sy_accessory s"

lemma stop_senders_append [simp]: "stop_senders v (h @ h') = stop_senders v h \<union> stop_senders v h'"
  by (auto simp: stop_senders_def)

lemma stop_senders_Nil [simp]: "stop_senders v [] = {}"
  by (simp add: stop_senders_def)

lemma stops_ok_idle:
  "stops_ok s \<Longrightarrow> (case sy_phase s of Stopping _ \<Rightarrow> False | Stopping2 _ \<Rightarrow> False | _ \<Rightarrow> True) \<Longrightarrow> sy_stopped s = []"
  by (simp add: stops_ok_def split: ProtoPhase.splits)

lemma advance_view_frame:
  "advance_view T A s = Ok (s', b) \<Longrightarrow> same_votes s s' \<and> sy_phase s' = sy_phase s"
  by (auto simp: advance_view_def sq_advance_def sq_install_view_def same_votes_def res_map_def
      split: option.splits sum.splits if_splits)

lemma catch_up_frame: "catch_up E A v st cx = (cx', es, r) \<Longrightarrow> cx_sync cx' = cx_sync cx"
  by (auto simp: catch_up_def Let_def split: if_splits option.splits prod.splits res.splits)

lemma finished_frame: "finished cr te s = (s', st) \<Longrightarrow> same_votes s s' \<and> sy_phase s' = Init"
  by (auto simp: finished_def Let_def same_votes_def set_phase_def split: option.splits)

lemma sy_finalize_frame:
  assumes "sy_finalize E A st cx = (cx', es, Ok r)"
  shows "same_votes (cx_sync cx) (cx_sync cx') \<and> sy_phase (cx_sync cx') = Init"
proof -
  obtain s b where s: "advance_view (se_tbo E) A (cx_sync cx) = (Ok (s, b) :: (_, unit) res)"
    using assms by (auto simp: sy_finalize_def or_panic_def split: res.splits)
  obtain cx1 es1 te where c: "catch_up E A (sy_view s) st (cx\<lparr>cx_sync := s\<rparr>) = (cx1, es1, Ok te)"
    using assms s by (auto simp: sy_finalize_def or_panic_def Let_def split: res.splits prod.splits)
  have "cx_sync cx1 = s" using catch_up_frame [OF c] by simp
  then show ?thesis
    using assms s c advance_view_frame [OF s]
    by (auto simp: sy_finalize_def or_panic_def Let_def same_votes_def split: res.splits prod.splits dest!: finished_frame)
qed

lemma sy_finalize_view_change_frame:
  assumes "sy_finalize_view_change E A st p cx = (cx', es, Ok r)"
  shows "same_votes (cx_sync cx) (cx_sync cx') \<and>
    (cx_sync cx' = cx_sync cx \<or> sy_phase (cx_sync cx') = SyncingState \<or> sy_phase (cx_sync cx') = Init)"
  using assms sy_finalize_frame [of E A _ cx cx' es r]
  by (auto simp: sy_finalize_view_change_def or_panic_def on_sync_def same_votes_def
      split: res.splits FinalizeStatus.splits)

lemma stops_ok_same:
  assumes "stops_ok s" and "sy_stopped s = []" and "same_votes s s'"
    and "s' = s \<or> sy_phase s' = SyncingState \<or> sy_phase s' = Init"
  shows "stops_ok s'"
  using assms by (auto simp: stops_ok_def same_votes_def)

lemma resume_frame:
  assumes "resume_view_change E A cx = (cx', es, Ok st)" and "stops_ok (cx_sync cx)" and "sy_stopped (cx_sync cx) = []"
  shows "stops_ok (cx_sync cx') \<and> same_votes (cx_sync cx) (cx_sync cx')"
proof (cases "sy_finalize_state (cx_sync cx)")
  case None
  then show ?thesis using assms by (simp add: resume_view_change_def same_votes_def)
next
  case (Some state)
  let ?cx = "on_sync (\<lambda>s. s\<lparr>sy_finalize_state := None\<rparr>) cx"
  obtain st' where f: "sy_finalize_view_change E A state None ?cx = (cx', es, Ok st')"
    using assms(1) Some by (auto simp: resume_view_change_def res_map_def split: prod.splits res.splits)
  have ok: "stops_ok (cx_sync ?cx)" "sy_stopped (cx_sync ?cx) = []" and same: "same_votes (cx_sync cx) (cx_sync ?cx)"
    using assms(2,3) by (auto simp: on_sync_def stops_ok_def same_votes_def cong: ProtoPhase.case_cong)
  note frame = sy_finalize_view_change_frame [OF f]
  have "stops_ok (cx_sync cx')" using stops_ok_same [OF ok] frame by blast
  then show ?thesis using frame same by (simp add: same_votes_def)
qed


lemma handle_stopping_quorum_frame:
  assumes "handle_stopping_quorum E A t pv c l s = (s', es, Ok u)"
  shows "s' = s\<lparr>sy_stopped := []\<rparr>"
  using assms
  by (auto simp: handle_stopping_quorum_def take_stopped_requests_and_register_them_def drain_stopped_request_def
      Let_def split: if_splits res.splits prod.splits)

lemma enter_next_view_frame:
  assumes "enter_next_view E A nv pv cx = (cx', es, Ok st)" and "sy_accessory (cx_sync cx) \<noteq> FollowerAccessory"
  shows "\<exists>phase. cx_sync cx' = (cx_sync cx)\<lparr>sy_tbo := (sy_tbo (cx_sync cx))\<lparr>sq_next_view := Some nv\<rparr>,
      sy_stopped := [], sy_phase := phase\<rparr> \<and> (phase = StoppingData 0 \<or> phase = Syncing)"
  using assms
  by (auto simp: enter_next_view_def or_panic_def on_sync_def Let_def set_phase_def install_next_view_def
      sq_install_next_view_def dest!: handle_stopping_quorum_frame
      split: res.splits prod.splits SynchronizerAccessory.splits)

lemma queue_then_frame:
  "queue_then f st cx = (cx', es, r) \<Longrightarrow> cx_sync cx' = (cx_sync cx)\<lparr>sy_tbo := f (sy_tbo (cx_sync cx))\<rparr> \<and> es = [] \<and> r = Ok st"
  by (auto simp: queue_then_def on_sync_def)

lemma queue_fields [simp]:
  "sq_view (queue_stop T A m q) = sq_view q" "sq_next_view (queue_stop T A m q) = sq_next_view q"
  "sq_view (queue_stop_data T A m q) = sq_view q" "sq_next_view (queue_stop_data T A m q) = sq_next_view q"
  "sq_view (queue_sync T A m q) = sq_view q" "sq_next_view (queue_sync T A m q) = sq_next_view q"
  by (simp_all add: queue_stop_def queue_stop_data_def queue_sync_def)

lemma sync_inv_tbo:
  "sync_inv A h s \<Longrightarrow> sq_view q = sy_view s \<Longrightarrow> sq_next_view q = sq_next_view (sy_tbo s) \<Longrightarrow>
   sync_inv A (h @ h') (s\<lparr>sy_tbo := q\<rparr>)"
  by (auto simp: sync_inv_def stops_ok_def cong: ProtoPhase.case_cong)

lemma queue_then_inv:
  assumes "sync_inv A h (cx_sync cx)" and "queue_then f st cx = (cx', es, r)"
    and "\<And>q. sq_view (f q) = sq_view q" and "\<And>q. sq_next_view (f q) = sq_next_view q"
  shows "sync_inv A (h @ h') (cx_sync cx')"
  using queue_then_frame [OF assms(2)] sync_inv_tbo [OF assms(1)] assms(3,4) by simp

lemma queue_stop_inv:
  "sync_inv A h (cx_sync cx) \<Longrightarrow> queue_then (queue_stop T A' m) st cx = (cx', es, r) \<Longrightarrow> sync_inv A (h @ h') (cx_sync cx')"
  by (rule queue_then_inv [where f = "queue_stop T A' m"]) simp_all

lemma queue_sync_inv:
  "sync_inv A h (cx_sync cx) \<Longrightarrow> queue_then (queue_sync T A' m) st cx = (cx', es, r) \<Longrightarrow> sync_inv A (h @ h') (cx_sync cx')"
  by (rule queue_then_inv [where f = "queue_sync T A' m"]) simp_all

lemma sync_inv_append: "sync_inv A h s \<Longrightarrow> sync_inv A (h @ h') s"
  by (auto simp: sync_inv_def)

lemma queue_stop_data_then_inv:
  assumes "sync_inv A h (cx_sync cx)" and "queue_stop_data_then E A m st cx = (cx', es, r)"
  shows "sync_inv A (h @ h') (cx_sync cx')"
proof (cases "sy_accessory (cx_sync cx)")
  case FollowerAccessory
  then show ?thesis using assms(1) by (simp add: sync_inv_def)
next
  case (ReplicaAccessory t)
  then show ?thesis
    using assms(2) by (intro queue_then_inv [OF assms(1), of "queue_stop_data (se_tbo E) A m"])
      (simp_all add: queue_stop_data_then_def)
qed

lemma update_new: "k \<notin> fst ` set xs \<Longrightarrow> AList.update k v xs = xs @ [(k, v)]"
  by (induction xs) auto

lemma set_phase_fields [simp]:
  "sy_phase (set_phase p s) = p" "sy_stopped (set_phase p s) = sy_stopped s" "sy_tbo (set_phase p s) = sy_tbo s"
  "sy_collects (set_phase p s) = sy_collects s" "sy_accessory (set_phase p s) = sy_accessory s"
  by (simp_all add: set_phase_def)

lemma moved_inv:
  assumes "distinct (map fst (sy_collects s))" and "sy_accessory s \<noteq> FollowerAccessory" and "phase = StoppingData 0 \<or> phase = Syncing"
  shows "sync_inv A h (s\<lparr>sy_tbo := (sy_tbo s)\<lparr>sq_next_view := Some nv\<rparr>, sy_stopped := [], sy_phase := phase\<rparr>)"
  using assms by (auto simp: sync_inv_def stops_ok_def)

lemma count_stop_inv:
  assumes inv: "sync_inv A h (cx_sync cx)" and phase: "sy_phase (cx_sync cx) = Stopping i \<or> sy_phase (cx_sync cx) = Stopping2 i"
    and new: "hdr_from header \<notin> fst ` set (sy_stopped (cx_sync cx))"
    and vote: "hdr_from header \<in> stop_senders (next_seq A (vi_seq (sy_view (cx_sync cx)))) h'"
    and eq: "count_stop E A header stopped (i + 1) cx = (cx', es, Ok st)"
  shows "sync_inv A (h @ h') (cx_sync cx')"
proof -
  let ?s = "(cx_sync cx)\<lparr>sy_stopped := sy_stopped (cx_sync cx) @ [(hdr_from header, stopped)]\<rparr>"
  let ?cx = "cx\<lparr>cx_sync := ?s\<rparr>"
  have facts: "distinct (map fst (sy_stopped ?s))" "distinct (map fst (sy_collects ?s))"
    "sy_accessory ?s \<noteq> FollowerAccessory" "length (sy_stopped ?s) = i + 1"
    "fst ` set (sy_stopped ?s) \<subseteq> stop_senders (next_seq A (vi_seq (sy_view ?s))) (h @ h')"
    using inv phase new vote by (auto simp: sync_inv_def stops_ok_def)
  have counted: "sync_inv A (h @ h') (set_phase p ?s)" if "p = Stopping (i + 1) \<or> p = Stopping2 (i + 1)" for p
    using facts that by (auto simp: sync_inv_def stops_ok_def)
  have cx: "on_sync (\<lambda>s. s\<lparr>sy_stopped := AList.update (hdr_from header) stopped (sy_stopped s)\<rparr>) cx = ?cx"
    using new by (simp add: on_sync_def update_new)
  show ?thesis
  proof (cases "sy_phase (cx_sync cx) = Stopping i")
    case True
    then have "sy_phase ?s = Stopping i" by simp
    then show ?thesis
      using eq counted True facts(3) unfolding count_stop_def Let_def cx
      by (auto simp: on_sync_def begin_view_change_def split: if_splits SynchronizerAccessory.splits)
  next
    case False
    then have p: "sy_phase (cx_sync cx) = Stopping2 i" using phase by simp
    show ?thesis
    proof (cases "view_quorum (sy_view (cx_sync cx)) \<le> i + 1")
      case True
      then obtain nv where "enter_next_view E A nv (sy_view (cx_sync cx)) ?cx = (cx', es, Ok st)"
        using eq p unfolding count_stop_def Let_def cx by (auto simp: or_panic_def split: res.splits)
      then obtain phase where "cx_sync cx' = ?s\<lparr>sy_tbo := (sy_tbo ?s)\<lparr>sq_next_view := Some nv\<rparr>,
          sy_stopped := [], sy_phase := phase\<rparr>" "phase = StoppingData 0 \<or> phase = Syncing"
        using enter_next_view_frame facts(3) by fastforce
      then show ?thesis using moved_inv [OF facts(2,3)] by simp
    next
      case False
      then have "cx_sync cx' = set_phase (Stopping2 (i + 1)) ?s"
        using eq p unfolding count_stop_def Let_def cx by (auto simp: on_sync_def)
      then show ?thesis using counted by simp
    qed
  qed
qed


lemma process_stopping_inv:
  assumes inv: "sync_inv A h (cx_sync cx)" and phase: "sy_phase (cx_sync cx) = Stopping i \<or> sy_phase (cx_sync cx) = Stopping2 i"
    and m: "msg m = ViewChangeMsg message" and eq: "process_stopping E A m message i cx = (cx', es, Ok st)"
  shows "sync_inv A (h @ [m]) (cx_sync cx')"
proof (cases "vc_kind message")
  case (Stop stopped)
  let ?n = "next_seq A (vi_seq (sy_view (cx_sync cx)))"
  consider "vc_view message \<noteq> ?n" | "vc_view message = ?n" "hdr_from (hdr m) \<in> fst ` set (sy_stopped (cx_sync cx))"
    | "vc_view message = ?n" "hdr_from (hdr m) \<notin> fst ` set (sy_stopped (cx_sync cx))" by blast
  then show ?thesis
  proof cases
    case 1
    then show ?thesis using eq Stop by (intro queue_stop_inv [OF inv]) (auto simp: process_stopping_def Let_def)
  next
    case 2
    then show ?thesis using eq Stop sync_inv_append [OF inv] by (auto simp: process_stopping_def Let_def)
  next
    case 3
    have "message = ViewChangeMessage ?n (Stop stopped)" using 3 Stop by (cases message) simp
    then have "stop_from ?n (hdr_from (hdr m)) m" using m by (simp add: stop_from_def)
    then show ?thesis
      using eq 3 Stop by (intro count_stop_inv [OF inv phase 3(2)]) (auto simp: process_stopping_def Let_def stop_senders_def)
  qed
next
  case (StopQuorumJoin n)
  then show ?thesis
    using eq sync_inv_append [OF inv] queue_stop_inv [OF inv]
    by (auto simp: process_stopping_def Let_def split: if_splits)
next
  case (StopData c)
  then show ?thesis using eq by (intro queue_stop_data_then_inv [OF inv]) (auto simp: process_stopping_def Let_def)
next
  case (Sync c)
  then show ?thesis using eq by (intro queue_sync_inv [OF inv]) (auto simp: process_stopping_def Let_def)
qed

lemma idle_phase_inv:
  assumes "sync_inv A h s" and "sy_stopped s = []"
    and "sy_stopped s' = []" "sy_collects s' = sy_collects s" "sy_accessory s' = sy_accessory s"
    and "case sy_phase s' of Stopping i \<Rightarrow> i = 0 | Stopping2 i \<Rightarrow> i = 0 | StoppingData i \<Rightarrow> False | Syncing \<Rightarrow> False | _ \<Rightarrow> True"
  shows "sync_inv A h' s'"
  using assms by (auto simp: sync_inv_def stops_ok_def split: ProtoPhase.splits)

lemma count_join_inv:
  assumes inv: "sync_inv A h (cx_sync cx)" and idle: "sy_stopped (cx_sync cx) = []"
    and eq: "count_join E A header node received cx = (cx', es, Ok st)"
  shows "sync_inv A h' (cx_sync cx')"
proof -
  let ?s = "(cx_sync cx)\<lparr>sy_currently_adding := add_vote node (hdr_from header) (sy_currently_adding (cx_sync cx)),
    sy_phase := ViewStopping received\<rparr>"
  let ?t = "?s\<lparr>sy_currently_adding_node := Some node\<rparr>"
  have acc: "sy_accessory ?t \<noteq> FollowerAccessory" "distinct (map fst (sy_collects ?t))"
    using inv by (simp_all add: sync_inv_def stops_ok_def)
  have "cx_sync cx' = ?s \<or> cx_sync cx' = set_phase (ViewStopping2 received) ?s \<or>
      (\<exists>nv pv. enter_next_view E A nv pv (cx\<lparr>cx_sync := ?t\<rparr>) = (cx', es, Ok st))"
    using eq by (auto simp: count_join_def Let_def on_sync_def or_panic_def split: if_splits option.splits res.splits)
  then consider "cx_sync cx' = ?s \<or> cx_sync cx' = set_phase (ViewStopping2 received) ?s"
    | nv pv where "enter_next_view E A nv pv (cx\<lparr>cx_sync := ?t\<rparr>) = (cx', es, Ok st)" by blast
  then show ?thesis
  proof cases
    case 1
    then show ?thesis using idle by (intro idle_phase_inv [OF inv idle]) auto
  next
    case 2
    from enter_next_view_frame [OF this] acc(1) obtain phase where "cx_sync cx' = ?t\<lparr>
        sy_tbo := (sy_tbo ?t)\<lparr>sq_next_view := Some nv\<rparr>, sy_stopped := [], sy_phase := phase\<rparr>"
        "phase = StoppingData 0 \<or> phase = Syncing" by auto
    then show ?thesis using moved_inv [OF acc(2,1)] by simp
  qed
qed

lemma process_view_stopping_inv:
  assumes inv: "sync_inv A h (cx_sync cx)" and idle: "sy_stopped (cx_sync cx) = []"
    and eq: "process_view_stopping E A m message i cx = (cx', es, Ok st)"
  shows "sync_inv A (h @ [m]) (cx_sync cx')"
proof (cases "vc_kind message")
  case (Stop stopped)
  have "sync_inv A h (cx_sync (on_sync (set_phase (Stopping 0)) cx))"
    using idle by (intro idle_phase_inv [OF inv idle]) (auto simp: on_sync_def)
  with Stop show ?thesis
    using eq queue_stop_inv [OF inv]
      queue_stop_inv [of A h "on_sync (set_phase (Stopping 0)) cx"]
    by (auto simp: process_view_stopping_def Let_def split: if_splits)
next
  case (StopQuorumJoin n)
  then show ?thesis
    using eq count_join_inv [OF inv idle] queue_stop_inv [OF inv]
    by (auto simp: process_view_stopping_def Let_def split: if_splits)
next
  case (StopData c)
  then show ?thesis using eq by (intro queue_stop_data_then_inv [OF inv]) (auto simp: process_view_stopping_def Let_def)
next
  case (Sync c)
  then show ?thesis using eq by (intro queue_sync_inv [OF inv]) (auto simp: process_view_stopping_def Let_def)
qed


lemma count_stop_data_inv:
  assumes inv: "sync_inv A h (cx_sync cx)" and phase: "sy_phase (cx_sync cx) = StoppingData i"
    and new: "hdr_from (hdr m) \<notin> fst ` set (sy_collects (cx_sync cx))"
    and eq: "count_stop_data E A m nv (i + 1) cx = (cx', es, Ok st)"
  shows "sync_inv A h' (cx_sync cx')"
proof -
  let ?s = "(cx_sync cx)\<lparr>sy_collects := sy_collects (cx_sync cx) @ [(hdr_from (hdr m), m)]\<rparr>"
  have idle: "sy_stopped ?s = []" and acc: "sy_accessory ?s \<noteq> FollowerAccessory"
    and ok: "stops_ok ?s" "stops_ok (set_phase (StoppingData (i + 1)) ?s)"
    using inv phase new by (auto simp: sync_inv_def stops_ok_def)
  have "cx_sync cx' = set_phase (StoppingData (i + 1)) ?s \<or>
      lead_view_change E A nv (cx\<lparr>cx_sync := ?s\<rparr>) = (cx', es, Ok st)"
    using eq new by (auto simp: count_stop_data_def Let_def on_sync_def update_new split: if_splits)
  moreover have "sync_inv A h' (cx_sync cx')" if "lead_view_change E A nv (cx\<lparr>cx_sync := ?s\<rparr>) = (cx', es, Ok st)"
  proof -
    have "cx_sync cx' = ?s \<or> (\<exists>state p es r. sy_finalize_view_change E A state p (cx\<lparr>cx_sync := ?s\<rparr>) = (cx', es, Ok r))"
      using that by (auto simp: lead_view_change_def or_panic_def after_def Let_def split: res.splits prod.splits option.splits)
    then have "same_votes ?s (cx_sync cx') \<and>
        (cx_sync cx' = ?s \<or> sy_phase (cx_sync cx') = SyncingState \<or> sy_phase (cx_sync cx') = Init)"
      by (auto simp: same_votes_def dest!: sy_finalize_view_change_frame)
    then show ?thesis
      using stops_ok_same [OF ok(1) idle] idle acc by (auto simp: sync_inv_def same_votes_def)
  qed
  ultimately show ?thesis using ok(2) acc idle by (auto simp: sync_inv_def)
qed

lemma process_stopping_data_inv:
  assumes inv: "sync_inv A h (cx_sync cx)" and phase: "sy_phase (cx_sync cx) = StoppingData i"
    and eq: "process_stopping_data E A m message i cx = (cx', es, Ok st)"
  shows "sync_inv A (h @ [m]) (cx_sync cx')"
proof (cases "vc_kind message")
  case (StopData c)
  have sd: "sync_inv A (h @ [m]) (cx_sync cx')" if "queue_then (queue_stop_data (se_tbo E) A m) r cx = (cx', es, Ok st)" for r
    by (rule queue_then_inv [OF inv that]) simp_all
  from StopData show ?thesis
    using eq sd count_stop_data_inv [OF inv phase] sync_inv_append [OF inv]
    by (auto simp: process_stopping_data_def or_panic_def split: if_splits SynchronizerAccessory.splits res.splits)
qed (use eq queue_stop_inv [OF inv] queue_sync_inv [OF inv] in
    \<open>auto simp: process_stopping_data_def or_panic_def split: SynchronizerAccessory.splits res.splits\<close>)

lemma process_syncing_inv:
  assumes inv: "sync_inv A h (cx_sync cx)" and phase: "sy_phase (cx_sync cx) = Syncing"
    and eq: "process_syncing E A m message cx = (cx', es, Ok st)"
  shows "sync_inv A (h @ [m]) (cx_sync cx')"
proof (cases "vc_kind message")
  case (Sync c)
  have f: "sync_inv A (h @ [m]) (cx_sync cx')" if fv: "follow_view_change E A nv c cx = (cx', es, Ok st)" for nv
  proof -
    obtain state p where "sy_finalize_view_change E A state p cx = (cx', es, Ok st)"
      using fv by (cases "replica_state E A nv (lc_collects c)") (auto simp: follow_view_change_def or_panic_def)
    moreover have ok: "stops_ok (cx_sync cx)" "sy_stopped (cx_sync cx) = []"
      using inv phase by (auto simp: sync_inv_def stops_ok_def)
    ultimately show ?thesis
      using stops_ok_same [OF ok] sy_finalize_view_change_frame inv by (fastforce simp: sync_inv_def same_votes_def)
  qed
  from Sync show ?thesis
    using eq f queue_sync_inv [OF inv] sync_inv_append [OF inv]
    by (auto simp: process_syncing_def or_panic_def split: if_splits res.splits)
qed (use eq queue_stop_inv [OF inv] queue_stop_data_then_inv [OF inv] in
    \<open>auto simp: process_syncing_def or_panic_def split: res.splits\<close>)

lemma view_change_Ok: "view_change m = Ok v \<longleftrightarrow> m = ViewChangeMsg v"
  by (cases m) (auto simp: view_change_def)

lemma processed_inv:
  assumes inv: "sync_inv A h (cx_sync cx)" and eq: "sy_process_message E A m cx = (cx', es, Ok st)"
  shows "sync_inv A (h @ [m]) (cx_sync cx')"
proof -
  obtain v where v: "msg m = ViewChangeMsg v"
    using eq by (auto simp: sy_process_message_def or_panic_def view_change_Ok split: res.splits)
  note def = sy_process_message_def or_panic_def view_change_def v
  have idle: "sy_stopped (cx_sync cx) = []" if "\<forall>i. sy_phase (cx_sync cx) \<noteq> Stopping i \<and> sy_phase (cx_sync cx) \<noteq> Stopping2 i"
    using that inv by (intro stops_ok_idle) (auto simp: sync_inv_def split: ProtoPhase.splits)
  show ?thesis
  proof (cases "sy_phase (cx_sync cx)")
    case Init
    then show ?thesis
      using eq queue_stop_inv [OF inv] queue_sync_inv [OF inv] queue_stop_data_then_inv [OF inv]
      by (auto simp: def process_init_def split: ViewChangeMessageKind.splits)
  next
    case (StoppingData i)
    then show ?thesis using eq process_stopping_data_inv [OF inv StoppingData] by (simp add: def)
  next
    case Syncing
    then show ?thesis using eq process_syncing_inv [OF inv Syncing] by (simp add: def)
  qed (use eq idle process_stopping_inv [OF inv _ v] process_view_stopping_inv [OF inv] in \<open>simp_all add: def\<close>)
qed


subsection \<open>The invariant of runs\<close>

lemma install_view_next [simp]:
  "sq_next_view ((sq_next_instance_queue T ^^ i) q) = sq_next_view q"
  by (induction i) (simp_all add: sq_next_instance_queue_def)

lemma sy_install_view_frame:
  "sy_install_view T A v s = Ok (s', b) \<Longrightarrow> \<exists>q. s' = s\<lparr>sy_tbo := q\<rparr> \<and> sq_next_view q = sq_next_view (sy_tbo s)"
  by (rule exI [of _ "sy_tbo s'"])
    (auto simp: sy_install_view_def sq_install_view_def res_map_def split: sum.splits if_splits)

lemma idle_tbo_inv:
  "sync_inv A h s \<Longrightarrow> sy_stopped s = [] \<Longrightarrow> sq_next_view q = sq_next_view (sy_tbo s) \<Longrightarrow> sync_inv A h' (s\<lparr>sy_tbo := q\<rparr>)"
  by (auto simp: sync_inv_def stops_ok_def cong: ProtoPhase.case_cong)

lemma received_view_after_previous_inv:
  assumes inv: "sync_inv A h s" "sy_stopped s = []" and eq: "received_view_after_previous T A v s = Ok (s', b)"
  shows "sync_inv A h' s'"
proof -
  have "(\<exists>p. s' = install_next_view v (s\<lparr>sy_phase := p\<rparr>) \<and> (p = StoppingData 0 \<or> p = Syncing)) \<or>
      (\<exists>q. s' = s\<lparr>sy_tbo := q\<rparr> \<and> sq_next_view q = sq_next_view (sy_tbo s))"
    using eq sy_install_view_frame [of T A v s]
    by (auto simp: received_view_after_previous_def res_bind_def res_map_def split: res.splits if_splits)
  then show ?thesis
    using inv idle_tbo_inv [OF inv] by (auto simp: install_next_view_def sq_install_next_view_def sync_inv_def stops_ok_def)
qed

lemma received_view_inv:
  assumes inv: "sync_inv A h s" "sy_stopped s = []"
    and eq: "received_view_from_state_transfer T A v s = (Ok (s', b) :: (_, unit) res)"
  shows "sync_inv A h' s'"
proof -
  have init: "sync_inv A h' (t\<lparr>sy_phase := Init\<rparr>)" "sync_inv A h' t" "sy_stopped t = []"
    if t: "sy_install_view T A w s = (Ok (t, i) :: (_, unit) res)" for w t i
    using sy_install_view_frame [OF t] inv idle_tbo_inv [OF inv] by (auto simp: sync_inv_def stops_ok_def)
  consider pv t i where "sy_install_view T A pv s = (Ok (t, i) :: (_, unit) res)"
      "received_view_after_previous T A v (if \<not> i then t\<lparr>sy_phase := Init\<rparr> else t) = (Ok (s', b) :: (_, unit) res)"
    | "received_view_after_previous T A v s = (Ok (s', b) :: (_, unit) res)"
    | t i where "sy_install_view T A v s = (Ok (t, i) :: (_, unit) res)" "s' = (if \<not> i then t\<lparr>sy_phase := Init\<rparr> else t)"
    using eq by (auto simp: received_view_from_state_transfer_def res_bind_def res_map_def
        split: res.splits option.splits if_splits)
  then show ?thesis
  proof cases
    case 1
    then show ?thesis using init [OF 1(1)] by (intro received_view_after_previous_inv [OF _ _ 1(2)]) auto
  next
    case 2
    then show ?thesis by (rule received_view_after_previous_inv [OF inv])
  next
    case 3
    then show ?thesis using init [OF 3(1)] by simp
  qed
qed

lemma extract_msg_frame:
  "extract_msg E qs put q = (q', r) \<Longrightarrow> put = put_stop \<or> put = put_stop_data \<or> put = put_sync \<Longrightarrow>
   sq_view q' = sq_view q \<and> sq_next_view q' = sq_next_view q"
  by (auto simp: extract_msg_def put_stop_def put_stop_data_def put_sync_def split: option.splits)

lemma phase_after_poll_cases:
  "phase_after_poll r = Ok p \<Longrightarrow> p = Init \<or> p = Stopping 0 \<or> p = ViewStopping 0"
  by (auto simp: phase_after_poll_def res_map_def split: SynchronizerPollStatus.splits res.splits ViewChangeMessageKind.splits)

lemma sy_poll_inv:
  assumes inv: "sync_inv A h s" and eq: "sy_poll E s = Ok (s', r)"
  shows "sync_inv A h s'"
proof (cases "sq_get_queue (sy_tbo s)")
  case True
  have keep: "sync_inv A h (s\<lparr>sy_tbo := q\<rparr>)"
    if "extract_msg E qs put (sy_tbo s) = (q, r)" "put = put_stop \<or> put = put_stop_data \<or> put = put_sync" for qs put q r
    using extract_msg_frame [OF that] sync_inv_tbo [OF inv, of q "[]"] by simp
  show ?thesis
  proof (cases "sy_phase s")
    case Init
    obtain q x where x: "extract_msg E (sq_stop (sy_tbo s)) put_stop (sy_tbo s) = (q, x)" by fastforce
    then obtain p where p: "s' = s\<lparr>sy_tbo := q, sy_phase := p\<rparr>" "p = Init \<or> p = Stopping 0 \<or> p = ViewStopping 0"
      using eq True Init phase_after_poll_cases by (auto simp: sy_poll_def Let_def res_map_def split: res.splits)
    have "sy_stopped s = []" using inv Init by (simp add: sync_inv_def stops_ok_def)
    then show ?thesis using inv p by (intro idle_phase_inv [OF inv]) auto
  next
    case SyncingState
    then show ?thesis using eq True inv by (simp add: sy_poll_def)
  qed (use eq True keep in \<open>auto simp: sy_poll_def Let_def split: prod.splits\<close>)
next
  case False
  then show ?thesis using eq inv by (simp add: sy_poll_def)
qed


lemma timed_out_inv:
  assumes inv: "sync_inv A h s" and eq: "begin_view_change E A (Some rqs) s = (s', es)"
  shows "sync_inv A h s'"
proof -
  have idle: "sy_stopped s = []" if "\<forall>i. sy_phase s \<noteq> Stopping i \<and> sy_phase s \<noteq> Stopping2 i"
    using that inv by (intro stops_ok_idle) (auto simp: sync_inv_def split: ProtoPhase.splits)
  show ?thesis
    using eq inv idle
    by (cases "sy_phase s")
      (auto simp: begin_view_change_def Let_def clear_view_change_def sync_inv_def stops_ok_def image_subset_iff dest: bspec)
qed

lemma join_started_inv:
  assumes inv: "sync_inv A h s" and eq: "start_join_quorum E A n s = (s', es, r)"
  shows "sync_inv A h s'"
  using eq inv
  by (cases "sy_phase s")
    (auto simp: start_join_quorum_def begin_quorum_view_change_def Let_def clear_view_change_def sync_inv_def
      stops_ok_def split: if_splits)

lemma joining_inv:
  assumes inv: "sync_inv A h s" "sy_stopped s = []" and eq: "attempt_join_quorum E A s = Ok (s', r)"
  shows "sync_inv A h s'"
  using eq inv
  by (auto simp: attempt_join_quorum_def res_bind_def res_map_def install_next_view_def sq_install_next_view_def
      sync_inv_def stops_ok_def split: if_splits res.splits)

lemma sync_step_inv: "sync_step A cx ms cx' \<Longrightarrow> sync_inv A h (cx_sync cx) \<Longrightarrow> sync_inv A (h @ ms) (cx_sync cx')"
proof (induction rule: sync_step.induct)
  case (processed E m cx cx' es st)
  then show ?case by (blast intro: processed_inv)
next
  case (polled E cx s r)
  then show ?case by (simp add: sy_poll_inv)
next
  case (queued T m cx s)
  then obtain q where "s = (cx_sync cx)\<lparr>sy_tbo := q\<rparr>" "sq_view q = sy_view (cx_sync cx)"
      "sq_next_view q = sq_next_view (sy_tbo (cx_sync cx))"
    by (auto simp: sy_queue_def sq_queue_def res_map_def split: res.splits ViewChangeMessageKind.splits)
  then show ?case using sync_inv_tbo [OF queued(2), of q "[]"] by simp
next
  case (signalled cx)
  then show ?case using sync_inv_tbo [OF signalled, of _ "[]"] by (simp add: sy_signal_def sq_signal_def)
next
  case (timed_out E rqs cx s es)
  then show ?case by (simp add: timed_out_inv)
next
  case (join_started E n cx s es r)
  then show ?case by (simp add: join_started_inv)
next
  case (resumed cx E cx' es st)
  then have "stops_ok (cx_sync cx)" "sy_stopped (cx_sync cx) = []"
    by (auto simp: sync_inv_def stops_ok_def)
  with resume_frame [OF resumed(2)] resumed(3) show ?case by (auto simp: sync_inv_def same_votes_def)
next
  case (joining cx E s r)
  then show ?case by (simp add: joining_inv)
next
  case (view_received cx T v s b)
  then show ?case by (simp add: received_view_inv)
next
  case (others cx l c)
  then show ?case by simp
qed


lemma sync_run_inv:
  assumes "sync_run A cx0 h cx" and "cx_sync cx0 = Synchronizer_new_replica node v t"
  shows "sync_inv A h (cx_sync cx)"
  using assms(1)
proof induction
  case start
  then show ?case
    by (simp add: assms(2) sync_inv_def stops_ok_def Synchronizer_new_replica_def new_synchronizer_def)
next
  case (step h cx ms cx')
  then show ?case using sync_step_inv by blast
qed

subsection \<open>Votes\<close>

lemma stop_senders_finite [simp]: "finite (stop_senders v h)"
proof -
  have "stop_senders v h \<subseteq> (\<lambda>m. hdr_from (hdr m)) ` set h" by (auto simp: stop_senders_def stop_from_def)
  then show ?thesis by (rule finite_subset) simp
qed

lemma stopped_voters:
  assumes "sync_inv A h s" and "hdr_from (hdr m) \<notin> fst ` set (sy_stopped s)"
    and "msg m = ViewChangeMsg (ViewChangeMessage (next_seq A (vi_seq (sy_view s))) (Stop rqs))"
  shows "Suc (length (sy_stopped s)) \<le> card (stop_senders (next_seq A (vi_seq (sy_view s))) (h @ [m]))"
proof -
  let ?S = "stop_senders (next_seq A (vi_seq (sy_view s))) (h @ [m])"
  have "insert (hdr_from (hdr m)) (fst ` set (sy_stopped s)) \<subseteq> ?S"
    using assms by (auto simp: sync_inv_def stop_senders_def stop_from_def)
  moreover have "card (insert (hdr_from (hdr m)) (fst ` set (sy_stopped s))) = Suc (length (sy_stopped s))"
    using assms(1,2) distinct_card [of "map fst (sy_stopped s)"] by (simp add: sync_inv_def stops_ok_def)
  ultimately show ?thesis using card_mono [OF stop_senders_finite] by metis
qed

lemma process_stopping_cases:
  assumes "process_stopping E A m message i cx = (cx', es, Ok st)"
  obtains "sy_phase (cx_sync cx') = sy_phase (cx_sync cx)" "es = []"
  | stopped where "message = ViewChangeMessage (next_seq A (vi_seq (sy_view (cx_sync cx)))) (Stop stopped)"
      "hdr_from (hdr m) \<notin> fst ` set (sy_stopped (cx_sync cx))"
      "count_stop E A (hdr m) stopped (i + 1) cx = (cx', es, Ok st)"
  using assms
  by (cases message; cases "vc_kind message")
    (auto simp: process_stopping_def Let_def queue_stop_data_then_def dest!: queue_then_frame
      split: if_splits SynchronizerAccessory.splits)

text \<open>
  C13. A replica that collects \<open>STOP\<close>s moves only with enough others. Whatever messages arrive
  while it is in \<open>Stopping\<close> or \<open>Stopping2\<close>, it answers them with its own \<open>STOP\<close> only
  if more than \<open>f\<close> different replicas have sent a \<open>STOP\<close> for the next view, and it leaves for the next view only if a
  quorum of different replicas has. Other ways to a view need no \<open>STOP\<close>s and are not meant here: a
  quorum join and a view received by state transfer. The runs considered are those in which these
  two happen only while no \<open>STOP\<close> is stored; \<open>received_view_keeps_stops\<close> shows that otherwise the
  \<open>STOP\<close>s of an earlier view go on counting.
\<close>

theorem stop_quorum_needed:
  assumes "sync_run A cx0 h cx" and "cx_sync cx0 = Synchronizer_new_replica node v t"
    and "sy_phase (cx_sync cx) = Stopping i \<or> sy_phase (cx_sync cx) = Stopping2 i"
    and "sy_process_message E A m cx = (cx', es, Ok st)"
  shows "let voters = stop_senders (next_seq A (vi_seq (sy_view (cx_sync cx)))) (h @ [m]) in
    (sy_phase (cx_sync cx) = Stopping i \<and> es \<noteq> [] \<longrightarrow> view_f (sy_view (cx_sync cx)) < card voters) \<and>
    (sy_phase (cx_sync cx') \<in> {StoppingData 0, Syncing} \<longrightarrow> view_quorum (sy_view (cx_sync cx)) \<le> card voters)"
proof -
  note inv = sync_run_inv [OF assms(1,2)]
  obtain message where m: "msg m = ViewChangeMsg message" "process_stopping E A m message i cx = (cx', es, Ok st)"
    using assms(3,4) by (auto simp: sy_process_message_def or_panic_def view_change_Ok split: res.splits)
  have len: "length (sy_stopped (cx_sync cx)) = i" using inv assms(3) by (auto simp: sync_inv_def stops_ok_def)
  from m(2) show ?thesis
  proof (cases rule: process_stopping_cases)
    case 1
    then show ?thesis using assms(3) by auto
  next
    case (2 stopped)
    have "Suc i \<le> card (stop_senders (next_seq A (vi_seq (sy_view (cx_sync cx)))) (h @ [m]))"
      using stopped_voters [OF inv 2(2)] m(1) 2(1) len by simp
    with 2(3) assms(3) show ?thesis
      by (auto simp: count_stop_def Let_def on_sync_def begin_view_change_def split: if_splits)
  qed
qed


subsection \<open>A quorum of \<open>STOP\<close>s suffices\<close>

lemma wl_deciding_Ok:
  assumes "wl_inv A w"
  shows "\<exists>ip. wl_deciding f w = (Ok ip :: (_, unit) res)"
proof -
  let ?ps = "rev (ml_prepares (wl_message_log w))"
  have ps: "list_all is_prepare_msg ?ps" using wl_inv_voters [OF assms] by simp
  obtain r where "quorum_prepares_loop ((2 * f) mod 2 ^ 64) None 0 ?ps = (Ok r :: (_, unit) res)"
    using quorum_prepares_loop_sound [OF ps] by blast
  then show ?thesis by (simp add: wl_deciding_def Let_def traverse_prepare_pair [OF ps])
qed

lemma collect_incomplete_proof_Ok:
  assumes "cs_inv A c"
  shows "\<exists>ip. collect_incomplete_proof f c = (Ok ip :: (_, unit) res)"
proof -
  note w = cs_invD(1-3) [OF assms]
  obtain d ds where ds: "cs_decisions c = d # ds" using w(2,3) by (cases "cs_decisions c") auto
  have "inst_ok A (cs_curr_view c) d" using window_inst [OF w(1), of 0] ds by simp
  then have "wl_inv A (dn_working_log d)" by (simp add: inst_ok_def dn_inv_def Let_def)
  then show ?thesis using ds by (simp add: collect_incomplete_proof_def dn_deciding_def wl_deciding_Ok)
qed

fun sy_feed :: "'o sync_env \<Rightarrow> atlas \<Rightarrow> 'o StoredConsensusMessage list \<Rightarrow> 'o sync_ctx
    \<Rightarrow> ('o sync_ctx \<times> 'o sync_effect list) option" where
  \<comment> \<open>processing messages one after the other, with what is handed out; none if one fails\<close>
  "sy_feed E A [] cx = Some (cx, [])"
| "sy_feed E A (m # ms) cx =
     (case sy_process_message E A m cx of
        (cx, es, Ok _) \<Rightarrow> map_option (\<lambda>(cx, es'). (cx, es @ es')) (sy_feed E A ms cx)
      | _ \<Rightarrow> None)"

definition is_stop_for :: "SeqNo \<Rightarrow> 'o StoredConsensusMessage \<Rightarrow> bool" where
  "is_stop_for view m \<longleftrightarrow> stop_from view (hdr_from (hdr m)) m"

definition move_to :: "'o sync_env \<Rightarrow> atlas \<Rightarrow> ViewInfo \<Rightarrow> 'o sync_ctx \<Rightarrow> 'o sync_effect list \<Rightarrow> bool" where
  \<comment> \<open>the next view is installed, its leader waits for \<open>STOP-DATA\<close> and is sent ours\<close>
  "move_to E A nv cx es \<longleftrightarrow>
     (\<exists>l collect. leader A nv = (Ok l :: (_, unit) res) \<and> sq_next_view (sy_tbo (cx_sync cx)) = Some nv \<and>
        sy_phase (cx_sync cx) = (if l = se_id E then StoppingData 0 else Syncing) \<and>
        SyncSendSigned (ViewChangeMsg (ViewChangeMessage (vi_seq nv) (StopData collect))) l \<in> set es)"

lemma enter_next_view_moves:
  assumes "wf_view nv" and "sy_accessory (cx_sync cx) = ReplicaAccessory t" and "se_process_stopped E"
    and "cs_inv A (cx_consensus cx)"
  shows "\<exists>cx' es. enter_next_view E A nv pv cx = (cx', es, Ok Running) \<and> move_to E A nv cx' es"
proof -
  obtain ip where "collect_incomplete_proof (view_f pv) (cx_consensus cx) = (Ok ip :: (_, unit) res)"
    using collect_incomplete_proof_Ok [OF assms(4)] by blast
  moreover obtain l where "leader A nv = (Ok l :: (_, unit) res)" using leader_wf [OF assms(1)] by blast
  ultimately show ?thesis
    using assms(2,3)
    by (auto simp: enter_next_view_def or_panic_def on_sync_def Let_def handle_stopping_quorum_def move_to_def
        take_stopped_requests_and_register_them_def drain_stopped_request_def install_next_view_def
        sq_install_next_view_def)
qed

lemma stop_counts:
  assumes "is_stop_for (next_seq A (vi_seq (sy_view (cx_sync cx)))) m" and "sy_phase (cx_sync cx) = Stopping2 i"
    and "hdr_from (hdr m) \<notin> fst ` set (sy_stopped (cx_sync cx))"
  shows "\<exists>rqs. sy_process_message E A m cx = count_stop E A (hdr m) rqs (i + 1) cx"
  using assms
  by (auto simp: is_stop_for_def stop_from_def sy_process_message_def or_panic_def view_change_def process_stopping_def Let_def)

lemma feed_stops:
  assumes "wf_view v" and "sy_view (cx_sync cx) = v" and "next_view A v = (Ok nv :: (_, unit) res)" and "wf_view nv"
    and "sy_accessory (cx_sync cx) = ReplicaAccessory t" and "se_process_stopped E" and "cs_inv A (cx_consensus cx)"
    and "sy_phase (cx_sync cx) = Stopping2 i" and "ms \<noteq> []" and "i + length ms = view_quorum v"
    and "list_all (is_stop_for (next_seq A (vi_seq v))) ms" and "distinct (map (\<lambda>m. hdr_from (hdr m)) ms)"
    and "(\<lambda>m. hdr_from (hdr m)) ` set ms \<inter> fst ` set (sy_stopped (cx_sync cx)) = {}"
  shows "\<exists>cx' es. sy_feed E A ms cx = Some (cx', es) \<and> move_to E A nv cx' es"
  using assms
proof (induction ms arbitrary: cx i)
  case (Cons m ms)
  obtain rqs where p: "sy_process_message E A m cx = count_stop E A (hdr m) rqs (i + 1) cx"
    using stop_counts [of A cx m i E] Cons.prems by auto
  let ?cx = "cx\<lparr>cx_sync := (cx_sync cx)\<lparr>sy_stopped := AList.update (hdr_from (hdr m)) rqs (sy_stopped (cx_sync cx))\<rparr>\<rparr>"
  show ?case
  proof (cases "ms = []")
    case True
    then have "count_stop E A (hdr m) rqs (i + 1) cx = enter_next_view E A nv v ?cx"
      using Cons.prems(2,3,8,10) by (simp add: count_stop_def Let_def on_sync_def or_panic_def)
    moreover obtain cx' es where "enter_next_view E A nv v ?cx = (cx', es, Ok Running)" "move_to E A nv cx' es"
      using enter_next_view_moves [of nv ?cx t E A v] Cons.prems by auto
    ultimately show ?thesis using True p by simp
  next
    case False
    let ?cx' = "?cx\<lparr>cx_sync := set_phase (Stopping2 (i + 1)) (cx_sync ?cx)\<rparr>"
    have "i + 1 < view_quorum v" using Cons.prems(10) False by (cases ms) simp_all
    then have "\<not> view_quorum v \<le> i + 1" by simp
    then have c: "count_stop E A (hdr m) rqs (i + 1) cx = (?cx', [], Ok Running)"
      using Cons.prems(2,8) by (simp add: count_stop_def Let_def on_sync_def)
    have "\<exists>cx' es. sy_feed E A ms ?cx' = Some (cx', es) \<and> move_to E A nv cx' es"
      using Cons.prems False by (intro Cons.IH [of _ "i + 1"]) (auto simp: set_phase_def update_new)
    then show ?thesis using p c by auto
  qed
qed simp


text \<open>
  C14. A quorum of \<open>STOP\<close>s suffices. When a replica that has stopped its view, with \<open>i\<close> \<open>STOP\<close>s
  stored, processes \<open>STOP\<close>s for the next view of as many further different replicas as are
  missing to a quorum, every one of them is processed without a panic, and afterwards the next
  view is the one being installed, the replica has sent its \<open>STOP-DATA\<close> to the leader of that view, and
  it waits for \<open>STOP-DATA\<close> if it is that leader and for the \<open>SYNC\<close> message otherwise.
\<close>

theorem stop_quorum_suffices:
  assumes "sync_run A cx0 h cx" and "cx_sync cx0 = Synchronizer_new_replica node v0 t"
    and "params_laws A" and "targets_law A" and "wf_view v" and "view_n v < 2 ^ 32"
    and "sy_view (cx_sync cx) = v" and "se_process_stopped E" and "cs_inv A (cx_consensus cx)"
    and "sy_phase (cx_sync cx) = Stopping2 i" and "ms \<noteq> []" and "i + length ms = view_quorum v"
    and "list_all (is_stop_for (next_seq A (vi_seq v))) ms" and "distinct (map (\<lambda>m. hdr_from (hdr m)) ms)"
    and "(\<lambda>m. hdr_from (hdr m)) ` set ms \<inter> fst ` set (sy_stopped (cx_sync cx)) = {}"
  shows "\<exists>nv cx' es. next_view A v = (Ok nv :: (_, unit) res) \<and> sy_feed E A ms cx = Some (cx', es) \<and> move_to E A nv cx' es"
proof -
  have "3 * view_f v + 1 \<le> view_n v" using assms(5) by (simp add: wf_view_def)
  then obtain nv where nv: "ViewInfo_new A (next_seq A (vi_seq v)) (view_n v) (view_f v) = Ok nv" "wf_view nv"
    using ViewInfo_new_cases [OF assms(3,4,6)] by metis
  then have "next_view A v = (Ok nv :: (_, unit) res)" by (simp add: next_view_def)
  moreover obtain t' where "sy_accessory (cx_sync cx) = ReplicaAccessory t'"
    using sync_run_inv [OF assms(1,2)] by (cases "sy_accessory (cx_sync cx)") (auto simp: sync_inv_def)
  ultimately show ?thesis
    using feed_stops [OF assms(5,7) _ nv(2) _ assms(8-15)] by blast
qed


subsection \<open>The replicas repeat the leader's computation\<close>

lemma highest_proof_quorum:
  fixes cs :: "'o StoredConsensusMessage list"
  assumes "view_quorum v = view_quorum w"
  shows "highest_proof S v cs = highest_proof S w cs"
proof -
  have "supported_proof S v = (supported_proof S w :: 'o Proof \<Rightarrow> bool)" using assms by (simp add: fun_eq_iff supported_proof_def)
  then show ?thesis by (simp add: highest_proof_eq)
qed

lemma signed_collects_all: "list_all (validate_signature S) cs \<Longrightarrow> signed_collects S cs = cs"
  by (simp add: signed_collects_def list_all_iff filter_id_conv)

definition is_stop_data :: "'o StoredConsensusMessage \<Rightarrow> bool" where
  "is_stop_data m \<longleftrightarrow> (\<exists>v c. msg m = ViewChangeMsg (ViewChangeMessage v (StopData c)))"

lemma collect_data_stop_data:
  assumes "list_all is_stop_data cs"
  shows "collect_data cs = Ok (collected cs)" "length (collected cs) = length cs"
proof -
  show "collect_data cs = Ok (collected cs)"
    using assms by (auto simp: collect_data_eq list_all_iff is_stop_data_def)
  show "length (collected cs) = length cs"
    using assms by (induction cs) (auto simp: collected_def is_stop_data_def)
qed

text \<open>
  C15. The replicas repeat the leader's computation. Let the collects of the leader's \<open>SYNC\<close>
  message be \<open>STOP-DATA\<close> of exactly a quorum of the new view, with valid signatures. The leader looks for the
  highest proof with the view it leaves, the replica with the view it enters. Whatever the order in
  which each of them iterates its hash sets, the replica derives the same instance to decide next, the same soundness and the same
  proof as the leader exactly if both views give the same highest proof. They do whenever both views have quorums of the same
  size, as in a view change without a quorum join.
\<close>

theorem sync_repeats_leader:
  assumes "iter_laws (se_iter E)" and "iter_laws (se_iter E')" and "se_signatures E' = se_signatures E"
    and "list_all (validate_signature (se_signatures E)) (se_collects_values E collects)"
    and "list_all is_stop_data (se_collects_values E collects)"
    and "length (se_collects_values E collects) = view_quorum nv"
    and "\<And>p. p \<in> collected_proofs (se_collects_values E collects) \<Longrightarrow>
      seq_of_u32 A (u32_succ A (Proof_sequence_number p)) = next_seq A (Proof_sequence_number p)"
  shows "(replica_state E' A nv (se_collects_values E collects) = leader_state E A current_view nv collects \<longleftrightarrow>
      highest_proof (se_signatures E) nv (se_collects_values E collects) =
      (highest_proof (se_signatures E) current_view (se_collects_values E collects) :: (_, unit) res)) \<and>
    (view_quorum current_view = view_quorum nv \<longrightarrow>
      replica_state E' A nv (se_collects_values E collects) = leader_state E A current_view nv collects)"
proof -
  let ?S = "se_signatures E" and ?cs = "se_collects_values E collects"
  let ?d = "collected ?cs"
  note data = collect_data_stop_data [OF assms(5)]
  have sound: "sound (se_iter E') A nv (normalized_collects i ?d) = sound (se_iter E) A nv (normalized_collects i ?d)" for i
    using assms(1,2,6) data(2) by (intro sound_order) (simp_all add: normalized_collects_def)
  define out where "out p = (let cid = (case p of Some p \<Rightarrow> next_seq A (Proof_sequence_number p) | None \<Rightarrow> ZERO A)
    in (cid, sound (se_iter E) A nv (normalized_collects cid ?d), p))" for p :: "'a Proof option"
  have member: "p \<in> collected_proofs ?cs" if "max_by_key Proof_sequence_number
      (filter (supported_proof ?S v) (List.map_filter cd_last_proof ?d)) = Some p" for p v
    using max_by_key_Some [OF that] by (simp add: collected_proofs_def)
  have l: "leader_state E A current_view nv collects = res_map out (highest_proof ?S current_view ?cs)"
    unfolding leader_state_def Let_def data(1)
    using member assms(7) by (auto simp: highest_proof_eq out_def Let_def split: option.splits)
  have r: "replica_state E' A nv ?cs = res_map out (highest_proof ?S nv ?cs)"
    unfolding replica_state_def assms(3) Let_def signed_collects_all [OF assms(4)] data(1)
    by (auto simp: highest_proof_eq out_def Let_def sound split: option.splits)
  have "inj out" by (auto simp: inj_def out_def Let_def)
  then have "res_map out x = res_map out y \<longleftrightarrow> x = y" for x y :: "('a Proof option, unit) res"
    by (cases x; cases y) (auto simp: inj_eq)
  moreover have "view_quorum current_view = view_quorum nv \<Longrightarrow>
      highest_proof ?S nv ?cs = (highest_proof ?S current_view ?cs :: (_, unit) res)"
    by (rule highest_proof_quorum) simp
  ultimately show ?thesis using l r by simp
qed

end
