(* ===== verification/SyncLimits.thy ===== *)
theory SyncLimits
  imports SyncRuns
begin

text \<open>
  Behaviours of the view change in \<open>bft/sync/mod.rs\<close> that differ from what the protocol needs,
  each stated as a theorem about the model: one replica can bring another down with repeated
  \<open>STOP-QUORUM-JOIN\<close> messages, the value a view change is bound to is not enforced, and a view
  change that is resumed without a value to propose leaves the synchronizer in a phase in which
  every further view change message is a panic. A leader whose \<open>SYNC\<close> message proposes something
  else than a batch brings down every replica that is not behind, and a view installed by state transfer keeps the
  \<open>STOP\<close>s that were counted for the view before.
\<close>

subsection \<open>Repeated join messages\<close>

definition joins_from :: "NodeId \<Rightarrow> NodeId \<Rightarrow> 'o sync_ctx \<Rightarrow> nat \<Rightarrow> bool" where
  \<comment> \<open>\<open>k\<close> join messages have been counted, all of one sender for one node\<close>
  "joins_from x node cx k \<longleftrightarrow>
     (sy_phase (cx_sync cx) = ViewStopping k \<or> sy_phase (cx_sync cx) = ViewStopping2 k) \<and>
     sy_currently_adding (cx_sync cx) \<in> {[], [(node, [x])]}"

lemma add_vote_again:
  "adding \<in> {[], [(node, [x])]} \<Longrightarrow> add_vote node x adding = [(node, [x])]"
  by auto

lemma join_step:
  assumes v: "wf_view v" "0 < view_f v" and "sy_view (cx_sync cx) = v" and "joins_from (hdr_from (hdr m)) node cx k"
    and m: "msg m = ViewChangeMsg (ViewChangeMessage (next_seq A (vi_seq v)) (StopQuorumJoin node))"
  shows "if view_n v \<le> k + 1 then \<exists>cx' es. sy_process_message E A m cx = (cx', es, Panic)
    else \<exists>cx'. sy_process_message E A m cx = (cx', [], Ok Running) \<and> sy_view (cx_sync cx') = v \<and>
      joins_from (hdr_from (hdr m)) node cx' (k + 1)"
proof -
  have q: "view_quorum v = 2 * view_f v + 1" "view_quorum v \<le> view_n v" using v by (auto simp: wf_view_def)
  have "sy_process_message E A m cx = count_join E A (hdr m) node (k + 1) cx"
    using assms by (auto simp: sy_process_message_def or_panic_def view_change_def joins_from_def
        process_view_stopping_def Let_def)
  moreover have "add_vote node (hdr_from (hdr m)) (sy_currently_adding (cx_sync cx)) = [(node, [hdr_from (hdr m)])]"
    using assms(4) by (intro add_vote_again) (simp add: joins_from_def)
  ultimately show ?thesis
    using q v(2) assms(3) by (auto simp: count_join_def Let_def on_sync_def first_by_votes_def joins_from_def set_phase_def)
qed

lemma join_feed:
  assumes v: "wf_view v" "0 < view_f v" and "sy_view (cx_sync cx) = v" and "joins_from (hdr_from (hdr m)) node cx k"
    and m: "msg m = ViewChangeMsg (ViewChangeMessage (next_seq A (vi_seq v)) (StopQuorumJoin node))"
    and "view_n v = k + Suc j"
  shows "sy_feed E A (replicate (Suc j) m) cx = None"
  using assms(3,4,6)
proof (induction j arbitrary: cx k)
  case 0
  then show ?case using join_step [OF v 0(1,2) m, of E] by auto
next
  case (Suc j)
  then obtain cx' where "sy_process_message E A m cx = (cx', [], Ok Running)" "sy_view (cx_sync cx') = v"
      "joins_from (hdr_from (hdr m)) node cx' (k + 1)"
    using join_step [OF v Suc(2,3) m, of E] by auto
  then show ?case using Suc.IH [of cx' "k + 1"] Suc.prems(3) by simp
qed

text \<open>
  C37. Repeated join messages bring a replica down. A replica that has begun to collect
  \<open>STOP-QUORUM-JOIN\<close> messages for the next view, in a system that tolerates at least one fault,
  panics while it processes \<open>n\<close> copies of one such message of a single sender: the messages are
  counted without regard to their sender, and the case in which \<open>n\<close> of them give no node a quorum
  is not implemented.
\<close>

theorem repeated_joins_panic:
  assumes "wf_view v" and "0 < view_f v" and "sy_view (cx_sync cx) = v"
    and "sy_phase (cx_sync cx) = ViewStopping 0" and "sy_currently_adding (cx_sync cx) = []"
    and "msg m = ViewChangeMsg (ViewChangeMessage (next_seq A (vi_seq v)) (StopQuorumJoin node))"
  shows "sy_feed E A (replicate (view_n v) m) cx = None"
proof -
  obtain j where "view_n v = 0 + Suc j" using assms(1) by (cases "view_n v") (auto simp: wf_view_def)
  then show ?thesis
    using join_feed [OF assms(1-3) _ assms(6), of 0 j E] assms(4,5) by (simp add: joins_from_def)
qed

subsection \<open>Resuming without a value\<close>

definition no_value :: "'o FinalizeState \<Rightarrow> bool" where
  \<comment> \<open>the proposal is empty and the collects are not sound\<close>
  "no_value state \<longleftrightarrow> cm_kind (fwd_consensus_msg (fs_proposed state)) = PrePrepare [] \<and> \<not> sound_test (fs_sound state)"

text \<open>
  A view change that is resumed without a value never ends. If state transfer interrupted a view change
  whose proposal is empty and whose collects are not sound, resuming it hands back control with
  the synchronizer still waiting for state transfer but without the interrupted view change: it
  asks to be resumed again for ever without effect, and each view change message is a panic.
\<close>

theorem resumed_without_value_stuck:
  assumes "sy_phase (cx_sync cx) = SyncingState" and "sy_finalize_state (cx_sync cx) = Some state"
    and "no_value state" and "u32_of_seq A (ZERO A) = 0"
  shows "\<exists>cx'. resume_view_change E A cx = (cx', [], Ok (Some Running)) \<and>
    sy_phase (cx_sync cx') = SyncingState \<and>
    (\<forall>E'. resume_view_change E' A cx' = (cx', [], Ok None)) \<and>
    (\<forall>E' m. snd (snd (sy_process_message E' A m cx')) = Panic)"
  using assms
  by (auto simp: resume_view_change_def sy_finalize_view_change_def or_panic_def on_sync_def pre_finalize_def
      no_value_def Let_def sy_process_message_def split: res.splits)


subsection \<open>The bound value\<close>

definition behind :: "atlas \<Rightarrow> 'o Proof option \<Rightarrow> 'o Log \<Rightarrow> bool" where
  \<comment> \<open>more than one decision is missing\<close>
  "behind A p log \<longleftrightarrow>
     u32_succ A (case last_execution (lg_decided log) of Some s \<Rightarrow> s | None \<Rightarrow> ZERO A) <
     u32_of_seq A (case p of Some p \<Rightarrow> Proof_sequence_number p | None \<Rightarrow> ZERO A)"

lemma catch_up_sound: "catch_up E A v (st\<lparr>fs_sound := x\<rparr>) cx = catch_up E A v st cx"
  by (cases "fs_last_proof st") (simp_all add: catch_up_def Let_def)

lemma sy_finalize_sound: "sy_finalize E A (st\<lparr>fs_sound := x\<rparr>) cx = sy_finalize E A st cx"
  by (simp add: sy_finalize_def catch_up_sound)

text \<open>
  The value that \<open>sound\<close> binds a view change to is not enforced: what a replica that is not behind does with the
  leader's proposal of a non-empty batch depends on the collects only through the next instance
  and the highest proof, not on the value they bind.
\<close>

theorem bound_value_not_enforced:
  assumes "replica_state E A nv cs = Ok (cid, s, p)" and "replica_state E A nv cs' = Ok (cid, s', p)"
    and "cm_kind (fwd_consensus_msg prop) = PrePrepare rqs" and "rqs \<noteq> []" and "\<not> behind A p (cx_log cx)"
  shows "follow_view_change E A nv (LeaderCollects prop cs) cx = follow_view_change E A nv (LeaderCollects prop cs') cx"
proof -
  let ?st = "\<lparr>fs_curr_cid = cid, fs_sound = s, fs_proposed = prop, fs_last_proof = p\<rparr>"
  have "follow_view_change E A nv (LeaderCollects prop cs) cx = sy_finalize E A ?st cx"
    "follow_view_change E A nv (LeaderCollects prop cs') cx = sy_finalize E A (?st\<lparr>fs_sound := s'\<rparr>) cx"
    using assms by (simp_all add: follow_view_change_def or_panic_def sy_finalize_view_change_def pre_finalize_def
        behind_def Let_def)
  then show ?thesis by (simp only: sy_finalize_sound)
qed

text \<open>
  A leader whose \<open>SYNC\<close> message proposes a message that is not a \<open>PRE-PREPARE\<close> brings down every
  replica that waits for it and is not behind.
\<close>

theorem sync_without_batch_panics:
  assumes "sy_phase (cx_sync cx) = Syncing" and "sq_next_view (sy_tbo (cx_sync cx)) = Some nv"
    and "leader A nv = (Ok (hdr_from (hdr m)) :: (_, unit) res)"
    and "msg m = ViewChangeMsg (ViewChangeMessage (vi_seq nv) (Sync (LeaderCollects prop cs)))"
    and "cm_kind (fwd_consensus_msg prop) = Prepare d"
    and "\<And>cid s p. replica_state E A nv cs = Ok (cid, s, p) \<Longrightarrow> \<not> behind A p (cx_log cx)"
  shows "snd (snd (sy_process_message E A m cx)) = Panic"
  using assms
  by (cases "replica_state E A nv cs")
    (auto simp: sy_process_message_def or_panic_def view_change_def process_syncing_def follow_view_change_def
      sy_finalize_view_change_def pre_finalize_def behind_def Let_def)

text \<open>
  Installing a later view by state transfer while \<open>STOP\<close>s are counted keeps the phase and the stored
  \<open>STOP\<close>s, so that they count for the view after the installed one.
\<close>

theorem received_view_keeps_stops:
  assumes "previous_view A v = (Ok (Some pv) :: (_, unit) res)" and "vi_seq pv \<noteq> vi_seq (sy_view s)"
    and "sy_install_view T A pv s = (Ok (s1, True) :: (_, unit) res)" and "leader A v = (Ok l :: (_, unit) res)"
    and "\<not> sq_can_process_stop_data (sy_tbo s1)" and "\<not> sq_can_process_sync (sy_tbo s1)"
    and "received_view_from_state_transfer T A v s = (Ok (s', b) :: (_, unit) res)"
  shows "sy_phase s' = sy_phase s \<and> sy_stopped s' = sy_stopped s"
proof -
  obtain c where "sy_install_view T A v s1 = (Ok (s', c) :: (_, unit) res)"
    using assms by (auto simp: received_view_from_state_transfer_def received_view_after_previous_def
        res_map_def split: res.splits)
  then show ?thesis using sy_install_view_frame [OF assms(3)] by (auto dest: sy_install_view_frame)
qed


text \<open>
  An empty log counts as a log whose last decision is number zero. A replica that has executed
  nothing does not fetch decision zero from the highest proof of the collects, and if that proof
  is of decision one it executes decision one without decision zero.
\<close>

theorem empty_log_off_by_one:
  assumes "last_execution (lg_decided (cx_log cx)) = None" and "u32_of_seq A (ZERO A) = 0"
    and "fs_last_proof state = Some p"
  shows "u32_of_seq A (Proof_sequence_number p) = 0 \<longrightarrow> catch_up E A v state cx = (cx, [], Ok None)"
    and "u32_of_seq A (Proof_sequence_number p) = 1 \<longrightarrow>
      catch_up_to_quorum (se_tbo E) A v p (cx_log cx) (cx_consensus cx) = (c, log, es, Ok d) \<longrightarrow>
      catch_up E A v state cx = (cx\<lparr>cx_log := log, cx_consensus := c\<rparr>, map OfConsensus es, Ok (Some d))"
  using assms by (simp_all add: catch_up_def Let_def u32_succ_def)

end
