(* ===== verification/SyncExample.thy ===== *)
theory SyncExample
  imports SyncLimits
begin

text \<open>
  A concrete system of four replicas on which the theorems about the view change are applied:
  replica 2 times out, receives the \<open>STOP\<close>s of the others and moves to view 1, and the messages of
  the theories \<open>SyncRuns\<close> and \<open>SyncLimits\<close> are evaluated on its states.
\<close>

subsection \<open>A concrete view change\<close>

definition sync_sample :: "NodeId \<Rightarrow> nat sync_env" where
  "sync_sample me =
     \<lparr>se_id = me, se_tbo = sample_tbo,
      se_pop_message = (\<lambda>q. case q of (m # ms) # qs \<Rightarrow> Some (m, ms # qs) | _ \<Rightarrow> None),
      se_signatures = all_signed, se_iter = id_iter, se_collects_values = map snd, se_iter_stopped = (\<lambda>x. x),
      se_drain_requests = (\<lambda>x. x), se_drain_infos = (\<lambda>x. x), se_process_stopped = True, se_pending_rqs = Some [],
      se_serialize = (\<lambda>m. Some (m, [9])), se_wire_header = (\<lambda>from to d. Header from d d), se_nonces = (0, 0)\<rparr>"

definition quad_ctx :: "NodeId \<Rightarrow> nat sync_ctx" where
  "quad_ctx me =
     \<lparr>cx_sync = Synchronizer_new_replica me sample_view 10, cx_log = \<lparr>lg_decided = DecisionLog_init None\<rparr>,
      cx_consensus = Consensus_new_replica sample_atlas me sample_view 0 2 (ProposerConsensusGuard_new sample_view)\<rparr>"

definition stop_msg :: "NodeId \<Rightarrow> nat StoredConsensusMessage" where
  "stop_msg from = StoredMessage (Header from [] []) (ViewChangeMsg (ViewChangeMessage 1 (Stop [])))"

definition quad_begun :: "NodeId \<Rightarrow> nat sync_ctx" where
  "quad_begun me = (quad_ctx me)\<lparr>cx_sync := fst (begin_view_change (sync_sample me) sample_atlas (Some []) (cx_sync (quad_ctx me)))\<rparr>"

definition quad_step :: "NodeId \<Rightarrow> nat StoredConsensusMessage \<Rightarrow> nat sync_ctx \<Rightarrow> nat sync_ctx" where
  "quad_step me m cx = fst (sy_process_message (sync_sample me) sample_atlas m cx)"

definition quad_two :: "nat sync_ctx" where
  "quad_two = quad_step 2 (stop_msg 1) (quad_step 2 (stop_msg 0) (quad_begun 2))"

definition is_Ok :: "('a, 'e) res \<Rightarrow> bool" where
  "is_Ok r = (case r of Ok _ \<Rightarrow> True | _ \<Rightarrow> False)"

lemma processed_run:
  assumes "sync_run A cx0 h cx" and "is_Ok (snd (snd (sy_process_message E A m cx)))"
  shows "sync_run A cx0 (h @ [m]) (fst (sy_process_message E A m cx))"
proof -
  obtain cx' es st where "sy_process_message E A m cx = (cx', es, Ok st)"
    using assms(2) by (cases "sy_process_message E A m cx") (auto simp: is_Ok_def split: res.splits)
  then show ?thesis using sync_run.step [OF assms(1) sync_step.processed] by simp
qed

lemma quad_two_run: "sync_run sample_atlas (quad_ctx 2) [stop_msg 0, stop_msg 1] quad_two"
proof -
  have "sync_run sample_atlas (quad_ctx 2) ([] @ []) (quad_begun 2)"
    unfolding quad_begun_def by (rule sync_run.step [OF sync_run.start sync_step.timed_out]) (rule prod.collapse [symmetric])
  then have r0: "sync_run sample_atlas (quad_ctx 2) [] (quad_begun 2)" by simp
  have "is_Ok (snd (snd (sy_process_message (sync_sample 2) sample_atlas (stop_msg 0) (quad_begun 2))))" by code_simp
  note r1 = processed_run [OF r0 this, folded quad_step_def]
  have "is_Ok (snd (snd (sy_process_message (sync_sample 2) sample_atlas (stop_msg 1) (quad_step 2 (stop_msg 0) (quad_begun 2)))))"
    by code_simp
  from processed_run [OF r1 this, folded quad_step_def, folded quad_two_def] show ?thesis by simp
qed

lemma quad_ctx_new: "cx_sync (quad_ctx me) = Synchronizer_new_replica me sample_view 10"
  by (simp add: quad_ctx_def)


lemma quad_begun_eq:
  "quad_begun 2 = (quad_ctx 2)\<lparr>cx_sync := (cx_sync (quad_ctx 2))\<lparr>sy_phase := Stopping2 0\<rparr>\<rparr>"
  by (simp add: quad_begun_def quad_ctx_def Synchronizer_new_replica_def new_synchronizer_def begin_view_change_def
      clear_view_change_def set_phase_def)

lemma quad_step_stop:
  assumes "sy_phase (cx_sync cx) = Stopping2 i" and "i < 2" and "sy_view (cx_sync cx) = sample_view"
    and "n \<notin> fst ` set (sy_stopped (cx_sync cx))"
  shows "quad_step 2 (stop_msg n) cx = cx\<lparr>cx_sync := (cx_sync cx)\<lparr>sy_stopped := sy_stopped (cx_sync cx) @ [(n, [])],
      sy_phase := Stopping2 (i + 1)\<rparr>\<rparr>"
  using assms
  by (simp add: quad_step_def stop_msg_def sy_process_message_def or_panic_def view_change_def process_stopping_def
      count_stop_def Let_def on_sync_def update_new set_phase_def)

lemma quad_two_eq:
  "quad_two = (quad_ctx 2)\<lparr>cx_sync := (cx_sync (quad_ctx 2))\<lparr>sy_stopped := [(0, []), (1, [])], sy_phase := Stopping2 2\<rparr>\<rparr>"
  unfolding quad_two_def quad_begun_eq
  by (subst quad_step_stop | simp add: quad_ctx_def Synchronizer_new_replica_def new_synchronizer_def SyncTboQueue_new_def)+


lemma quad_consensus: "cs_inv sample_atlas (cx_consensus (quad_ctx n))"
  unfolding quad_ctx_def
  by (simp, rule new_replica_inv [of sample_atlas 100 2]) (simp_all add: sample_seq_linear guard_ok_ops)

lemma quad_ctx_fields [simp]:
  "sy_view (cx_sync (quad_ctx n)) = sample_view" "sy_accessory (cx_sync (quad_ctx n)) = ReplicaAccessory 10"
  "sy_stopped (cx_sync (quad_ctx n)) = []" "se_process_stopped (sync_sample n)"
  "sy_currently_adding (cx_sync (quad_ctx n)) = []"
  by (simp_all add: quad_ctx_def Synchronizer_new_replica_def new_synchronizer_def SyncTboQueue_new_def sync_sample_def)

lemma stop_msg_for: "is_stop_for (Suc 0) (stop_msg n)" "hdr_from (hdr (stop_msg n)) = n"
  by (simp_all add: is_stop_for_def stop_from_def stop_msg_def)

lemma quad_third_stop:
  "\<exists>cx es st. sy_process_message (sync_sample 2) sample_atlas (stop_msg 3) quad_two = (cx, es, Ok st) \<and>
     sy_phase (cx_sync cx) \<in> {StoppingData 0, Syncing}"
proof -
  obtain nv where nv: "next_view sample_atlas sample_view = (Ok nv :: (_, unit) res)" "wf_view nv"
    using ViewInfo_new_cases [of sample_atlas 4 1 1] by (auto simp: next_view_def)
  have "\<exists>cx es. sy_feed (sync_sample 2) sample_atlas [stop_msg 3] quad_two = Some (cx, es) \<and>
      move_to (sync_sample 2) sample_atlas nv cx es"
    using nv quad_consensus by (intro feed_stops [where v = sample_view and i = 2 and t = 10])
      (simp_all add: quad_two_eq stop_msg_for)
  then show ?thesis by (auto simp: move_to_def split: prod.splits res.splits if_splits)
qed

theorem stop_quorum_needed_witness:
  "\<exists>cx es st. sy_process_message (sync_sample 2) sample_atlas (stop_msg 3) quad_two = (cx, es, Ok st) \<and>
   sy_phase (cx_sync cx) \<in> {StoppingData 0, Syncing} \<and>
   3 \<le> card (stop_senders 1 [stop_msg 0, stop_msg 1, stop_msg 3])"
proof -
  obtain cx es st where cx: "sy_process_message (sync_sample 2) sample_atlas (stop_msg 3) quad_two = (cx, es, Ok st)"
    "sy_phase (cx_sync cx) \<in> {StoppingData 0, Syncing}" using quad_third_stop by blast
  then show ?thesis
    using stop_quorum_needed [OF quad_two_run quad_ctx_new _ cx(1), of 2] by (simp add: Let_def quad_two_eq)
qed

theorem stop_quorum_suffices_witness:
  "\<exists>nv cx es. next_view sample_atlas sample_view = (Ok nv :: (_, unit) res) \<and>
     sy_feed (sync_sample 2) sample_atlas [stop_msg 3] quad_two = Some (cx, es) \<and> move_to (sync_sample 2) sample_atlas nv cx es"
  by (rule stop_quorum_suffices [OF quad_two_run quad_ctx_new, where i = 2])
    (simp_all add: quad_two_eq stop_msg_for quad_consensus)

definition bound_collect :: "nat CollectData" where
  \<comment> \<open>the digest \<open>[8]\<close> is prepared for instance 0 in view 0\<close>
  "bound_collect = CollectData (IncompleteProof 0 (PrepareSet [ViewDecisionPair 0 [8], ViewDecisionPair 0 [8]])
     (Some (ViewDecisionPair 0 [8]))) None"

definition bound_collects :: "(NodeId \<times> nat StoredConsensusMessage) list" where
  "bound_collects = map (\<lambda>n. (n, stop_data_msg 1 n bound_collect)) [0, 1, 3]"

lemma bound_collects_simps:
  "map snd bound_collects = [stop_data_msg 1 0 bound_collect, stop_data_msg 1 1 bound_collect, stop_data_msg 1 3 bound_collect]"
  by (simp add: bound_collects_def)

theorem sync_repeats_leader_witness:
  "\<exists>nv. next_view sample_atlas sample_view = (Ok nv :: (_, unit) res) \<and>
     replica_state (sync_sample 2) sample_atlas nv (map snd bound_collects) =
     leader_state (sync_sample 1) sample_atlas sample_view nv bound_collects"
proof -
  obtain nv where nv: "next_view sample_atlas sample_view = (Ok nv :: (_, unit) res)" "view_quorum nv = 3"
    using ViewInfo_new_cases [of sample_atlas 4 1 1] by (auto simp: next_view_def wf_view_def)
  have "collected_proofs (map snd bound_collects) = {}"
    by (simp add: collected_proofs_def collected_def bound_collects_simps stop_data_msg_def bound_collect_def)
  then have "replica_state (sync_sample 2) sample_atlas nv (map snd bound_collects) =
      leader_state (sync_sample 1) sample_atlas sample_view nv bound_collects"
    using nv(2) sync_repeats_leader [of "sync_sample 1" "sync_sample 2" bound_collects nv sample_atlas sample_view]
    by (simp add: sync_sample_def id_iter_laws bound_collects_simps is_stop_data_def stop_data_msg_def
        validate_signature_def all_signed_def)
  with nv(1) show ?thesis by blast
qed

text \<open>
  When a node joins and the quorums grow, leader and replicas disagree. Five replicas report the proof of
  instance 5 with the votes of three replicas, which is a quorum of the six members of the view that is left but
  not of the seven of the next one: the leader goes on with instance 6, the replicas with instance 0.
\<close>

definition joined_proof :: "nat Proof" where
  "joined_proof = Proof (ProofMetadata 5 [7] [[7]] 0) [] (map sample_prepare [0, 1, 2]) (map sample_commit [0, 1, 2])"

definition joined_collects :: "(NodeId \<times> nat StoredConsensusMessage) list" where
  "joined_collects = map (\<lambda>n. (n, stop_data_msg 1 n (CollectData (IncompleteProof 6 (PrepareSet []) None) (Some joined_proof)))) [0, 1, 2, 3, 4]"

definition next_instance_of :: "(SeqNo \<times> Sound \<times> nat Proof option, unit) res \<Rightarrow> SeqNo option" where
  "next_instance_of r = (case r of Ok (n, _, _) \<Rightarrow> Some n | _ \<Rightarrow> None)"

lemma joined_proof_supported: "supported_proof all_signed v joined_proof \<longleftrightarrow> view_quorum v \<le> 3"
  by (simp add: supported_proof_def joined_proof_def signed_vote_def sample_prepare_def sample_commit_def
      has_proposed_digest_def validate_signature_def all_signed_def numeral_eq_Suc)

lemma joined_collects_highest:
  "highest_proof all_signed v (map snd joined_collects) =
     (Ok (if view_quorum v \<le> 3 then Some joined_proof else None) :: (_, unit) res)"
proof -
  have c: "collected (map snd joined_collects) =
      replicate 5 (CollectData (IncompleteProof 6 (PrepareSet []) None) (Some joined_proof))"
    by (simp add: collected_def joined_collects_def stop_data_msg_def numeral_eq_Suc)
  then have "collected_proofs (map snd joined_collects) = {joined_proof}"
    by (simp add: collected_proofs_def numeral_eq_Suc)
  then have "readable (map snd joined_collects)"
    by (auto simp: readable_def joined_collects_def stop_data_msg_def joined_proof_def sample_prepare_def
        sample_commit_def is_consensus_def)
  then show ?thesis by (simp add: highest_proof_eq c joined_proof_supported numeral_eq_Suc)
qed

lemma join_leader_differs:
  "\<exists>v nv. from_quorum sample_atlas 0 [0, 1, 2, 3, 4, 5] = Ok v \<and>
     next_view_with_new_node sample_atlas v 6 = (Ok nv :: (_, unit) res) \<and>
     next_instance_of (leader_state (sync_sample 1) sample_atlas v nv joined_collects) = Some 6 \<and>
     next_instance_of (replica_state (sync_sample 2) sample_atlas nv (map snd joined_collects)) = Some 0"
proof -
  obtain v where v: "from_quorum sample_atlas 0 [0, 1, 2, 3, 4, 5] = Ok v" "vi_seq v = 0"
    "vi_quorum_members v = [0, 1, 2, 3, 4, 5]" "view_quorum v = 3"
    using from_quorum_wf [of sample_atlas "[0, 1, 2, 3, 4, 5]" 0] by (auto simp: wf_view_def)
  obtain nv where nv: "from_quorum sample_atlas 1 [0, 1, 2, 3, 4, 5, 6] = Ok nv" "view_quorum nv = 5"
    using from_quorum_wf [of sample_atlas "[0, 1, 2, 3, 4, 5, 6]" 1] by (auto simp: wf_view_def)
  have data: "collect_data (map snd joined_collects) = (Ok (collected (map snd joined_collects)) :: (_, unit) res)"
    by (rule collect_data_stop_data) (simp add: joined_collects_def stop_data_msg_def is_stop_data_def)
  have all: "signed_collects all_signed cs = cs" for cs :: "nat StoredConsensusMessage list"
    by (simp add: signed_collects_def validate_signature_def all_signed_def)
  have "next_view_with_new_node sample_atlas v 6 = (Ok nv :: (_, unit) res)"
    using v nv by (simp add: next_view_with_new_node_def)
  moreover have "next_instance_of (leader_state (sync_sample 1) sample_atlas v nv joined_collects) = Some 6"
    by (simp add: leader_state_def sync_sample_def joined_collects_highest v(4) data next_instance_of_def)
      (simp add: joined_proof_def Proof_sequence_number_def Let_def u32_succ_def)
  moreover have "next_instance_of (replica_state (sync_sample 2) sample_atlas nv (map snd joined_collects)) = Some 0"
    by (simp add: replica_state_def sync_sample_def all joined_collects_highest nv(2) data next_instance_of_def)
  ultimately show ?thesis using v(1) by blast
qed

theorem repeated_joins_panic_witness:
  "sy_feed (sync_sample 2) sample_atlas
     (replicate 4 (StoredMessage (Header 3 [] []) (ViewChangeMsg (ViewChangeMessage 1 (StopQuorumJoin 9)))))
     ((quad_ctx 2)\<lparr>cx_sync := (cx_sync (quad_ctx 2))\<lparr>sy_phase := ViewStopping 0\<rparr>\<rparr>) = None"
  using repeated_joins_panic [of sample_view "(quad_ctx 2)\<lparr>cx_sync := (cx_sync (quad_ctx 2))\<lparr>sy_phase := ViewStopping 0\<rparr>\<rparr>"
      "StoredMessage (Header 3 [] []) (ViewChangeMsg (ViewChangeMessage 1 (StopQuorumJoin 9)))" sample_atlas 9]
  by simp

definition empty_proposal :: "nat FinalizeState" where
  "empty_proposal = \<lparr>fs_curr_cid = 0, fs_sound = Unbound False,
     fs_proposed = FwdConsensusMessage (Header 1 [9] [9]) (ConsensusMessage 0 1 0 (PrePrepare [])), fs_last_proof = None\<rparr>"

definition interrupted :: "nat sync_ctx" where
  "interrupted = (quad_ctx 2)\<lparr>cx_sync := (cx_sync (quad_ctx 2))\<lparr>sy_phase := SyncingState,
     sy_finalize_state := Some empty_proposal\<rparr>\<rparr>"

theorem resumed_without_value_stuck_witness:
  "\<exists>cx. resume_view_change (sync_sample 2) sample_atlas interrupted = (cx, [], Ok (Some Running)) \<and>
     snd (snd (sy_process_message (sync_sample 2) sample_atlas (stop_msg 3) cx)) = Panic"
  using resumed_without_value_stuck [of interrupted empty_proposal sample_atlas "sync_sample 2"]
  by (auto simp: interrupted_def empty_proposal_def no_value_def sound_test_def)

end
