(* ===== verification/OrderProtocol.thy ===== *)
theory OrderProtocol
  imports Synchronizer ConsensusSafety
begin

text \<open>
  The ordering protocol that puts the parts together: \<open>PBFTOrderProtocol\<close> of \<open>bft/mod.rs\<close>. It is
  in the normal phase or in the synchronisation phase, gives each message to the consensus
  handler or to the synchronizer, finalizes decided instances, merges what is handed to the
  executor by sequence number, and locks the proposer while the view changes.

  The state is the phase and the three components, which are the \<open>sync_ctx\<close> of the synchronizer.
  The proposer's guard is shared with the consensus handler and is the one in its state; the
  proposer itself is another thread. A \<open>Decision\<close> belongs to \<open>atlas_core\<close>: joining two of them and
  completing one are the fields \<open>oe_merge\<close> and \<open>oe_append\<close> of the parameter \<open>order_env\<close>, which also
  has the answer of the request pre-processor. \<open>BTreeMap\<close> is an association list in ascending
  order. Errors are the values of \<open>op_error\<close>.

  The loop of \<open>finalize_all_possible\<close> ends because every round takes one decided instance out of the
  window. The loop of \<open>poll_normal_phase\<close> need not end, so it is a partial function: none is a
  call that does not return.
\<close>

datatype ConsensusPhase = NormalPhase | SyncPhase

datatype 'o SyncPhaseRes =
  SyncProtocolNotNeeded | RunSyncProtocol
| SyncProtocolFinished "'o ConsensusStatus" "'o FeDecision option"
| JoinedQuorum "'o ConsensusStatus" "'o FeDecision option" NodeId
| RunCSTProtocol

datatype DecisionsAhead = Ignore | ClearAhead

datatype JoinInfo = JoinInfo NodeId "NodeId list"

datatype 'o OPExecResult =
  MessageDropped | MessageQueued | MessageProcessedNoUpdate
| ProgressedDecision DecisionsAhead "'o FeDecision list"
| QuorumJoined DecisionsAhead "'o FeDecision list option" JoinInfo
| ExecRunCst

datatype 'o OPPollResult =
  ReceiveMsg | Exec "'o StoredConsensusMessage" | RePoll
| PollProgressedDecision DecisionsAhead "'o FeDecision list"
| PollQuorumJoined DecisionsAhead "'o FeDecision list option" JoinInfo
| PollRunCst

datatype op_error =
  OfDecidingLog DecidingLogError | OfDecision DecisionError | OfView ViewError | MergeFailed | PendingRqsFailed

record 'o PBFTOrderProtocol =
  op_phase :: ConsensusPhase
  op_ctx :: "'o sync_ctx"

record 'o order_env =
  oe_sync :: "'o sync_env"
  oe_append :: "'o FeDecision \<Rightarrow> 'o ProtocolConsensusDecision \<Rightarrow> 'o FeDecision"
  oe_merge :: "'o FeDecision \<Rightarrow> 'o FeDecision \<Rightarrow> 'o FeDecision option"
  oe_clone_pending_rqs :: "ClientRqInfo list \<Rightarrow> 'o Request StoredMessage list option"

type_synonym ('o, 'a) op_result = "'o PBFTOrderProtocol \<times> 'o sync_effect list \<times> ('a, op_error) res"

abbreviation op_consensus :: "'o PBFTOrderProtocol \<Rightarrow> 'o Consensus" where
  "op_consensus p \<equiv> cx_consensus (op_ctx p)"

abbreviation op_sync :: "'o PBFTOrderProtocol \<Rightarrow> 'o Synchronizer" where
  "op_sync p \<equiv> cx_sync (op_ctx p)"

abbreviation op_guard :: "'o PBFTOrderProtocol \<Rightarrow> ProposerConsensusGuard" where
  "op_guard p \<equiv> cs_consensus_guard (op_consensus p)"

definition with_consensus :: "'o Consensus \<Rightarrow> 'o PBFTOrderProtocol \<Rightarrow> 'o PBFTOrderProtocol" where
  "with_consensus c p = p\<lparr>op_ctx := (op_ctx p)\<lparr>cx_consensus := c\<rparr>\<rparr>"

definition with_sync :: "'o Synchronizer \<Rightarrow> 'o PBFTOrderProtocol \<Rightarrow> 'o PBFTOrderProtocol" where
  "with_sync s p = p\<lparr>op_ctx := (op_ctx p)\<lparr>cx_sync := s\<rparr>\<rparr>"

definition after_op :: "'o sync_effect list \<Rightarrow> ('o, 'a) op_result \<Rightarrow> ('o, 'a) op_result" where
  "after_op es r = (case r of (p, es', a) \<Rightarrow> (p, es @ es', a))"

definition then_op :: "('o, 'a) op_result \<Rightarrow> ('o PBFTOrderProtocol \<Rightarrow> 'a \<Rightarrow> ('o, 'b) op_result) \<Rightarrow> ('o, 'b) op_result" where
  \<comment> \<open>the operator \<open>?\<close> and sequencing\<close>
  "then_op r k =
     (case r of
        (p, es, Ok a) \<Rightarrow> after_op es (k p a)
      | (p, es, Err e) \<Rightarrow> (p, es, Err e)
      | (p, es, Panic) \<Rightarrow> (p, es, Panic))"

definition or_panic_op :: "'o PBFTOrderProtocol \<Rightarrow> ('a, unit) res \<Rightarrow> ('a \<Rightarrow> ('o, 'b) op_result) \<Rightarrow> ('o, 'b) op_result" where
  \<comment> \<open>a call whose failure is a panic\<close>
  "or_panic_op p r k = (case r of Ok a \<Rightarrow> k a | _ \<Rightarrow> (p, [], Panic))"

subsection \<open>Phases\<close>

definition on_guard :: "(ProposerConsensusGuard \<Rightarrow> ProposerConsensusGuard) \<Rightarrow> 'o PBFTOrderProtocol \<Rightarrow> 'o PBFTOrderProtocol" where
  "on_guard f p = with_consensus ((op_consensus p)\<lparr>cs_consensus_guard := f (op_guard p)\<rparr>) p"

definition switch_phase :: "ConsensusPhase \<Rightarrow> 'o PBFTOrderProtocol \<Rightarrow> 'o PBFTOrderProtocol" where
  "switch_phase new_phase p =
     (let old_phase = op_phase p;
          p = p\<lparr>op_phase := new_phase\<rparr>
      in if op_phase p \<noteq> old_phase
         then (case old_phase of NormalPhase \<Rightarrow> on_guard lock_consensus p | SyncPhase \<Rightarrow> p)
         else p)"

definition handle_execution_changed :: "bool \<Rightarrow> 'o PBFTOrderProtocol \<Rightarrow> 'o PBFTOrderProtocol" where
  "handle_execution_changed is_executing p =
     (if \<not> is_executing then on_guard lock_consensus p
      else case op_phase p of NormalPhase \<Rightarrow> on_guard unlock_consensus p | SyncPhase \<Rightarrow> p)"

definition initialize_protocol :: "atlas \<Rightarrow> NodeId \<Rightarrow> NodeId list \<Rightarrow> nat \<Rightarrow> nat
    \<Rightarrow> ('o PBFTOrderProtocol, op_error) res" where
  "initialize_protocol A node_id quorum timeout_dur watermark =
     (case initialize_with_quorum A node_id (ZERO A) quorum timeout_dur of
        Ok sync \<Rightarrow>
          let consensus_guard = ProposerConsensusGuard_new (sy_view sync);
              c = Consensus_new_replica A node_id (sy_view sync) (ZERO A) watermark consensus_guard
          in Ok \<lparr>op_phase = NormalPhase,
                 op_ctx = \<lparr>cx_sync = sync, cx_log = initialize_decided_log node_id, cx_consensus = c\<rparr>\<rparr>
      | Err e \<Rightarrow> Err (OfView e)
      | Panic \<Rightarrow> Panic)"

subsection \<open>Decisions by sequence number\<close>

definition fd_seq :: "'o FeDecision \<Rightarrow> SeqNo" where
  "fd_seq d = (case d of
     DecisionFromMessage s _ \<Rightarrow> s | DecisionFromMetadataAndMessages s _ _ \<Rightarrow> s
   | FullDecisionInfo s _ _ _ \<Rightarrow> s | CompletedDecision s _ \<Rightarrow> s)"

fun bt_insert :: "'k::linorder \<Rightarrow> 'v \<Rightarrow> ('k \<times> 'v) list \<Rightarrow> ('k \<times> 'v) list" where
  \<comment> \<open>\<open>BTreeMap::insert\<close>, also for writing through \<open>get_mut\<close>\<close>
  "bt_insert k v [] = [(k, v)]"
| "bt_insert k v ((k', v') # m) =
     (if k < k' then (k, v) # (k', v') # m else if k = k' then (k, v) # m else (k', v') # bt_insert k v m)"

fun merge_decision_vec :: "'o order_env \<Rightarrow> 'o FeDecision list \<Rightarrow> (SeqNo \<times> 'o FeDecision) list
    \<Rightarrow> ((SeqNo \<times> 'o FeDecision) list, op_error) res" where
  "merge_decision_vec E [] m = Ok m"
| "merge_decision_vec E (dec # decs) m =
     (case map_of m (fd_seq dec) of
        Some member \<Rightarrow>
          (case oe_merge E member dec of
             Some d \<Rightarrow> merge_decision_vec E decs (bt_insert (fd_seq dec) d m)
           | None \<Rightarrow> Err MergeFailed)
      | None \<Rightarrow> merge_decision_vec E decs (bt_insert (fd_seq dec) dec m))"

fun merge_finalized :: "'o order_env \<Rightarrow> 'o ProtocolConsensusDecision list \<Rightarrow> (SeqNo \<times> 'o FeDecision) list
    \<Rightarrow> (SeqNo \<times> 'o FeDecision) list" where
  \<comment> \<open>the loop over the finalized decisions\<close>
  "merge_finalized E [] m = m"
| "merge_finalized E (decision # ds) m =
     merge_finalized E ds
       (bt_insert (pcd_seq decision)
          (case map_of m (pcd_seq decision) of
             Some member \<Rightarrow> oe_append E member decision
           | None \<Rightarrow> CompletedDecision (pcd_seq decision) decision) m)"

definition merge_decisions :: "'o order_env \<Rightarrow> 'o FeDecision list \<Rightarrow> 'o ProtocolConsensusDecision list
    \<Rightarrow> ('o FeDecision list, op_error) res" where
  "merge_decisions E status finalized_decisions =
     res_map (\<lambda>m. map snd (merge_finalized E finalized_decisions m)) (merge_decision_vec E status [])"

subsection \<open>Finalizing\<close>

lemma count_finalizeable_snoc: "\<not> is_finalizeable d \<Longrightarrow> count_finalizeable (ds @ [d]) = count_finalizeable ds"
  by (induction ds) auto

lemma cs_finalize_window:
  assumes "can_finalize c" and "cs_finalize T A v c = (c', es, Ok b)"
  obtains d ds d' where "cs_decisions c = d # ds" "is_finalizeable d" "cs_decisions c' = ds @ [d']" "\<not> is_finalizeable d'"
proof -
  obtain d ds where ds: "cs_decisions c = d # ds" "is_finalizeable d"
    using assms(1) by (auto simp: can_finalize_def split: list.splits)
  obtain d' where "cs_decisions c' = ds @ [d']" "\<not> is_finalizeable d'"
    using assms(2) ds by (auto simp: cs_finalize_def next_instance_def Let_def is_finalizeable_def
        init_with_msg_log_def split: prod.splits)
  then show thesis using that ds by blast
qed

lemma cs_finalize_count:
  assumes "can_finalize c" and "cs_finalize T A v c = (c', es, Ok b)"
  shows "finalizeable_count c = Suc (finalizeable_count c')"
  by (rule cs_finalize_window [OF assms]) (simp add: finalizeable_count_def count_finalizeable_snoc)

function finalize_all_possible :: "'o pbft_tbo \<Rightarrow> atlas \<Rightarrow> ViewInfo \<Rightarrow> 'o PBFTOrderProtocol
    \<Rightarrow> ('o, 'o ProtocolConsensusDecision list) op_result" where
  "finalize_all_possible T A view p =
     (if can_finalize (op_consensus p)
      then
        (case cs_finalize T A view (op_consensus p) of
           (c, es, Ok (Some completed_batch)) \<Rightarrow>
             (case finalize_batch completed_batch (cx_log (op_ctx p)) of
                (log, exec_info) \<Rightarrow>
                  after_op (map OfConsensus es)
                    (case finalize_all_possible T A view
                            (p\<lparr>op_ctx := (op_ctx p)\<lparr>cx_log := log, cx_consensus := c\<rparr>\<rparr>) of
                       (p, es, r) \<Rightarrow> (p, es, res_map (\<lambda>ds. exec_info # ds) r)))
         | (c, es, Ok None) \<Rightarrow> (with_consensus c p, map OfConsensus es, Panic)
         | (c, es, Err e) \<Rightarrow> (with_consensus c p, map OfConsensus es, Err (OfDecision e))
         | (c, es, Panic) \<Rightarrow> (with_consensus c p, map OfConsensus es, Panic))
      else (p, [], Ok []))"
  by pat_completeness auto
termination
  by (relation "measure (\<lambda>(T, A, v, p). finalizeable_count (op_consensus p))")
    (auto dest!: cs_finalize_count [OF _ sym])

declare finalize_all_possible.simps [simp del]

definition handle_decided :: "'o order_env \<Rightarrow> atlas \<Rightarrow> 'o FeDecision list \<Rightarrow> 'o PBFTOrderProtocol
    \<Rightarrow> ('o, 'o FeDecision list) op_result" where
  "handle_decided E A decisions p =
     then_op (finalize_all_possible (se_tbo (oe_sync E)) A (sy_view (op_sync p)) p) (\<lambda>p finalized_decisions.
       (p, [], merge_decisions E decisions finalized_decisions))"

definition handle_sync_result :: "'o order_env \<Rightarrow> atlas \<Rightarrow> 'o ConsensusStatus \<Rightarrow> 'o FeDecision option
    \<Rightarrow> 'o PBFTOrderProtocol \<Rightarrow> ('o, 'o FeDecision list) op_result" where
  "handle_sync_result E A status to_exec p =
     then_op
       (case status of
          ConsensusStatus.Deciding decision \<Rightarrow> (p, [], merge_decision_vec E decision [])
        | ConsensusStatus.Decided decision \<Rightarrow>
            then_op (p, [], merge_decision_vec E decision []) (\<lambda>p m.
            then_op (finalize_all_possible (se_tbo (oe_sync E)) A (sy_view (op_sync p)) p) (\<lambda>p finalized.
              (p, [], Ok (merge_finalized E finalized m))))
        | _ \<Rightarrow> (p, [], Ok []))
       (\<lambda>p m.
         let m = (case to_exec of Some decision \<Rightarrow> bt_insert (fd_seq decision) decision m | None \<Rightarrow> m)
         in (p, [], Ok (map snd m)))"

definition quorum_joined :: "'o PBFTOrderProtocol \<Rightarrow> NodeId \<Rightarrow> JoinInfo" where
  "quorum_joined p node = JoinInfo node (vi_quorum_members (sy_view (op_sync p)))"

definition none_if_empty :: "'a list \<Rightarrow> 'a list option" where
  "none_if_empty decisions = (if decisions = [] then None else Some decisions)"

subsection \<open>The synchronisation phase\<close>

definition adv_sync :: "'o order_env \<Rightarrow> atlas \<Rightarrow> 'o StoredConsensusMessage \<Rightarrow> 'o PBFTOrderProtocol
    \<Rightarrow> ('o, 'o SyncPhaseRes) op_result" where
  "adv_sync E A message p =
     (case sy_process_message (oe_sync E) A message (op_ctx p) of
        (cx, es, Ok status) \<Rightarrow>
          let p = p\<lparr>op_ctx := on_sync sy_signal cx\<rparr>
          in (case status of
                StatusNil \<Rightarrow> (p, es, Ok SyncProtocolNotNeeded)
              | Running \<Rightarrow> (p, es, Ok RunSyncProtocol)
              | NewView cstatus to_execute \<Rightarrow>
                  (switch_phase NormalPhase p, es, Ok (SyncProtocolFinished cstatus to_execute))
              | NewViewJoinedQuorum consensus_decision decision node \<Rightarrow>
                  (switch_phase NormalPhase p, es, Ok (JoinedQuorum consensus_decision decision node))
              | RunCst \<Rightarrow> (switch_phase SyncPhase p, es, Ok RunCSTProtocol)
              | RequestsTimedOut _ _ \<Rightarrow> (p, es, Panic))
      | (cx, es, _) \<Rightarrow> (p\<lparr>op_ctx := cx\<rparr>, es, Panic))"

definition update_sync_phase :: "'o order_env \<Rightarrow> atlas \<Rightarrow> 'o StoredConsensusMessage \<Rightarrow> 'o PBFTOrderProtocol
    \<Rightarrow> ('o, 'o OPExecResult) op_result" where
  "update_sync_phase E A message p =
     (case msg message of
        ViewChangeMsg _ \<Rightarrow>
          then_op (adv_sync E A message p) (\<lambda>p r.
            case r of
              SyncProtocolNotNeeded \<Rightarrow> (p, [], Ok MessageProcessedNoUpdate)
            | RunSyncProtocol \<Rightarrow> (p, [], Ok MessageProcessedNoUpdate)
            | SyncProtocolFinished status to_execute \<Rightarrow>
                then_op (handle_sync_result E A status to_execute p) (\<lambda>p decisions.
                  (p, [], Ok (ProgressedDecision ClearAhead decisions)))
            | JoinedQuorum status to_execute node \<Rightarrow>
                let join_info = quorum_joined p node
                in then_op (handle_sync_result E A status to_execute p) (\<lambda>p decision_adv.
                     (p, [], Ok (QuorumJoined ClearAhead (none_if_empty decision_adv) join_info)))
            | RunCSTProtocol \<Rightarrow> (p, [], Ok ExecRunCst))
      | ConsensusMsg _ \<Rightarrow>
          or_panic_op p (cs_queue (se_tbo (oe_sync E)) A message (op_consensus p)) (\<lambda>c.
            (with_consensus c p, [], Ok MessageProcessedNoUpdate))
      | ObserverMsg _ \<Rightarrow> (p, [], Ok MessageProcessedNoUpdate))"

definition resumed :: "'o order_env \<Rightarrow> atlas \<Rightarrow> 'o SynchronizerStatus option \<Rightarrow> 'o PBFTOrderProtocol
    \<Rightarrow> ('o, 'o OPPollResult) op_result" where
  \<comment> \<open>what is done with the result of \<open>resume_view_change\<close>\<close>
  "resumed E A sync_status p =
     (case sync_status of
        Some (NewViewJoinedQuorum cstatus decisions node) \<Rightarrow>
          then_op (handle_sync_result E A cstatus decisions p) (\<lambda>p decisions.
            (p, [], Ok (PollQuorumJoined ClearAhead (none_if_empty decisions) (quorum_joined p node))))
      | Some (NewView cstatus decisions) \<Rightarrow>
          then_op (handle_sync_result E A cstatus decisions p) (\<lambda>p decisions.
            (p, [], Ok (PollProgressedDecision ClearAhead decisions)))
      | _ \<Rightarrow> (p, [], Ok RePoll))"

definition poll_sync_phase :: "'o order_env \<Rightarrow> atlas \<Rightarrow> 'o PBFTOrderProtocol \<Rightarrow> ('o, 'o OPPollResult) op_result" where
  "poll_sync_phase E A p =
     or_panic_op p (sy_poll (oe_sync E) (op_sync p)) (\<lambda>(s, poll_result).
       let p = with_sync s p
       in case poll_result of
            SyncRecv \<Rightarrow> (p, [], Ok ReceiveMsg)
          | SyncNextMessage message \<Rightarrow> (p, [], Ok (Exec message))
          | ResumeViewChange \<Rightarrow>
              (case resume_view_change (oe_sync E) A (op_ctx p) of
                 (cx, es, Ok sync_status) \<Rightarrow>
                   after_op es (resumed E A sync_status (switch_phase NormalPhase (p\<lparr>op_ctx := cx\<rparr>)))
               | (cx, es, _) \<Rightarrow> (p\<lparr>op_ctx := cx\<rparr>, es, Panic)))"

subsection \<open>The normal phase\<close>

definition poll_consensus :: "'o order_env \<Rightarrow> atlas \<Rightarrow> 'o PBFTOrderProtocol \<Rightarrow> ('o, 'o OPPollResult) op_result" where
  \<comment> \<open>\<open>poll_normal_phase\<close> once there is no \<open>STOP\<close> to be processed\<close>
  "poll_consensus E A p =
     (case cs_poll A (op_consensus p) of
        (c, Ok polled_message) \<Rightarrow>
          let p = with_consensus c p
          in (case polled_message of
                ConsensusPollStatus.Recv \<Rightarrow> (p, [], Ok ReceiveMsg)
              | ConsensusPollStatus.NextMessage message \<Rightarrow> (p, [], Ok (Exec message))
              | ConsensusPollStatus.Decided decisions \<Rightarrow>
                  then_op (handle_decided E A decisions p) (\<lambda>p decisions.
                    (p, [], Ok (PollProgressedDecision Ignore decisions))))
      | (c, _) \<Rightarrow> (with_consensus c p, [], Panic))"

definition poll_stop :: "'o order_env \<Rightarrow> atlas \<Rightarrow> 'o StoredConsensusMessage \<Rightarrow> 'o PBFTOrderProtocol
    \<Rightarrow> ('o, 'o OPPollResult) op_result" where
  \<comment> \<open>the message the synchronizer handed out\<close>
  "poll_stop E A s_message p =
     (case msg s_message of
        ViewChangeMsg _ \<Rightarrow>
          then_op (adv_sync E A s_message p) (\<lambda>p result.
            case result of
              RunSyncProtocol \<Rightarrow> (switch_phase SyncPhase p, [], Ok RePoll)
            | RunCSTProtocol \<Rightarrow> (p, [], Ok PollRunCst)
            | _ \<Rightarrow> (p, [], Ok RePoll))
      | _ \<Rightarrow> (p, [], Panic))"

definition poll_normal_round :: "'o order_env \<Rightarrow> atlas \<Rightarrow> 'o PBFTOrderProtocol
    \<Rightarrow> 'o PBFTOrderProtocol \<times> 'o sync_effect list + ('o, 'o OPPollResult) op_result" where
  \<comment> \<open>one round of the loop: the state the next round starts in, or the result\<close>
  "poll_normal_round E A p =
     (if sq_can_process_stops (sy_tbo (op_sync p))
      then
        (case poll_sync_phase E A p of
           (p, es, Ok (Exec s_message)) \<Rightarrow> Inr (after_op es (poll_stop E A s_message p))
         | (p, es, Ok _) \<Rightarrow> Inl (p, es)
         | (p, es, Err e) \<Rightarrow> Inr (p, es, Err e)
         | (p, es, Panic) \<Rightarrow> Inr (p, es, Panic))
      else Inr (poll_consensus E A p))"

partial_function (option) poll_normal_phase :: "'o order_env \<Rightarrow> atlas \<Rightarrow> 'o PBFTOrderProtocol
    \<Rightarrow> ('o, 'o OPPollResult) op_result option" where
  "poll_normal_phase E A p =
     (case poll_normal_round E A p of
        Inr r \<Rightarrow> Some r
      | Inl (p, es) \<Rightarrow> Option.bind (poll_normal_phase E A p) (\<lambda>r. Some (after_op es r)))"

definition adv_consensus :: "'o order_env \<Rightarrow> atlas \<Rightarrow> 'o StoredConsensusMessage \<Rightarrow> 'o PBFTOrderProtocol
    \<Rightarrow> ('o, 'o OPExecResult) op_result" where
  "adv_consensus E A message p =
     (case cs_process_message (se_tbo (oe_sync E)) A (role_of (sy_accessory (op_sync p))) (se_nonces (oe_sync E))
             (sy_view (op_sync p)) message (op_consensus p) of
        (c, es, Ok status) \<Rightarrow>
          let p = with_consensus c p; es = map OfConsensus es
          in (case status of
                ConsensusStatus.VotedTwice _ \<Rightarrow> (p, es, Ok MessageDropped)
              | ConsensusStatus.MessageIgnored \<Rightarrow> (p, es, Ok MessageDropped)
              | ConsensusStatus.MessageQueued \<Rightarrow> (p, es, Ok MessageQueued)
              | ConsensusStatus.Deciding result \<Rightarrow> (p, es, Ok (ProgressedDecision Ignore result))
              | ConsensusStatus.Decided result \<Rightarrow>
                  after_op es (then_op (handle_decided E A result p) (\<lambda>p decisions.
                    (p, [], Ok (ProgressedDecision Ignore decisions)))))
      | (c, es, Err e) \<Rightarrow> (with_consensus c p, map OfConsensus es, Err (OfDecidingLog e))
      | (c, es, Panic) \<Rightarrow> (with_consensus c p, map OfConsensus es, Panic))"

definition update_normal_phase :: "'o order_env \<Rightarrow> atlas \<Rightarrow> 'o StoredConsensusMessage \<Rightarrow> 'o PBFTOrderProtocol
    \<Rightarrow> ('o, 'o OPExecResult) op_result" where
  "update_normal_phase E A message p =
     (case msg message of
        ConsensusMsg _ \<Rightarrow> adv_consensus E A message p
      | ViewChangeMsg _ \<Rightarrow>
          (case sy_process_message (oe_sync E) A message (op_ctx p) of
             (cx, es, Ok status) \<Rightarrow>
               let p = p\<lparr>op_ctx := on_sync sy_signal cx\<rparr>
               in (case status of
                     StatusNil \<Rightarrow> (p, es, Ok MessageProcessedNoUpdate)
                   | Running \<Rightarrow> (switch_phase SyncPhase p, es, Ok MessageProcessedNoUpdate)
                   | _ \<Rightarrow> (p, es, Panic))
           | (cx, es, _) \<Rightarrow> (p\<lparr>op_ctx := cx\<rparr>, es, Panic))
      | ObserverMsg _ \<Rightarrow> (p, [], Ok MessageProcessedNoUpdate))"

subsection \<open>The operations of the protocol\<close>

definition poll :: "'o order_env \<Rightarrow> atlas \<Rightarrow> 'o PBFTOrderProtocol \<Rightarrow> ('o, 'o OPPollResult) op_result option" where
  "poll E A p =
     (case op_phase p of NormalPhase \<Rightarrow> poll_normal_phase E A p | SyncPhase \<Rightarrow> Some (poll_sync_phase E A p))"

definition op_process_message :: "'o order_env \<Rightarrow> atlas \<Rightarrow> 'o StoredConsensusMessage \<Rightarrow> 'o PBFTOrderProtocol
    \<Rightarrow> ('o, 'o OPExecResult) op_result" where
  "op_process_message E A message p =
     (case op_phase p of
        NormalPhase \<Rightarrow> update_normal_phase E A message p
      | SyncPhase \<Rightarrow> update_sync_phase E A message p)"

definition op_handle_off_ctx_message :: "'o order_env \<Rightarrow> atlas \<Rightarrow> 'o StoredConsensusMessage \<Rightarrow> 'o PBFTOrderProtocol
    \<Rightarrow> ('o, unit) op_result" where
  "op_handle_off_ctx_message E A message p =
     (case msg message of
        ConsensusMsg _ \<Rightarrow>
          or_panic_op p (cs_queue (se_tbo (oe_sync E)) A message (op_consensus p)) (\<lambda>c.
            (with_consensus c p, [], Ok ()))
      | ViewChangeMsg _ \<Rightarrow>
          or_panic_op p (sy_queue (se_tbo (oe_sync E)) A message (op_sync p)) (\<lambda>s.
            (with_sync (sy_signal s) p, [], Ok ()))
      | ObserverMsg _ \<Rightarrow> (p, [], Panic))"

definition op_handle_timeout :: "'o order_env \<Rightarrow> atlas \<Rightarrow> ModTimeout list \<Rightarrow> 'o PBFTOrderProtocol
    \<Rightarrow> ('o, 'o OPExecResult) op_result" where
  "op_handle_timeout E A timeout p =
     (if is_catching_up (op_consensus p) then (p, [], Ok MessageDropped)
      else
        case client_requests_timed_out (oe_sync E) A (op_sync p) timeout of
          RequestsTimedOut forwarded stopped \<Rightarrow>
            then_op
              (if forwarded \<noteq> []
               then (case oe_clone_pending_rqs E forwarded of
                       Some requests \<Rightarrow> (p, forward_requests (op_sync p) requests, Ok ())
                     | None \<Rightarrow> (p, [], Err PendingRqsFailed))
               else (p, [], Ok ()))
              (\<lambda>p _.
                if stopped \<noteq> []
                then (case oe_clone_pending_rqs E stopped of
                        Some stopped \<Rightarrow>
                          let p = switch_phase SyncPhase p
                          in (case begin_view_change (oe_sync E) A (Some stopped) (op_sync p) of
                                (s, es) \<Rightarrow> (with_sync s p, es, Ok MessageProcessedNoUpdate))
                      | None \<Rightarrow> (p, [], Err PendingRqsFailed))
                else (p, [], Ok MessageProcessedNoUpdate))
        | _ \<Rightarrow> (p, [], Ok MessageProcessedNoUpdate))"

definition op_install_seq_no :: "'o pbft_tbo \<Rightarrow> atlas \<Rightarrow> SeqNo \<Rightarrow> 'o PBFTOrderProtocol \<Rightarrow> ('o, unit) op_result" where
  "op_install_seq_no T A seq_no p =
     or_panic_op p (install_sequence_number T A seq_no (sy_view (op_sync p)) (op_consensus p)) (\<lambda>c.
       (with_consensus c p, [], Ok ()))"

definition op_install_view :: "'o pbft_tbo \<Rightarrow> atlas \<Rightarrow> ViewInfo \<Rightarrow> 'o PBFTOrderProtocol \<Rightarrow> ('o, unit) op_result" where
  "op_install_view T A view p =
     (case index_seq A (vi_seq view) (vi_seq (sy_view (op_sync p))) of
        Inl _ \<Rightarrow> (p, [], Ok ())
      | Inr i \<Rightarrow>
          if i = 0 then (p, [], Ok ())
          else
            or_panic_op p (cs_install_view T A view (op_consensus p)) (\<lambda>c.
              let p = with_consensus c p
              in or_panic_op p (received_view_from_state_transfer T A view (op_sync p)) (\<lambda>(s, run).
                   let p = with_sync s p
                   in (if run then switch_phase SyncPhase p else p, [], Ok ()))))"

subsection \<open>Reconfiguration\<close>

definition attempt_quorum_node_join :: "'o order_env \<Rightarrow> atlas \<Rightarrow> NodeId \<Rightarrow> 'o PBFTOrderProtocol
    \<Rightarrow> ('o, ReconfigurationAttemptResult) op_result" where
  "attempt_quorum_node_join E A joining_node p =
     (case start_join_quorum (oe_sync E) A joining_node (op_sync p) of
        (s, es, (Ok result :: (_, unit) res)) \<Rightarrow>
          let p = with_sync s p
          in (p, es, Ok (case result of
                SyncReconfigurationResult.Failed \<Rightarrow> ReconfigurationAttemptResult.Failed
              | OnGoingViewChange \<Rightarrow> ReconfigurationAttemptResult.InProgress
              | OnGoingQuorumChange node_id \<Rightarrow> CurrentlyReconfiguring node_id
              | SyncReconfigurationResult.AlreadyPartOfQuorum \<Rightarrow> ReconfigurationAttemptResult.AlreadyPartOfQuorum
              | SyncReconfigurationResult.InProgress \<Rightarrow> ReconfigurationAttemptResult.InProgress
              | Completed \<Rightarrow> Successful (vi_quorum_members (sy_view (op_sync p)))))
      | (s, es, _) \<Rightarrow> (with_sync s p, es, Panic))"

definition joining_quorum :: "'o order_env \<Rightarrow> atlas \<Rightarrow> 'o PBFTOrderProtocol
    \<Rightarrow> ('o, ReconfigurationAttemptResult) op_result" where
  "joining_quorum E A p =
     or_panic_op p (attempt_join_quorum (oe_sync E) A (op_sync p)) (\<lambda>(s, result).
       let p = with_sync s p
       in (if result = ReconfigurationAttemptResult.InProgress then switch_phase SyncPhase p else p, [], Ok result))"

subsection \<open>What the persistent log asks for\<close>

definition CF_PRE_PREPARES :: string where "CF_PRE_PREPARES = ''PRE_PREPARES''"

definition CF_PREPARES :: string where "CF_PREPARES = ''PREPARES''"

definition CF_COMMIT :: string where "CF_COMMIT = ''COMMITS''"

definition message_types :: "string list" where
  "message_types = [CF_PRE_PREPARES, CF_PREPARES, CF_COMMIT]"

definition get_type_for_message :: "'o PBFTMessage \<Rightarrow> (string, unit) res" where
  "get_type_for_message m =
     (case m of
        ConsensusMsg c \<Rightarrow>
          (case cm_kind c of
             PrePrepare _ \<Rightarrow> Ok CF_PRE_PREPARES
           | Prepare _ \<Rightarrow> Ok CF_PREPARES
           | Commit _ \<Rightarrow> Ok CF_COMMIT)
      | ViewChangeMsg _ \<Rightarrow> Err ()
      | ObserverMsg _ \<Rightarrow> Err ())"

definition init_proof_from :: "ProofMetadata \<Rightarrow> 'o StoredConsensusMessage list \<Rightarrow> ('o Proof, ProofError) res" where
  \<comment> \<open>also \<open>init_proof_from_scm\<close>, which gets shared messages\<close>
  "init_proof_from metadata messages = init_from_messages metadata messages"

definition decompose_proof :: "'o Proof \<Rightarrow> ProofMetadata \<times> 'o StoredConsensusMessage list" where
  "decompose_proof p = (pf_metadata p, pf_pre_prepares p @ pf_prepares p @ pf_commits p)"

definition get_requests_in_proof :: "atlas \<Rightarrow> 'o Proof \<Rightarrow> ('o ProtocolConsensusDecision, 'e) res" where
  "get_requests_in_proof A p = decision_of_proof A p"

end
