(* ===== verification/OrderDelivery.thy ===== *)
theory OrderDelivery
  imports OrderProtocol ConsensusRuns
begin

text \<open>
  What the ordering protocol hands to the executor: finalizing takes every decided instance at the
  front of the window, in order and without a gap, and merging delivers one decision per sequence
  number in ascending order.
\<close>

subsection \<open>Ordered maps\<close>

definition ascending :: "('k::linorder \<times> 'v) list \<Rightarrow> bool" where
  "ascending m \<longleftrightarrow> sorted_wrt (<) (map fst m)"

lemma bt_insert_keys [simp]: "fst ` set (bt_insert k v m) = insert k (fst ` set m)"
  by (induction k v m rule: bt_insert.induct) (simp_all add: insert_commute)

lemma ascending_bt_insert: "ascending m \<Longrightarrow> ascending (bt_insert k v m)"
proof (induction m)
  case (Cons e m)
  obtain k' v' where e: "e = (k', v')" by (cases e)
  have m: "ascending m" "\<And>x. x \<in> fst ` set m \<Longrightarrow> k' < x" using Cons.prems by (auto simp: ascending_def e)
  have "k' < x" if "\<not> k < k'" "k \<noteq> k'" "x \<in> fst ` set (bt_insert k v m)" for x using that m(2) by auto
  then show ?case using Cons m by (auto simp: ascending_def e intro: less_trans)
qed (simp add: ascending_def)

lemma map_of_bt_insert: "ascending m \<Longrightarrow> map_of (bt_insert k v m) = (map_of m)(k \<mapsto> v)"
proof (induction m)
  case (Cons e m)
  obtain k' v' where e: "e = (k', v')" by (cases e)
  have m: "ascending m" using Cons.prems by (simp add: ascending_def e)
  show ?case using Cons.IH [OF m] by (auto simp: e fun_eq_iff)
qed simp

lemma ascending_distinct: "ascending m \<Longrightarrow> distinct (map fst m)"
  by (simp add: ascending_def strict_sorted_iff)

subsection \<open>Merging decisions\<close>

text \<open>What \<open>atlas_core\<close> documents of the two operations on a decision: both keep its number.\<close>

definition merge_laws :: "'o order_env \<Rightarrow> bool" where
  "merge_laws E \<longleftrightarrow>
     (\<forall>d x. fd_seq (oe_append E d x) = fd_seq d) \<and>
     (\<forall>d d' d''. oe_merge E d d' = Some d'' \<longrightarrow> fd_seq d'' = fd_seq d)"

definition keyed :: "(SeqNo \<times> 'o FeDecision) list \<Rightarrow> bool" where
  "keyed m \<longleftrightarrow> ascending m \<and> (\<forall>(k, d) \<in> set m. fd_seq d = k)"

lemma bt_insert_entries: "e \<in> set (bt_insert k v m) \<Longrightarrow> e = (k, v) \<or> e \<in> set m"
  by (induction m) (auto split: if_splits)

lemma keyed_bt_insert: "keyed m \<Longrightarrow> fd_seq d = k \<Longrightarrow> keyed (bt_insert k d m)"
  by (auto simp: keyed_def ascending_bt_insert dest!: bt_insert_entries)

lemma keyed_lookup: "keyed m \<Longrightarrow> map_of m k = Some d \<Longrightarrow> fd_seq d = k"
  by (auto simp: keyed_def dest!: map_of_SomeD)

lemma merge_decision_vec_keyed:
  assumes "merge_laws E" and "keyed m" and "merge_decision_vec E ds m = Ok m'"
  shows "keyed m' \<and> fst ` set m' = fst ` set m \<union> fd_seq ` set ds"
  using assms(2,3)
proof (induction ds arbitrary: m)
  case (Cons d ds)
  obtain d' where d': "merge_decision_vec E ds (bt_insert (fd_seq d) d' m) = Ok m'" "fd_seq d' = fd_seq d"
    using Cons.prems assms(1) keyed_lookup [OF Cons.prems(1)]
    by (auto simp: merge_laws_def split: option.splits)
  show ?case using Cons.IH [OF keyed_bt_insert [OF Cons.prems(1) d'(2)] d'(1)] by auto
qed simp

lemma merge_decision_vec_Ok:
  assumes "distinct (map fd_seq ds)" and "fd_seq ` set ds \<inter> fst ` set m = {}"
  shows "\<exists>m'. merge_decision_vec E ds m = Ok m'"
  using assms
proof (induction ds arbitrary: m)
  case (Cons d ds)
  have "map_of m (fd_seq d) = None" using Cons.prems(2) by (auto simp: map_of_eq_None_iff)
  then show ?case using Cons by auto
qed simp

lemma merge_finalized_keyed:
  assumes "merge_laws E" and "keyed m"
  shows "keyed (merge_finalized E fs m) \<and> fst ` set (merge_finalized E fs m) = fst ` set m \<union> pcd_seq ` set fs"
  using assms(2)
proof (induction fs arbitrary: m)
  case (Cons f fs)
  let ?d = "case map_of m (pcd_seq f) of Some member \<Rightarrow> oe_append E member f | None \<Rightarrow> CompletedDecision (pcd_seq f) f"
  have "fd_seq ?d = pcd_seq f"
    using assms(1) keyed_lookup [OF Cons.prems] by (auto simp: merge_laws_def fd_seq_def split: option.splits)
  from Cons.IH [OF keyed_bt_insert [OF Cons.prems this]] show ?case by auto
qed simp

lemma keyed_seqs: "keyed m \<Longrightarrow> map fd_seq (map snd m) = map fst m"
  by (auto simp: keyed_def)

lemma merge_finalized_other:
  "ascending m \<Longrightarrow> k \<notin> pcd_seq ` set fs \<Longrightarrow> map_of (merge_finalized E fs m) k = map_of m k"
  by (induction fs arbitrary: m) (auto simp: map_of_bt_insert ascending_bt_insert)

definition completed_entry :: "'o order_env \<Rightarrow> (SeqNo \<times> 'o FeDecision) list \<Rightarrow> 'o ProtocolConsensusDecision \<Rightarrow> 'o FeDecision" where
  "completed_entry E m f =
     (case map_of m (pcd_seq f) of Some member \<Rightarrow> oe_append E member f | None \<Rightarrow> CompletedDecision (pcd_seq f) f)"

lemma merge_finalized_entry:
  assumes "ascending m" and "distinct (map pcd_seq fs)" and "f \<in> set fs"
  shows "map_of (merge_finalized E fs m) (pcd_seq f) = Some (completed_entry E m f)"
  using assms
proof (induction fs arbitrary: m)
  case (Cons g fs)
  let ?m = "bt_insert (pcd_seq g) (completed_entry E m g) m"
  have m: "ascending ?m" by (rule ascending_bt_insert [OF Cons.prems(1)])
  have step: "merge_finalized E (g # fs) m = merge_finalized E fs ?m" by (simp add: completed_entry_def)
  show ?case
  proof (cases "f = g")
    case True
    then show ?thesis
      using merge_finalized_other [OF m, of "pcd_seq g" fs] Cons.prems(2)
      by (simp only: step) (simp add: map_of_bt_insert [OF Cons.prems(1)])
  next
    case False
    then have f: "f \<in> set fs" "pcd_seq f \<noteq> pcd_seq g" using Cons.prems(2,3) by (auto simp: rev_image_eqI)
    then have "completed_entry E ?m f = completed_entry E m f"
      by (simp add: completed_entry_def map_of_bt_insert [OF Cons.prems(1)])
    then show ?thesis using Cons.IH [OF m _ f(1)] Cons.prems(2) by (simp only: step) simp
  qed
qed simp

lemma keyed_Nil [simp]: "keyed []"
  by (simp add: keyed_def ascending_def)

lemma keyed_out: "keyed m \<Longrightarrow> sorted_wrt (<) (map fd_seq (map snd m))"
  unfolding keyed_seqs by (simp add: keyed_def ascending_def)

lemma merge_decisions_spec:
  assumes laws: "merge_laws E" and fs: "distinct (map pcd_seq fs)" and eq: "merge_decisions E ds fs = Ok out"
  obtains m where "merge_decision_vec E ds [] = Ok m" "keyed m" "fst ` set m = fd_seq ` set ds"
    "sorted_wrt (<) (map fd_seq out)" "fd_seq ` set out = fd_seq ` set ds \<union> pcd_seq ` set fs"
    "\<forall>f \<in> set fs. completed_entry E m f \<in> set out"
proof -
  obtain m where m: "merge_decision_vec E ds [] = Ok m" and out: "out = map snd (merge_finalized E fs m)"
    using eq by (auto simp: merge_decisions_def res_map_def split: res.splits)
  have k: "keyed m" "fst ` set m = fd_seq ` set ds" using merge_decision_vec_keyed [OF laws keyed_Nil m] by auto
  note f = merge_finalized_keyed [OF laws k(1), of fs]
  have "fd_seq ` set out = set (map fst (merge_finalized E fs m))"
    unfolding out using keyed_seqs [of "merge_finalized E fs m"] f by (metis list.set_map)
  moreover have "completed_entry E m g \<in> set out" if "g \<in> set fs" for g
    using map_of_SomeD [OF merge_finalized_entry [OF _ fs that, of m E]] k(1) out by (force simp: keyed_def)
  ultimately show thesis using that [OF m k] f k(2) keyed_out [of "merge_finalized E fs m"] out by simp
qed

subsection \<open>Finalizing\<close>

definition decided_front :: "'o Consensus \<Rightarrow> 'o ConsensusDecision list" where
  "decided_front c = takeWhile is_finalizeable (cs_decisions c)"

definition delivered :: "'o PBFTOrderProtocol \<Rightarrow> 'o PBFTOrderProtocol \<Rightarrow> 'o ProtocolConsensusDecision list \<Rightarrow> bool" where
  \<comment> \<open>the decided instances at the front have been taken out of the window and into the log\<close>
  "delivered p p' ds \<longleftrightarrow>
     (let c = op_consensus p; c' = op_consensus p'; k = length (decided_front c) in
      map pcd_seq ds = [cs_seq_no c ..< cs_seq_no c + k] \<and>
      map (\<lambda>d. Some (pcd_digest d)) ds = map (\<lambda>d. wl_batch_digest (dn_working_log d)) (decided_front c) \<and>
      cs_seq_no c' = cs_seq_no c + k \<and> \<not> can_finalize c' \<and>
      cs_watermark c' = cs_watermark c \<and> cs_curr_view c' = cs_curr_view c \<and>
      last_execution (lg_decided (cx_log (op_ctx p'))) =
        (if k = 0 then last_execution (lg_decided (cx_log (op_ctx p))) else Some (cs_seq_no c + k - 1)) \<and>
      op_phase p' = op_phase p \<and> op_sync p' = op_sync p)"

lemma decided_front_Nil: "decided_front c = [] \<longleftrightarrow> \<not> can_finalize c"
  by (auto simp: decided_front_def can_finalize_def split: list.splits)

lemma delivered_none: "\<not> can_finalize (op_consensus p) \<Longrightarrow> delivered p p []"
  using decided_front_Nil [of "op_consensus p"] by (simp add: delivered_def)

lemma decided_front_step:
  assumes "can_finalize c" and "cs_finalize T A v c = (c', es, Ok b)"
  shows "decided_front c = hd (cs_decisions c) # decided_front c'"
proof (rule cs_finalize_window [OF assms])
  fix d ds n
  assume w: "cs_decisions c = d # ds" "is_finalizeable d" "cs_decisions c' = ds @ [n]" "\<not> is_finalizeable n"
  have "takeWhile is_finalizeable (ds @ [n]) = takeWhile is_finalizeable ds" using w(4) by (induction ds) auto
  then show ?thesis using w by (simp add: decided_front_def)
qed

lemma delivered_Cons:
  assumes front: "decided_front (op_consensus p) = hd (cs_decisions (op_consensus p)) # decided_front c'"
    and c': "cs_seq_no c' = Suc (cs_seq_no (op_consensus p))" "cs_watermark c' = cs_watermark (op_consensus p)"
      "cs_curr_view c' = cs_curr_view (op_consensus p)"
    and b: "cb_seq b = cs_seq_no (op_consensus p)"
      "wl_batch_digest (dn_working_log (hd (cs_decisions (op_consensus p)))) = Some (cb_digest b)"
    and p: "finalize_batch b (cx_log (op_ctx p)) = (log, d)"
    and rest: "delivered (p\<lparr>op_ctx := (op_ctx p)\<lparr>cx_log := log, cx_consensus := c'\<rparr>\<rparr>) p' ds"
  shows "delivered p p' (d # ds)"
proof -
  have "pcd_seq d = cs_seq_no (op_consensus p)" "pcd_digest d = cb_digest b"
    "last_execution (lg_decided log) = Some (cs_seq_no (op_consensus p))"
    using p b(1) by (auto simp: finalize_batch_def Let_def last_execution_def append_proof_def Proof_sequence_number_def)
  then show ?thesis using rest b front c' by (auto simp: delivered_def Let_def upt_conv_Cons)
qed

lemma finalize_all_possible_ok:
  assumes "cs_inv A (op_consensus p)" and laws: "handler_laws T A W M"
    and "cs_seq_no (op_consensus p) + length (decided_front (op_consensus p)) + cs_watermark (op_consensus p) < M"
  shows "\<exists>p' ds. finalize_all_possible T A (cs_curr_view (op_consensus p)) p = (p', [], Ok ds) \<and>
    cs_inv A (op_consensus p') \<and> delivered p p' ds"
  using assms(1,3)
proof (induction "length (decided_front (op_consensus p))" arbitrary: p)
  case 0
  then have "\<not> can_finalize (op_consensus p)" using decided_front_Nil [of "op_consensus p"] by simp
  then show ?case
    using delivered_none "0.prems"(1) by (subst finalize_all_possible.simps) auto
next
  case (Suc k)
  let ?c = "op_consensus p"
  have can: "can_finalize ?c" using Suc.hyps(2) decided_front_Nil [of ?c] by auto
  from cs_finalize_inv [OF Suc.prems(1) laws _ can] Suc.prems(2) Suc.hyps(2)
  obtain c' b where c': "cs_finalize T A (cs_curr_view ?c) ?c = (c', [], Ok (Some b))" "cs_inv A c'"
      "cs_seq_no c' = Suc (cs_seq_no ?c)" "cs_watermark c' = cs_watermark ?c" "cs_curr_view c' = cs_curr_view ?c"
      "cb_seq b = cs_seq_no ?c" "wl_batch_digest (dn_working_log (hd (cs_decisions ?c))) = Some (cb_digest b)"
    by (auto simp: algebra_simps)
  obtain log d where fb: "finalize_batch b (cx_log (op_ctx p)) = (log, d)" by fastforce
  let ?p = "p\<lparr>op_ctx := (op_ctx p)\<lparr>cx_log := log, cx_consensus := c'\<rparr>\<rparr>"
  note front = decided_front_step [OF can c'(1)]
  note cons = delivered_Cons [OF front c'(3-7) fb]
  have "\<exists>p' ds. finalize_all_possible T A (cs_curr_view (op_consensus ?p)) ?p = (p', [], Ok ds) \<and>
      cs_inv A (op_consensus p') \<and> delivered ?p p' ds"
    using Suc.prems Suc.hyps(2) c' front by (intro Suc.hyps(1)) auto
  then show ?case
    using c' fb can cons by (subst finalize_all_possible.simps) (auto simp: after_op_def)
qed

subsection \<open>Delivering\<close>

definition carries :: "'o order_env \<Rightarrow> 'o FeDecision \<Rightarrow> 'o ProtocolConsensusDecision \<Rightarrow> bool" where
  \<comment> \<open>a decision for the executor that is completed by the finalized batch\<close>
  "carries E d f \<longleftrightarrow> d = CompletedDecision (pcd_seq f) f \<or> (\<exists>member. fd_seq member = pcd_seq f \<and> d = oe_append E member f)"

definition hands_over :: "'o order_env \<Rightarrow> 'o PBFTOrderProtocol \<Rightarrow> 'o PBFTOrderProtocol \<Rightarrow> 'o FeDecision list \<Rightarrow> bool" where
  \<comment> \<open>the batches from the number that was due up to the one that is due now\<close>
  "hands_over E p p' out \<longleftrightarrow>
     sorted_wrt (<) (map fd_seq out) \<and>
     (\<exists>fs. map pcd_seq fs = [cs_seq_no (op_consensus p) ..< cs_seq_no (op_consensus p')] \<and>
       (\<forall>f \<in> set fs. \<exists>d \<in> set out. carries E d f) \<and>
       (fs \<noteq> [] \<longrightarrow> last_execution (lg_decided (cx_log (op_ctx p'))) = Some (cs_seq_no (op_consensus p') - 1)))"

lemma completed_carries: "keyed m \<Longrightarrow> carries E (completed_entry E m f) f"
  by (auto simp: carries_def completed_entry_def dest: keyed_lookup split: option.splits)

lemma decided_front_le: "length (decided_front c) \<le> length (cs_decisions c)"
  by (simp add: decided_front_def length_takeWhile_le)

lemma handle_decided_ok:
  assumes inv: "cs_inv A (op_consensus p)" and laws: "handler_laws (se_tbo (oe_sync E)) A W M" "merge_laws E"
    and room: "cs_seq_no (op_consensus p) + 2 * cs_watermark (op_consensus p) < M"
    and view: "sy_view (op_sync p) = cs_curr_view (op_consensus p)" and ds: "length ds \<le> 1"
  shows "\<exists>p' out. handle_decided E A ds p = (p', [], Ok out) \<and> cs_inv A (op_consensus p') \<and>
    hands_over E p p' out \<and> \<not> can_finalize (op_consensus p')"
proof -
  have "length (decided_front (op_consensus p)) \<le> cs_watermark (op_consensus p)"
    using decided_front_le [of "op_consensus p"] cs_invD(2) [OF inv] by simp
  then obtain p' fs where p': "finalize_all_possible (se_tbo (oe_sync E)) A (sy_view (op_sync p)) p = (p', [], Ok fs)"
      "cs_inv A (op_consensus p')" "delivered p p' fs"
    using finalize_all_possible_ok [OF inv laws(1)] room view by fastforce
  have fs: "map pcd_seq fs = [cs_seq_no (op_consensus p) ..< cs_seq_no (op_consensus p')]" "\<not> can_finalize (op_consensus p')"
      "fs \<noteq> [] \<longrightarrow> last_execution (lg_decided (cx_log (op_ctx p'))) = Some (cs_seq_no (op_consensus p') - 1)"
    using p'(3) by (auto simp: delivered_def Let_def split: if_splits)
  have "distinct (map fd_seq ds)" using ds by (cases ds) auto
  then obtain out where out: "merge_decisions E ds fs = Ok out"
    using merge_decision_vec_Ok [of ds "[]" E] by (auto simp: merge_decisions_def res_map_def)
  have dist: "distinct (map pcd_seq fs)" using fs(1) by simp
  obtain m where m: "keyed m" "sorted_wrt (<) (map fd_seq out)" "\<forall>f \<in> set fs. completed_entry E m f \<in> set out"
    by (rule merge_decisions_spec [OF laws(2) dist out])
  have "hands_over E p p' out"
    using fs m completed_carries [OF m(1)] unfolding hands_over_def by blast
  then show ?thesis using p' fs(2) out by (simp add: handle_decided_def then_op_def after_op_def)
qed

lemma decided_at_most_one:
  assumes "cs_process_message T A role nn v m c = (c', es, Ok (ConsensusStatus.Decided ds))"
  shows "length ds \<le> 1"
  using assms by (auto simp: cs_process_message_def process_at_def Let_def consensus_status_def
      split: res.splits sum.splits if_splits prod.splits DecisionStatus.splits option.splits)

lemma deciding_one:
  assumes "cs_process_message T A role nn v m c = (c', es, Ok (ConsensusStatus.Deciding ds))"
  shows "length ds = 1"
  using assms by (auto simp: cs_process_message_def process_at_def Let_def consensus_status_def
      split: res.splits sum.splits if_splits prod.splits DecisionStatus.splits option.splits)

lemma with_consensus_simps [simp]:
  "op_consensus (with_consensus c p) = c" "op_sync (with_consensus c p) = op_sync p"
  "cx_log (op_ctx (with_consensus c p)) = cx_log (op_ctx p)" "op_phase (with_consensus c p) = op_phase p"
  "op_consensus (with_sync s p) = op_consensus p" "op_sync (with_sync s p) = s"
  "cx_log (op_ctx (with_sync s p)) = cx_log (op_ctx p)" "op_phase (with_sync s p) = op_phase p"
  by (simp_all add: with_consensus_def with_sync_def)

text \<open>
  C9. What is decided is delivered in order. In the normal phase, when the protocol processes a
  consensus message, it does not panic, and if it reports progress, what it hands to the executor
  has at most one decision per sequence number, in ascending order; it contains, each completed, the
  batches of exactly the numbers from the one that was due to the one that is due afterwards, and the log
  ends with the last of them. After any other result the number that is due is unchanged, and
  a message that completes a decision leaves no decided instance at the front of the window.
\<close>

theorem normal_phase_delivers:
  assumes "cs_inv A (op_consensus p)" and "handler_laws (se_tbo (oe_sync E)) A W M" and "merge_laws E"
    and "cs_seq_no (op_consensus p) + 2 * cs_watermark (op_consensus p) < M" and "cs_watermark (op_consensus p) \<le> W"
    and "sy_view (op_sync p) = cs_curr_view (op_consensus p)" and "op_phase p = NormalPhase"
    and "is_consensus (msg m)" and "op_process_message E A m p = (p', es, r)"
  shows "r \<noteq> Panic \<and>
    (case r of
       Ok (ProgressedDecision ahead out) \<Rightarrow> hands_over E p p' out \<and>
         (cs_seq_no (op_consensus p') \<noteq> cs_seq_no (op_consensus p) \<longrightarrow> \<not> can_finalize (op_consensus p'))
     | _ \<Rightarrow> cs_seq_no (op_consensus p') = cs_seq_no (op_consensus p))"
proof -
  let ?c = "op_consensus p" and ?role = "role_of (sy_accessory (op_sync p))"
  obtain c es1 r1 where c: "cs_process_message (se_tbo (oe_sync E)) A ?role (se_nonces (oe_sync E)) (cs_curr_view ?c) m ?c = (c, es1, r1)"
    by (metis prod_cases3)
  have w: "room M ?c" using assms(4) by (simp add: room_def)
  have inv: "cs_inv A c" "r1 \<noteq> Panic" and place: "cs_seq_no c = cs_seq_no ?c" "cs_watermark c = cs_watermark ?c"
      "cs_curr_view c = cs_curr_view ?c"
    using cs_process_inv [OF assms(1,2,5) w assms(8) c] by (auto simp: same_place_def)
  let ?p = "with_consensus c p"
  have eq: "adv_consensus E A m p = (p', es, r)"
    using assms(7-9) by (auto simp: op_process_message_def update_normal_phase_def elim!: is_consensusE)
  have over: "hands_over E p q out = hands_over E ?p q out" for q out
    by (simp add: hands_over_def place)
  show ?thesis
  proof (cases "\<exists>ds. r1 = Ok (ConsensusStatus.Decided ds)")
    case True
    then obtain ds where r1: "r1 = Ok (ConsensusStatus.Decided ds)" by blast
    then have "length ds \<le> 1" using c decided_at_most_one by blast
    then obtain q out where q: "handle_decided E A ds ?p = (q, [], Ok out)" "hands_over E ?p q out" "\<not> can_finalize (op_consensus q)"
      using handle_decided_ok [of A ?p E W M ds] inv assms(2-6) place by auto
    then show ?thesis
      using eq c r1 assms(6) unfolding over
      by (auto simp: adv_consensus_def Let_def after_op_def then_op_def)
  next
    case False
    have "hands_over E ?p ?p out" if "r1 = Ok (ConsensusStatus.Deciding out)" for out
      using deciding_one [OF c [unfolded that]] by (cases out) (auto simp: hands_over_def)
    then show ?thesis
      using eq c inv(2) assms(6) False place unfolding over
      by (auto simp: adv_consensus_def Let_def split: res.splits ConsensusStatus.splits)
  qed
qed

end
