(* ===== verification/OrderRuns.thy ===== *)
theory OrderRuns
  imports OrderDelivery SyncRuns
begin

text \<open>
  Runs of the ordering protocol: messages, polls, time-outs, changes of the execution, installed
  views and sequence numbers, quorum joins and the proposer's reading of its guard, in any order.
  The invariant ties the phase of the protocol to that of the synchronizer and to the guard: the
  proposer is locked throughout the synchronisation phase, and in the normal phase the synchronizer
  is never in the middle of a view change, so that no result it returns there is one the protocol
  takes for impossible. Polling is shown to return unless an interrupted view change
  has been resumed without a value.
\<close>

subsection \<open>What a message does to the synchronizer's phase\<close>

definition changing_view :: "ProtoPhase \<Rightarrow> bool" where
  "changing_view ph = (case ph of StoppingData _ \<Rightarrow> True | Syncing \<Rightarrow> True | _ \<Rightarrow> False)"

definition quiet :: "'o sync_ctx \<Rightarrow> 'o sync_ctx \<Rightarrow> bool" where
  \<comment> \<open>the synchronizer has left the consensus handler and the log alone\<close>
  "quiet cx cx' \<longleftrightarrow> cx_consensus cx' = cx_consensus cx \<and> cx_log cx' = cx_log cx"

definition stays :: "'o sync_ctx \<Rightarrow> 'o sync_result \<Rightarrow> bool" where
  \<comment> \<open>a result without a new view; the phase is past the stopping phases only if the protocol is told to run\<close>
  "stays cx r =
     (case r of
        (cx', es, Ok StatusNil) \<Rightarrow> quiet cx cx' \<and> \<not> changing_view (sy_phase (cx_sync cx')) \<and> sy_phase (cx_sync cx') \<noteq> SyncingState
      | (cx', es, Ok Running) \<Rightarrow> quiet cx cx'
      | (cx', es, Ok _) \<Rightarrow> False
      | _ \<Rightarrow> True)"

definition advances :: "'o sync_ctx \<Rightarrow> 'o sync_result \<Rightarrow> bool" where
  \<comment> \<open>a result of the phases that complete a view change\<close>
  "advances cx r =
     (case r of
        (cx', es, Ok Running) \<Rightarrow> quiet cx cx'
      | (cx', es, Ok RunCst) \<Rightarrow> quiet cx cx'
      | (cx', es, Ok (NewView _ _)) \<Rightarrow> sy_phase (cx_sync cx') = Init
      | (cx', es, Ok (NewViewJoinedQuorum _ _ _)) \<Rightarrow> sy_phase (cx_sync cx') = Init
      | (cx', es, Ok _) \<Rightarrow> False
      | _ \<Rightarrow> True)"

lemma quiet_simps [simp]:
  "quiet cx cx" "quiet cx (on_sync f cx') = quiet cx cx'" "quiet (on_sync f cx) cx' = quiet cx cx'"
  "quiet cx (cx'\<lparr>cx_sync := s\<rparr>) = quiet cx cx'" "quiet (cx\<lparr>cx_sync := s\<rparr>) cx' = quiet cx cx'"
  by (simp_all add: quiet_def on_sync_def)

lemma changing_view_simps [simp]:
  "changing_view (StoppingData i)" "changing_view Syncing" "\<not> changing_view Init" "\<not> changing_view (Stopping i)"
  "\<not> changing_view (Stopping2 i)" "\<not> changing_view (ViewStopping i)" "\<not> changing_view (ViewStopping2 i)"
  "\<not> changing_view SyncingState"
  by (simp_all add: changing_view_def)

definition stopping :: "'o sync_ctx \<Rightarrow> bool" where
  "stopping cx \<longleftrightarrow> \<not> changing_view (sy_phase (cx_sync cx)) \<and> sy_phase (cx_sync cx) \<noteq> SyncingState"

definition plain :: "'o SynchronizerStatus \<Rightarrow> bool" where
  "plain st \<longleftrightarrow> st = StatusNil \<or> st = Running"

lemma plain_simps [simp]: "plain StatusNil" "plain Running" "plain (stop_status i v)"
  by (simp_all add: plain_def stop_status_def)

lemma stays_simps [simp]:
  "stays cx (cx', es, Panic)" "stays cx (cx', es, Err e)" "stays cx (cx', es, Ok Running) = quiet cx cx'"
  "stays (on_sync f cx) r = stays cx r" "stays (cx\<lparr>cx_sync := s\<rparr>) r = stays cx r"
  "plain st \<Longrightarrow> stopping cx \<Longrightarrow> stays cx (cx, es, Ok st)"
  by (auto simp: stays_def plain_def stopping_def split: prod.splits res.splits SynchronizerStatus.splits)

lemma advances_simps [simp]:
  "advances cx (cx', es, Panic)" "advances cx (cx', es, Err e)" "advances cx (cx', es, Ok Running) = quiet cx cx'"
  "advances cx (cx', es, Ok RunCst) = quiet cx cx'" "advances (on_sync f cx) r = advances cx r"
  "advances cx (after es' r) = advances cx r"
  by (auto simp: advances_def after_def split: prod.splits res.splits SynchronizerStatus.splits)

lemma stays_quiet: "quiet cx cx' \<Longrightarrow> plain st \<Longrightarrow> stopping cx' \<Longrightarrow> stays cx (cx', es, Ok st)"
  by (auto simp: stays_def plain_def stopping_def)

lemma enter_next_view_stays [simp]: "quiet cx cx1 \<Longrightarrow> stays cx (enter_next_view E A nv pv cx1)"
  by (auto simp: enter_next_view_def or_panic_def Let_def split: res.splits prod.splits SynchronizerAccessory.splits)

lemma queue_then_stays [simp]: "stopping cx \<Longrightarrow> plain st \<Longrightarrow> stays cx (queue_then f st cx)"
  unfolding queue_then_def by (rule stays_quiet) (auto simp: stopping_def on_sync_def quiet_def)

lemma queue_stop_data_then_stays [simp]: "stopping cx \<Longrightarrow> plain st \<Longrightarrow> stays cx (queue_stop_data_then E A m st cx)"
  by (simp add: queue_stop_data_then_def split: SynchronizerAccessory.splits)

lemma count_stop_stays:
  assumes "sy_phase (cx_sync cx) = Stopping j \<or> sy_phase (cx_sync cx) = Stopping2 j"
  shows "stays cx (count_stop E A h rqs i cx)"
proof -
  let ?cx = "on_sync (\<lambda>s. s\<lparr>sy_stopped := AList.update (hdr_from h) rqs (sy_stopped s)\<rparr>) cx"
  have "stays cx (on_sync (set_phase (Stopping i)) ?cx, [], Ok StatusNil)"
    by (rule stays_quiet) (simp_all add: stopping_def on_sync_def quiet_def)
  then show ?thesis
    using assms by (auto simp: count_stop_def Let_def or_panic_def on_sync_def quiet_def split: res.splits prod.splits)
qed

lemma process_stopping_stays:
  assumes "sy_phase (cx_sync cx) = Stopping i \<or> sy_phase (cx_sync cx) = Stopping2 i"
  shows "stays cx (process_stopping E A m message i cx)"
proof -
  have "stopping cx" using assms by (auto simp: stopping_def)
  then show ?thesis
    using count_stop_stays [OF assms]
    by (auto simp: process_stopping_def Let_def split: ViewChangeMessageKind.splits)
qed

lemma count_join_stays: "stays cx (count_join E A h node received cx)"
  by (auto simp: count_join_def Let_def or_panic_def split: option.splits res.splits)

lemma process_view_stopping_stays: "stopping cx \<Longrightarrow> stays cx (process_view_stopping E A m message i cx)"
proof -
  assume s: "stopping cx"
  have "stopping (on_sync (set_phase (Stopping 0)) cx)" by (simp add: stopping_def on_sync_def)
  from queue_then_stays [OF this] show ?thesis
    using s count_join_stays by (auto simp: process_view_stopping_def Let_def split: ViewChangeMessageKind.splits)
qed

lemma process_init_stays: "stopping cx \<Longrightarrow> stays cx (process_init E A m message cx)"
  by (auto simp: process_init_def split: ViewChangeMessageKind.splits)

lemma finished_status: "finished cr te s = (s', st) \<Longrightarrow> (\<exists>n. st = NewViewJoinedQuorum cr te n) \<or> st = NewView cr te"
  by (auto simp: finished_def Let_def split: option.splits)

lemma sy_finalize_status:
  "sy_finalize E A st cx = (cx', es, Ok r) \<Longrightarrow> (\<exists>cr te n. r = NewViewJoinedQuorum cr te n) \<or> (\<exists>cr te. r = NewView cr te)"
  by (auto simp: sy_finalize_def or_panic_def Let_def split: res.splits prod.splits dest!: finished_status)

lemma sy_finalize_advances: "advances cx' (sy_finalize E A st cx)"
proof -
  obtain cx1 es r where eq: "sy_finalize E A st cx = (cx1, es, r)" by (metis prod_cases3)
  show ?thesis
  proof (cases r)
    case (Ok status)
    then show ?thesis using eq sy_finalize_frame sy_finalize_status by (fastforce simp: advances_def)
  qed (simp_all add: eq)
qed

lemma sy_finalize_view_change_advances: "quiet cx' cx \<Longrightarrow> advances cx' (sy_finalize_view_change E A st p cx)"
  by (auto simp: sy_finalize_view_change_def or_panic_def sy_finalize_advances split: res.splits FinalizeStatus.splits)

lemma queue_then_advances [simp]: "advances cx (queue_then f Running cx)"
  by (simp add: queue_then_def)

lemma process_stopping_data_advances: "advances cx (process_stopping_data E A m message i cx)"
proof -
  have "quiet cx cx1 \<Longrightarrow> advances cx (lead_view_change E A nv cx1)" for nv cx1
    by (auto simp: lead_view_change_def or_panic_def Let_def sy_finalize_view_change_advances split: res.splits option.splits)
  then have "advances cx (count_stop_data E A m nv j cx)" for nv j
    by (simp add: count_stop_data_def Let_def)
  then show ?thesis
    by (auto simp: process_stopping_data_def or_panic_def split: SynchronizerAccessory.splits res.splits ViewChangeMessageKind.splits)
qed

lemma process_syncing_advances: "advances cx (process_syncing E A m message cx)"
  by (auto simp: process_syncing_def or_panic_def follow_view_change_def sy_finalize_view_change_advances
      queue_stop_data_then_def split: SynchronizerAccessory.splits res.splits ViewChangeMessageKind.splits)

lemma sy_process_phases:
  "if changing_view (sy_phase (cx_sync cx)) then advances cx (sy_process_message E A m cx)
   else stays cx (sy_process_message E A m cx)"
proof -
  have "stopping cx" if "sy_phase (cx_sync cx) = ph" "\<not> changing_view ph" "ph \<noteq> SyncingState" for ph
    using that by (simp add: stopping_def)
  then show ?thesis
    by (cases "sy_phase (cx_sync cx)")
      (auto simp: sy_process_message_def or_panic_def process_init_stays process_stopping_stays process_view_stopping_stays
        process_stopping_data_advances process_syncing_advances split: res.splits)
qed

subsection \<open>What leaves the lock of the guard alone\<close>

abbreviation can_propose :: "'o Consensus \<Rightarrow> bool" where
  "can_propose c \<equiv> pg_can_propose (cs_consensus_guard c)"

lemma fill_decisions_guard [simp]: "cs_consensus_guard (fill_decisions A v s c) = cs_consensus_guard c"
  by (induction A v s c rule: fill_decisions.induct) (subst fill_decisions.simps, simp)

lemma refill_guard [simp]: "cs_consensus_guard (refill T A v s c) = cs_consensus_guard c"
  by (induction T A v s c rule: refill.induct) (subst refill.simps, simp)

lemma refill_until_guard: "refill_until T A v n s c = (s', c') \<Longrightarrow> cs_consensus_guard c' = cs_consensus_guard c"
proof (induction T A v n s c rule: refill_until.induct)
  case (1 T A v n s c)
  then show ?case by (subst (asm) (2) refill_until.simps) (auto split: if_splits)
qed

lemma cs_queue_guard:
  assumes "cs_queue T A m c = Ok c'"
  shows "cs_consensus_guard c' = cs_consensus_guard c"
proof -
  obtain k where k: "consensus (msg m) = (Ok k :: (_, unit) res)"
    using assms by (auto simp: cs_queue_def res_bind_Ok_iff)
  show ?thesis
    using assms
    by (cases "index_seq A (cm_view k) (vi_seq (cs_curr_view c))";
        cases "index_seq A (PBFTMessage_sequence_number A (msg m)) (cs_seq_no c)")
      (auto simp: cs_queue_def k Let_def res_map_def enqueue_other_view_message_def split: if_splits res.splits)
qed

lemma queue_all_guard: "queue_all T A ms c = Ok c' \<Longrightarrow> cs_consensus_guard c' = cs_consensus_guard c"
  by (induction ms arbitrary: c) (auto simp: res_bind_Ok_iff dest: cs_queue_guard)

lemma cs_install_view_lock: "cs_install_view T A v c = Ok c' \<Longrightarrow> can_propose c' = can_propose c"
  by (auto simp: cs_install_view_def Let_def clear_all_queues_def guard_clear_def guard_install_view_def
      dest!: queue_all_guard split: sum.split_asm if_split_asm list.split_asm)

lemma install_sequence_number_lock: "install_sequence_number T A n v c = Ok c' \<Longrightarrow> can_propose c' = can_propose c"
  by (auto simp: install_sequence_number_def res_bind_Ok_iff Let_def install_behind_def install_beyond_def install_within_def
      clear_all_queues_def guard_clear_def install_seq_no_def
      dest!: refill_until_guard split: sum.split_asm if_split_asm list.split_asm prod.split_asm)

lemma finalize_all_possible_frame:
  "finalize_all_possible T A v p = (p', es, r) \<Longrightarrow> op_phase p' = op_phase p \<and> op_sync p' = op_sync p"
proof (induction T A v p arbitrary: p' es r rule: finalize_all_possible.induct)
  case (1 T A v p)
  show ?case
  proof (cases "can_finalize (op_consensus p)")
    case True
    obtain c es1 r1 where c: "cs_finalize T A v (op_consensus p) = (c, es1, r1)" by (metis prod_cases3)
    show ?thesis
    proof (cases "\<exists>b. r1 = Ok (Some b)")
      case ok: True
      then obtain b where b: "r1 = Ok (Some b)" by blast
      obtain log d where d: "finalize_batch b (cx_log (op_ctx p)) = (log, d)" by fastforce
      note IH = "1.IH" [OF True c [symmetric] refl b refl d [symmetric]]
      show ?thesis
        using "1.prems" True c b d IH
        by (subst (asm) finalize_all_possible.simps) (auto simp: after_op_def split: prod.splits)
    next
      case False
      then show ?thesis
        using "1.prems" True c by (subst (asm) finalize_all_possible.simps) (auto split: res.splits option.splits)
    qed
  qed (use "1.prems" in \<open>simp add: finalize_all_possible.simps\<close>)
qed

lemma handle_decided_frame: "handle_decided E A ds p = (p', es, r) \<Longrightarrow> op_phase p' = op_phase p \<and> op_sync p' = op_sync p"
  by (auto simp: handle_decided_def then_op_def after_op_def dest!: finalize_all_possible_frame split: prod.splits res.splits)

lemma handle_sync_result_frame:
  "handle_sync_result E A st te p = (p', es, r) \<Longrightarrow> op_phase p' = op_phase p \<and> op_sync p' = op_sync p"
  by (auto simp: handle_sync_result_def then_op_def after_op_def Let_def dest!: finalize_all_possible_frame
      split: prod.splits res.splits ConsensusStatus.splits)

subsection \<open>The invariant\<close>

definition awake_queue :: "'o SyncTboQueue \<Rightarrow> bool" where
  "awake_queue q \<longleftrightarrow> sq_get_queue q \<or> (\<forall>j. slot (sq_stop q) j = [])"

definition normal_ok :: "'o Synchronizer \<Rightarrow> bool" where
  "normal_ok s \<longleftrightarrow> \<not> changing_view (sy_phase s) \<and> (sy_phase s = SyncingState \<longrightarrow> sy_finalize_state s = None) \<and>
     awake_queue (sy_tbo s)"

definition op_inv :: "'o PBFTOrderProtocol \<Rightarrow> bool" where
  "op_inv p \<longleftrightarrow> (case op_phase p of SyncPhase \<Rightarrow> \<not> can_propose (op_consensus p) | NormalPhase \<Rightarrow> normal_ok (op_sync p))"

text \<open>
  Of \<open>atlas_core\<close>'s queues, besides the laws of \<open>tbo_laws\<close>: a queue whose front is not empty has a
  message to pop.
\<close>

definition order_laws :: "'o order_env \<Rightarrow> atlas \<Rightarrow> bool" where
  "order_laws E A \<longleftrightarrow> tbo_laws (se_tbo (oe_sync E)) A \<and>
     (\<forall>q. front_nonempty q \<longrightarrow> se_pop_message (oe_sync E) q \<noteq> None)"

lemma op_inv_simps:
  "op_phase p = NormalPhase \<Longrightarrow> op_inv p = normal_ok (op_sync p)"
  "op_phase p = SyncPhase \<Longrightarrow> op_inv p = (\<not> can_propose (op_consensus p))"
  by (simp_all add: op_inv_def)

lemma on_guard_simps [simp]:
  "op_phase (on_guard f p) = op_phase p" "op_sync (on_guard f p) = op_sync p" "op_guard (on_guard f p) = f (op_guard p)"
  by (simp_all add: on_guard_def)

lemma switch_phase_simps [simp]:
  "op_phase (switch_phase ph p) = ph" "op_sync (switch_phase ph p) = op_sync p"
  by (auto simp: switch_phase_def Let_def split: ConsensusPhase.splits)

lemma switch_sync_inv: "op_phase p = NormalPhase \<or> op_inv p \<Longrightarrow> op_inv (switch_phase SyncPhase p)"
proof -
  assume *: "op_phase p = NormalPhase \<or> op_inv p"
  have "\<not> can_propose (op_consensus (switch_phase SyncPhase p))"
  proof (cases "op_phase p")
    case NormalPhase
    then have "switch_phase SyncPhase p = on_guard lock_consensus (p\<lparr>op_phase := SyncPhase\<rparr>)" by (simp add: switch_phase_def)
    then show ?thesis by (simp add: lock_consensus_def)
  next
    case SyncPhase
    then have "switch_phase SyncPhase p = p" by (simp add: switch_phase_def)
    then show ?thesis using * SyncPhase by (simp add: op_inv_simps)
  qed
  then show ?thesis by (simp add: op_inv_simps)
qed

lemma switch_normal_inv: "normal_ok (op_sync p) \<Longrightarrow> op_inv (switch_phase NormalPhase p)"
  by (simp add: op_inv_simps)

lemma op_inv_same: "op_inv p \<Longrightarrow> op_phase p' = op_phase p \<Longrightarrow> op_sync p' = op_sync p \<Longrightarrow>
   can_propose (op_consensus p') = can_propose (op_consensus p) \<Longrightarrow> op_inv p'"
  by (simp add: op_inv_def split: ConsensusPhase.splits)

lemma op_inv_normal_same: "op_inv p \<Longrightarrow> op_phase p = NormalPhase \<Longrightarrow> op_phase p' = NormalPhase \<Longrightarrow>
   op_sync p' = op_sync p \<Longrightarrow> op_inv p'"
  by (simp add: op_inv_simps)

lemma op_ctx_simps [simp]:
  "op_phase (p\<lparr>op_ctx := cx\<rparr>) = op_phase p" "op_ctx (p\<lparr>op_ctx := cx\<rparr>) = cx"
  "cx_sync (on_sync f cx) = f (cx_sync cx)" "cx_consensus (on_sync f cx) = cx_consensus cx"
  by (simp_all add: on_sync_def)

lemma sy_signal_simps [simp]:
  "sy_phase (sy_signal s) = sy_phase s" "sy_finalize_state (sy_signal s) = sy_finalize_state s"
  "awake_queue (sy_tbo (sy_signal s))"
  by (simp_all add: sy_signal_def sq_signal_def awake_queue_def)

subsection \<open>Processing\<close>

lemma adv_sync_inv:
  assumes inv: "op_inv p" and eq: "adv_sync E A m p = (p', es, Ok r)"
  shows "if r = RunSyncProtocol then op_phase p' = op_phase p \<and> op_guard p' = op_guard p else op_inv p'"
proof -
  obtain cx st where cx: "sy_process_message (oe_sync E) A m (op_ctx p) = (cx, es, Ok st)"
    using eq by (auto simp: adv_sync_def Let_def split: prod.splits res.splits SynchronizerStatus.splits)
  let ?p = "p\<lparr>op_ctx := on_sync sy_signal cx\<rparr>"
  note ph = sy_process_phases [of "op_ctx p" "oe_sync E" A m, unfolded cx]
  have normal: "\<not> changing_view (sy_phase (op_sync p))" if "op_phase p = NormalPhase"
    using inv that by (simp add: op_inv_simps normal_ok_def)
  show ?thesis
  proof (cases st)
    case StatusNil
    then have "quiet (op_ctx p) cx" "\<not> changing_view (sy_phase (cx_sync cx))" "sy_phase (cx_sync cx) \<noteq> SyncingState"
      using ph by (auto simp: stays_def advances_def split: if_splits)
    then have "op_inv ?p" using inv by (cases "op_phase p") (simp_all add: op_inv_simps normal_ok_def quiet_def)
    then show ?thesis using eq cx StatusNil by (simp add: adv_sync_def)
  next
    case Running
    then show ?thesis using eq cx ph by (auto simp: adv_sync_def quiet_def split: if_splits)
  next
    case RunCst
    then have c: "quiet (op_ctx p) cx" "changing_view (sy_phase (op_sync p))"
      using ph by (auto simp: stays_def split: if_splits)
    then have "op_phase p = SyncPhase" using normal by (cases "op_phase p") auto
    then have "op_inv ?p" using inv c by (simp add: op_inv_simps quiet_def)
    then show ?thesis using eq cx RunCst switch_sync_inv by (auto simp: adv_sync_def)
  next
    case (NewView cs te)
    then have "normal_ok (op_sync ?p)" using ph by (auto simp: stays_def advances_def normal_ok_def split: if_splits)
    from switch_normal_inv [OF this] show ?thesis using eq cx NewView by (auto simp: adv_sync_def Let_def)
  next
    case (NewViewJoinedQuorum cs te n)
    then have "normal_ok (op_sync ?p)" using ph by (auto simp: stays_def advances_def normal_ok_def split: if_splits)
    from switch_normal_inv [OF this] show ?thesis using eq cx NewViewJoinedQuorum by (auto simp: adv_sync_def Let_def)
  qed (use ph in \<open>auto simp: stays_def advances_def split: if_splits\<close>)
qed

lemma off_phase_inv:
  assumes "op_inv p" and "cs_queue T A m (op_consensus p) = Ok c"
  shows "op_inv (with_consensus c p)"
  using assms(1) by (rule op_inv_same) (simp_all add: cs_queue_guard [OF assms(2)])

lemma update_sync_phase_inv:
  assumes inv: "op_inv p" and eq: "update_sync_phase E A m p = (p', es, r)" and r: "r \<noteq> Panic" and ph: "op_phase p = SyncPhase"
  shows "op_inv p'"
proof (cases "msg m")
  case (ConsensusMsg x)
  then show ?thesis using eq r off_phase_inv [OF inv] by (auto simp: update_sync_phase_def or_panic_op_def split: res.splits)
next
  case (ObserverMsg x)
  then show ?thesis using eq inv by (simp add: update_sync_phase_def)
next
  case (ViewChangeMsg v)
  obtain p1 es1 r1 where a: "adv_sync E A m p = (p1, es1, r1)" by (metis prod_cases3)
  show ?thesis
  proof (cases r1)
    case (Ok x)
    have inv1: "op_inv p1"
      using adv_sync_inv [OF inv a [unfolded Ok]] ph inv by (auto simp: op_inv_simps split: if_splits)
    show ?thesis
    proof (cases "x = SyncProtocolNotNeeded \<or> x = RunSyncProtocol \<or> x = RunCSTProtocol")
      case True
      then show ?thesis using inv1 eq a Ok ViewChangeMsg by (auto simp: update_sync_phase_def then_op_def after_op_def)
    next
      case False
      have n: "op_phase p1 = NormalPhase"
        using False a Ok by (auto simp: adv_sync_def Let_def split: prod.splits res.splits SynchronizerStatus.splits)
      have "op_inv p2" if "handle_sync_result E A st te p1 = (p2, es2, r2)" for st te p2 es2 r2
        using handle_sync_result_frame [OF that] op_inv_normal_same [OF inv1 n] n by simp
      then show ?thesis
        using False eq a Ok ViewChangeMsg
        by (cases x) (auto simp: update_sync_phase_def then_op_def after_op_def Let_def split: prod.splits res.splits)
    qed
  next
    case (Err e)
    then show ?thesis using a by (auto simp: adv_sync_def Let_def split: prod.splits res.splits SynchronizerStatus.splits)
  next
    case Panic
    then show ?thesis using a eq r ViewChangeMsg by (auto simp: update_sync_phase_def then_op_def)
  qed
qed

lemma adv_consensus_frame:
  "adv_consensus E A m p = (p', es, r) \<Longrightarrow> op_phase p' = op_phase p \<and> op_sync p' = op_sync p"
  by (auto simp: adv_consensus_def Let_def then_op_def after_op_def dest!: handle_decided_frame
      split: prod.splits res.splits ConsensusStatus.splits)

lemma update_normal_phase_inv:
  assumes inv: "op_inv p" and eq: "update_normal_phase E A m p = (p', es, r)" and r: "r \<noteq> Panic" and ph: "op_phase p = NormalPhase"
  shows "op_inv p'"
proof (cases "msg m")
  case (ConsensusMsg x)
  then show ?thesis
    using eq ph adv_consensus_frame [of E A m p p' es r] op_inv_normal_same [OF inv ph] by (auto simp: update_normal_phase_def)
next
  case (ObserverMsg x)
  then show ?thesis using eq inv by (simp add: update_normal_phase_def)
next
  case (ViewChangeMsg v)
  obtain cx st where cx: "sy_process_message (oe_sync E) A m (op_ctx p) = (cx, es, Ok st)" "plain st"
      "p' = (let q = p\<lparr>op_ctx := on_sync sy_signal cx\<rparr> in if st = StatusNil then q else switch_phase SyncPhase q)"
    using eq r ViewChangeMsg
    by (auto simp: update_normal_phase_def Let_def plain_def split: prod.splits res.splits SynchronizerStatus.splits)
  have "\<not> changing_view (sy_phase (op_sync p))" using inv ph by (simp add: op_inv_simps normal_ok_def)
  then have "stays (op_ctx p) (cx, es, Ok st)" using sy_process_phases [of "op_ctx p" "oe_sync E" A m] cx(1) by simp
  then show ?thesis
    using cx(2,3) ph switch_sync_inv [of "p\<lparr>op_ctx := on_sync sy_signal cx\<rparr>"]
    by (auto simp: stays_def plain_def op_inv_simps normal_ok_def)
qed

subsection \<open>Polling\<close>

lemma slot_0: "front_nonempty q \<longleftrightarrow> slot q 0 \<noteq> []"
  by (auto simp: front_nonempty_def slot_def split: list.splits)

lemma sy_poll_sync_inv:
  assumes "op_inv p" and "op_phase p = SyncPhase"
  shows "op_inv (with_sync s p)"
  using assms by (simp add: op_inv_simps)

lemma advance_view_queue:
  "advance_view T A s = Ok (s', b) \<Longrightarrow> sq_get_queue (sy_tbo s) \<Longrightarrow> sq_get_queue (sy_tbo s')"
proof -
  have "sq_get_queue ((sq_next_instance_queue T ^^ i) q) = sq_get_queue q" for i and q :: "'a SyncTboQueue"
    by (induction i) (simp_all add: sq_next_instance_queue_def)
  then show "advance_view T A s = Ok (s', b) \<Longrightarrow> sq_get_queue (sy_tbo s) \<Longrightarrow> sq_get_queue (sy_tbo s')"
    by (auto simp: advance_view_def sq_advance_def sq_install_view_def res_map_def split: option.splits sum.splits if_splits)
qed

lemma sy_finalize_queue:
  assumes "sy_finalize E A st cx = (cx', es, Ok r)" and "sq_get_queue (sy_tbo (cx_sync cx))"
  shows "sq_get_queue (sy_tbo (cx_sync cx'))"
proof -
  obtain s b where s: "advance_view (se_tbo E) A (cx_sync cx) = (Ok (s, b) :: (_, unit) res)"
    using assms(1) by (auto simp: sy_finalize_def or_panic_def split: res.splits)
  obtain cx1 es1 te where c: "catch_up E A (sy_view s) st (cx\<lparr>cx_sync := s\<rparr>) = (cx1, es1, Ok te)"
    using assms(1) s by (auto simp: sy_finalize_def or_panic_def Let_def split: res.splits prod.splits)
  have "cx_sync cx1 = s" using catch_up_frame [OF c] by simp
  moreover have "sy_tbo s2 = sy_tbo s1" if "finished cr te s1 = (s2, st2)" for cr te and s1 s2 :: "'a Synchronizer" and st2
    using that by (auto simp: finished_def Let_def set_phase_def split: option.splits)
  ultimately show ?thesis
    using assms s c advance_view_queue [OF s]
    by (auto simp: sy_finalize_def or_panic_def Let_def split: res.splits prod.splits)
qed

lemma resume_normal_ok:
  assumes eq: "resume_view_change E A cx = (cx', es, Ok st)" and ph: "sy_phase (cx_sync cx) = SyncingState"
    and q: "sq_get_queue (sy_tbo (cx_sync cx))" and zero: "u32_of_seq A (ZERO A) = 0"
  shows "normal_ok (cx_sync cx')"
proof (cases "sy_finalize_state (cx_sync cx)")
  case None
  then show ?thesis using eq ph q by (auto simp: resume_view_change_def normal_ok_def awake_queue_def)
next
  case (Some state)
  let ?cx = "on_sync (\<lambda>s. s\<lparr>sy_finalize_state := None\<rparr>) cx"
  obtain r where r: "sy_finalize_view_change E A state None ?cx = (cx', es, Ok r)"
    using eq Some by (auto simp: resume_view_change_def res_map_def split: prod.splits res.splits)
  then consider "cx' = ?cx" | state' where "sy_finalize E A state' ?cx = (cx', es, Ok r)"
    using zero by (auto simp: sy_finalize_view_change_def or_panic_def pre_finalize_def Let_def
        split: res.splits FinalizeStatus.splits if_splits ConsensusMessageKind.splits)
  then show ?thesis
  proof cases
    case 1
    then show ?thesis using ph q by (simp add: normal_ok_def awake_queue_def)
  next
    case 2
    from sy_finalize_frame [OF this] sy_finalize_queue [OF this] q show ?thesis
      by (simp add: normal_ok_def awake_queue_def)
  qed
qed

lemma resumed_frame: "resumed E A st p = (p', es, r) \<Longrightarrow> op_phase p' = op_phase p \<and> op_sync p' = op_sync p"
  by (auto simp: resumed_def then_op_def after_op_def dest!: handle_sync_result_frame
      split: option.splits SynchronizerStatus.splits prod.splits res.splits)

lemma sy_poll_ResumeD:
  "sy_poll E s = Ok (s', ResumeViewChange) \<Longrightarrow> s' = s \<and> sy_phase s = SyncingState \<and> sq_get_queue (sy_tbo s)"
  by (auto simp: sy_poll_def Let_def extract_msg_def res_map_def
      split: if_splits ProtoPhase.splits prod.splits option.splits res.splits)

lemma poll_sync_phase_inv:
  assumes inv: "op_inv p" and eq: "poll_sync_phase E A p = (p', es, r)" and r: "r \<noteq> Panic"
    and ph: "op_phase p = SyncPhase" and zero: "u32_of_seq A (ZERO A) = 0"
  shows "op_inv p'"
proof -
  obtain s st where s: "sy_poll (oe_sync E) (op_sync p) = (Ok (s, st) :: (_, unit) res)"
    using eq r by (auto simp: poll_sync_phase_def or_panic_op_def split: res.splits)
  show ?thesis
  proof (cases "st = ResumeViewChange")
    case False
    then show ?thesis using s eq sy_poll_sync_inv [OF inv ph]
      by (cases st) (auto simp: poll_sync_phase_def or_panic_op_def Let_def)
  next
    case True
    note res = sy_poll_ResumeD [OF s [unfolded True]]
    obtain cx es1 st1 es2 where cx: "resume_view_change (oe_sync E) A (op_ctx p) = (cx, es1, Ok st1)"
        and p': "resumed E A st1 (switch_phase NormalPhase (p\<lparr>op_ctx := cx\<rparr>)) = (p', es2, r)"
      using eq s True res r
      by (auto simp: poll_sync_phase_def or_panic_op_def Let_def after_op_def with_sync_def split: prod.splits res.splits)
    have "normal_ok (cx_sync cx)" using resume_normal_ok [OF cx _ _ zero] res by auto
    then show ?thesis using resumed_frame [OF p'] by (simp add: op_inv_simps)
  qed
qed

definition stuck :: "'o PBFTOrderProtocol \<Rightarrow> bool" where
  \<comment> \<open>a view change resumed without a value, and \<open>STOP\<close>s that wait to be processed\<close>
  "stuck p \<longleftrightarrow> op_phase p = NormalPhase \<and> sy_phase (op_sync p) = SyncingState \<and> sq_can_process_stops (sy_tbo (op_sync p))"

lemma normal_awake: "normal_ok s \<Longrightarrow> sq_can_process_stops (sy_tbo s) \<Longrightarrow> sq_get_queue (sy_tbo s)"
  by (auto simp: normal_ok_def awake_queue_def sq_can_process_stops_def slot_0)

lemma sy_poll_stop:
  assumes ok: "normal_ok s" and stops: "sq_can_process_stops (sy_tbo s)" and ph: "sy_phase s \<noteq> SyncingState"
    and laws: "order_laws E A"
  shows "sy_poll (oe_sync E) s = (Panic :: (_, unit) res) \<or>
    (\<exists>s' m. sy_poll (oe_sync E) s = (Ok (s', SyncNextMessage m) :: (_, unit) res) \<and> normal_ok s')"
proof -
  obtain m q where pop: "se_pop_message (oe_sync E) (sq_stop (sy_tbo s)) = Some (m, q)"
    using laws stops by (fastforce simp: order_laws_def sq_can_process_stops_def)
  have view: "(\<exists>v. view_change (msg m) = (Ok v :: (_, unit) res)) \<or> view_change (msg m) = (Panic :: (_, unit) res)"
    by (cases "msg m") (simp_all add: view_change_def)
  have phase: "normal_ok (s\<lparr>sy_tbo := put_stop q (sy_tbo s), sy_phase := x\<rparr>)"
    if "\<not> changing_view x" "x \<noteq> SyncingState" for x
    using that normal_awake [OF ok stops] by (simp add: normal_ok_def awake_queue_def put_stop_def)
  have "normal_ok (s\<lparr>sy_tbo := put_stop q (sy_tbo s)\<rparr>)"
    using ok ph normal_awake [OF ok stops] by (simp add: normal_ok_def awake_queue_def put_stop_def)
  then show ?thesis
    using normal_awake [OF ok stops] ok ph view phase pop
    by (cases "sy_phase s")
      (auto simp: sy_poll_def Let_def extract_msg_def normal_ok_def phase_after_poll_def res_map_def
        split: ViewChangeMessageKind.splits)
qed

lemma poll_stop_inv:
  assumes inv: "op_inv p" and ph: "op_phase p = NormalPhase" and eq: "poll_stop E A m p = (p', es, r)" and r: "r \<noteq> Panic"
  shows "op_inv p'"
proof -
  obtain p1 es1 x where a: "adv_sync E A m p = (p1, es1, Ok x)"
      and p': "p' = (if x = RunSyncProtocol then switch_phase SyncPhase p1 else p1)"
    using eq r by (auto simp: poll_stop_def then_op_def after_op_def adv_sync_def Let_def
        split: PBFTMessage.splits prod.splits res.splits SynchronizerStatus.splits)
  from adv_sync_inv [OF inv a] ph switch_sync_inv [of p1] show ?thesis by (auto simp: p' split: if_splits)
qed

lemma poll_consensus_frame:
  "poll_consensus E A p = (p', es, r) \<Longrightarrow> op_phase p' = op_phase p \<and> op_sync p' = op_sync p"
  by (auto simp: poll_consensus_def Let_def then_op_def after_op_def dest!: handle_decided_frame
      split: prod.splits res.splits ConsensusPollStatus.splits)

lemma poll_normal_round_ends:
  assumes inv: "op_inv p" and ph: "op_phase p = NormalPhase" and laws: "order_laws E A" and "\<not> stuck p"
  shows "\<exists>p' es r. poll_normal_round E A p = Inr (p', es, r) \<and> (r \<noteq> Panic \<longrightarrow> op_inv p')"
proof (cases "sq_can_process_stops (sy_tbo (op_sync p))")
  case False
  obtain p' es r where r: "poll_consensus E A p = (p', es, r)" by (metis prod_cases3)
  then have "op_inv p'" using poll_consensus_frame [OF r] ph op_inv_normal_same [OF inv ph] by simp
  with r False show ?thesis by (simp add: poll_normal_round_def)
next
  case True
  then have "sy_phase (op_sync p) \<noteq> SyncingState" using assms(4) ph by (simp add: stuck_def)
  from sy_poll_stop [OF _ True this laws] inv ph consider
      "sy_poll (oe_sync E) (op_sync p) = (Panic :: (_, unit) res)"
    | s m where "sy_poll (oe_sync E) (op_sync p) = (Ok (s, SyncNextMessage m) :: (_, unit) res)" "normal_ok s"
    by (auto simp: op_inv_simps)
  then show ?thesis
  proof cases
    case 1
    then show ?thesis using True by (simp add: poll_normal_round_def poll_sync_phase_def or_panic_op_def)
  next
    case 2
    obtain p' es r where r: "poll_stop E A m (with_sync s p) = (p', es, r)" by (metis prod_cases3)
    have "op_inv (with_sync s p)" using 2(2) ph by (simp add: op_inv_simps)
    then have "r \<noteq> Panic \<longrightarrow> op_inv p'" using poll_stop_inv [OF _ _ r] ph by auto
    with 2(1) r True show ?thesis by (simp add: poll_normal_round_def poll_sync_phase_def or_panic_op_def after_op_def)
  qed
qed

lemma stuck_round:
  assumes inv: "op_inv p" and "stuck p"
  shows "poll_normal_round E A p = Inl (p, [])"
proof -
  have ph: "op_phase p = NormalPhase" "sy_phase (op_sync p) = SyncingState" "sq_can_process_stops (sy_tbo (op_sync p))"
    using assms(2) by (simp_all add: stuck_def)
  have ok: "normal_ok (op_sync p)" using inv ph by (simp add: op_inv_simps)
  have "sy_poll (oe_sync E) (op_sync p) = (Ok (op_sync p, ResumeViewChange) :: (_, unit) res)"
    using ph normal_awake [OF ok ph(3)] by (simp add: sy_poll_def Let_def)
  moreover have "with_sync (op_sync p) p = p" "switch_phase NormalPhase p = p"
    using ph by (simp_all add: with_sync_def switch_phase_def)
  moreover have "resume_view_change (oe_sync E) A (op_ctx p) = (op_ctx p, [], Ok None)"
    using ok ph by (simp add: resume_view_change_def normal_ok_def)
  ultimately show ?thesis
    using ph by (simp add: poll_normal_round_def poll_sync_phase_def or_panic_op_def resumed_def after_op_def Let_def with_sync_def)
qed

lemma stuck_poll_None:
  assumes "op_inv p" and "stuck p"
  shows "poll_normal_phase E A p = None"
proof -
  have "\<not> (op_inv p \<and> stuck p)" if "poll_normal_phase E A p = Some r" for r
    using that
  proof (rule poll_normal_phase.raw_induct [rotated])
    fix f E A p r
    assume IH: "\<And>E A p r. f E A p = Some r \<Longrightarrow> \<not> (op_inv p \<and> stuck p)"
      and eq: "(case poll_normal_round E A p of Inr r \<Rightarrow> Some r
          | Inl (p, es) \<Rightarrow> Option.bind (f E A p) (\<lambda>r. Some (after_op es r))) = Some r"
    show "\<not> (op_inv p \<and> stuck p)"
    proof
      assume "op_inv p \<and> stuck p"
      then show False using IH [of E A p] eq by (auto simp: stuck_round split: Option.bind_split_asm)
    qed
  qed
  then show ?thesis using assms by (metis not_Some_eq)
qed

lemma poll_returns_iff:
  assumes "op_inv p" and "order_laws E A"
  shows "poll E A p = None \<longleftrightarrow> stuck p"
proof (cases "op_phase p")
  case NormalPhase
  show ?thesis
  proof (cases "stuck p")
    case True
    then show ?thesis using stuck_poll_None [OF assms(1)] NormalPhase by (simp add: poll_def)
  next
    case False
    then obtain r where "poll_normal_round E A p = Inr r"
      using poll_normal_round_ends [OF assms(1) NormalPhase assms(2)] by blast
    then show ?thesis using NormalPhase False by (simp add: poll_def poll_normal_phase.simps)
  qed
next
  case SyncPhase
  then show ?thesis by (simp add: poll_def stuck_def)
qed

lemma poll_inv:
  assumes inv: "op_inv p" and laws: "order_laws E A" "u32_of_seq A (ZERO A) = 0"
    and eq: "poll E A p = Some (p', es, r)" and r: "r \<noteq> Panic"
  shows "op_inv p'"
proof (cases "op_phase p")
  case NormalPhase
  have "\<not> stuck p" using eq poll_returns_iff [OF inv laws(1)] by auto
  from poll_normal_round_ends [OF inv NormalPhase laws(1) this] eq r NormalPhase show ?thesis
    by (auto simp: poll_def poll_normal_phase.simps)
next
  case SyncPhase
  then show ?thesis using eq poll_sync_phase_inv [OF inv _ r SyncPhase laws(2)] by (simp add: poll_def)
qed

subsection \<open>The other operations\<close>

lemma with_sync_inv: "op_inv p \<Longrightarrow> (op_phase p = NormalPhase \<Longrightarrow> normal_ok s) \<Longrightarrow> op_inv (with_sync s p)"
  by (cases "op_phase p") (simp_all add: op_inv_simps)

lemma off_ctx_order_inv:
  assumes inv: "op_inv p" and eq: "op_handle_off_ctx_message E A m p = (p', es, r)" and "r \<noteq> Panic"
  shows "op_inv p'"
proof -
  have "op_inv (with_sync (sy_signal s) p)" if "sy_queue T A m (op_sync p) = (Ok s :: (_, unit) res)" for T s
    using inv
  proof (rule with_sync_inv)
    assume "op_phase p = NormalPhase"
    then show "normal_ok (sy_signal s)"
      using that inv by (auto simp: op_inv_simps normal_ok_def sy_queue_def res_map_def split: res.splits)
  qed
  then show ?thesis
    using assms(2,3) off_phase_inv [OF inv]
    by (auto simp: op_handle_off_ctx_message_def or_panic_op_def split: PBFTMessage.splits res.splits)
qed

lemma begin_view_change_timeout_inv:
  "op_inv p \<Longrightarrow> op_inv (with_sync s (switch_phase SyncPhase p))"
  using switch_sync_inv [of p] by (intro with_sync_inv) simp_all

lemma timeout_order_inv:
  assumes inv: "op_inv p" and eq: "op_handle_timeout E A ts p = (p', es, r)"
  shows "op_inv p'"
  using eq inv begin_view_change_timeout_inv [OF inv]
  by (auto simp: op_handle_timeout_def then_op_def after_op_def Let_def
      split: if_splits SynchronizerStatus.splits option.splits prod.splits)

lemma install_slots:
  assumes "tbo_laws T A"
  shows "awake_queue q \<Longrightarrow> awake_queue ((sq_next_instance_queue T ^^ i) q)"
proof (induction i)
  case (Suc i)
  then show ?case using assms by (auto simp: awake_queue_def sq_next_instance_queue_def tbo_laws_def)
qed simp

lemma sy_install_view_normal:
  assumes "tbo_laws T A" and "normal_ok s" and "sy_install_view T A v s = Ok (s', b)"
  shows "normal_ok s'"
proof -
  have "awake_queue ((sq_next_instance_queue T ^^ i) ((sy_tbo s)\<lparr>sq_view := v, sq_previous_view := pv\<rparr>))" for i pv
    using assms(2) by (intro install_slots [OF assms(1)]) (auto simp: normal_ok_def awake_queue_def)
  then show ?thesis
    using assms(2,3) by (auto simp: sy_install_view_def sq_install_view_def res_map_def normal_ok_def
        split: sum.splits if_splits)
qed

lemma received_view_after_previous_normal:
  assumes laws: "tbo_laws T A" and ok: "normal_ok s" and eq: "received_view_after_previous T A v s = (Ok (s', b) :: (_, unit) res)"
  shows "b \<or> normal_ok s'"
proof -
  have "b \<or> (\<exists>b'. sy_install_view T A v s = (Ok (s', b') :: (_, unit) res))"
    using eq by (auto simp: received_view_after_previous_def res_bind_Ok_iff res_map_def split: if_split_asm res.split_asm)
  then show ?thesis using sy_install_view_normal [OF laws ok, where 'b = unit] by blast
qed

lemma received_view_normal:
  assumes laws: "tbo_laws T A" and ok: "normal_ok s"
    and eq: "received_view_from_state_transfer T A v s = (Ok (s', b) :: (_, unit) res)"
  shows "b \<or> normal_ok s'"
proof -
  have init: "normal_ok (s1\<lparr>sy_phase := Init\<rparr>)" if "normal_ok s1" for s1 :: "'a Synchronizer"
    using that by (simp add: normal_ok_def)
  note install = sy_install_view_normal [OF laws ok, where 'b = unit]
  obtain prev where prev: "previous_view A v = (Ok prev :: (_, unit) res)"
    using eq by (auto simp: received_view_from_state_transfer_def res_bind_Ok_iff)
  show ?thesis
  proof (cases prev)
    case None
    then obtain s1 b1 where "sy_install_view T A v s = (Ok (s1, b1) :: (_, unit) res)"
        "s' = (if \<not> b1 then s1\<lparr>sy_phase := Init\<rparr> else s1)"
      using eq prev by (auto simp: received_view_from_state_transfer_def res_map_def split: res.split_asm)
    then show ?thesis using install init by simp
  next
    case (Some pv)
    have "\<exists>s1. normal_ok s1 \<and> received_view_after_previous T A v s1 = (Ok (s', b) :: (_, unit) res)"
    proof (cases "vi_seq (sy_view s) = vi_seq pv")
      case True
      then show ?thesis using eq prev Some ok by (auto simp: received_view_from_state_transfer_def)
    next
      case False
      then obtain s1 b1 where s1: "sy_install_view T A pv s = (Ok (s1, b1) :: (_, unit) res)"
          "received_view_after_previous T A v (if \<not> b1 then s1\<lparr>sy_phase := Init\<rparr> else s1) = (Ok (s', b) :: (_, unit) res)"
        using eq prev Some by (auto simp: received_view_from_state_transfer_def res_bind_Ok_iff)
      then have "normal_ok (if \<not> b1 then s1\<lparr>sy_phase := Init\<rparr> else s1)" using install init by simp
      then show ?thesis using s1(2) by blast
    qed
    then show ?thesis using received_view_after_previous_normal [OF laws] by blast
  qed
qed

lemma install_view_order_inv:
  assumes inv: "op_inv p" and laws: "tbo_laws T A" and eq: "op_install_view T A v p = (p', es, r)" and r: "r \<noteq> Panic"
  shows "op_inv p'"
proof (cases "p' = p")
  case False
  then obtain c s b where c: "cs_install_view T A v (op_consensus p) = Ok c"
      and s: "received_view_from_state_transfer T A v (op_sync p) = (Ok (s, b) :: (_, unit) res)"
      and p': "p' = (let q = with_sync s (with_consensus c p) in if b then switch_phase SyncPhase q else q)"
    using eq r by (auto simp: op_install_view_def or_panic_op_def Let_def split: sum.splits if_splits res.splits)
  have "op_inv (with_consensus c p)"
    using inv by (rule op_inv_same) (simp_all add: cs_install_view_lock [OF c])
  moreover have "b \<or> normal_ok s" if "op_phase p = NormalPhase"
    using received_view_normal [OF laws _ s] inv that by (simp add: op_inv_simps)
  ultimately show ?thesis
    using switch_sync_inv [of "with_sync s (with_consensus c p)"] with_sync_inv [of "with_consensus c p" s]
    by (cases "op_phase p") (auto simp: p' Let_def)
qed (use inv in simp)

lemma node_join_inv:
  assumes inv: "op_inv p" and eq: "attempt_quorum_node_join E A n p = (p', es, r)" and r: "r \<noteq> Panic"
  shows "op_inv p'"
proof -
  obtain s x where s: "start_join_quorum (oe_sync E) A n (op_sync p) = (s, es, (Ok x :: (_, unit) res))" "p' = with_sync s p"
    using eq r by (auto simp: attempt_quorum_node_join_def Let_def split: prod.splits res.splits)
  have "normal_ok s" if "op_phase p = NormalPhase"
  proof -
    have "normal_ok (op_sync p)" using inv that by (simp add: op_inv_simps)
    then show ?thesis
      using s(1) by (auto simp: start_join_quorum_def begin_quorum_view_change_def clear_view_change_def normal_ok_def set_phase_def
          Let_def split: if_splits ProtoPhase.splits)
  qed
  then show ?thesis using with_sync_inv [OF inv] s(2) by simp
qed

lemma res_map_Ok_iff: "res_map f r = Ok b \<longleftrightarrow> (\<exists>a. r = Ok a \<and> b = f a)"
  by (auto simp: res_map_def split: res.splits)

lemma joining_quorum_inv:
  assumes inv: "op_inv p" and eq: "joining_quorum E A p = (p', es, r)" and r: "r \<noteq> Panic"
  shows "op_inv p'"
proof -
  obtain s x where s: "attempt_join_quorum (oe_sync E) A (op_sync p) = (Ok (s, x) :: (_, unit) res)"
      and p': "p' = (let q = with_sync s p in if x = ReconfigurationAttemptResult.InProgress then switch_phase SyncPhase q else q)"
    using eq r by (auto simp: joining_quorum_def or_panic_op_def Let_def split: res.splits)
  have keep: "x = ReconfigurationAttemptResult.InProgress \<or> with_sync s p = p"
    using s by (auto simp: attempt_join_quorum_def res_bind_Ok_iff res_map_Ok_iff with_sync_def split: if_split_asm)
  have "op_phase p = NormalPhase \<or> op_inv (with_sync s p)"
    using inv sy_poll_sync_inv [OF inv] by (cases "op_phase p") auto
  then show ?thesis using keep p' inv switch_sync_inv [of "with_sync s p"] by (auto simp: Let_def)
qed

lemma execution_inv: "op_inv p \<Longrightarrow> op_inv (handle_execution_changed x p)"
proof -
  assume inv: "op_inv p"
  have "op_inv (on_guard lock_consensus p)"
    using inv by (cases "op_phase p") (simp_all add: op_inv_simps lock_consensus_def)
  moreover have "op_inv (on_guard unlock_consensus p)" if "op_phase p = NormalPhase"
    using inv that by (simp add: op_inv_simps)
  ultimately show ?thesis using inv by (auto simp: handle_execution_changed_def split: ConsensusPhase.splits)
qed

subsection \<open>Runs\<close>

text \<open>
  One step of the protocol or of a thread that shares its state. The \<open>background\<close> steps are
  those of the instances' speculative votes and of the proposer, which reads the guard and takes
  numbers from it; neither writes whether the proposer may propose. A panic ends the process, so a
  step has one of the other results.
\<close>

inductive op_step :: "atlas \<Rightarrow> 'o PBFTOrderProtocol \<Rightarrow> 'o PBFTOrderProtocol \<Rightarrow> bool" for A where
  processed: "order_laws E A \<Longrightarrow> op_process_message E A m p = (p', es, r) \<Longrightarrow> r \<noteq> Panic \<Longrightarrow> op_step A p p'"
| polled: "order_laws E A \<Longrightarrow> poll E A p = Some (p', es, r) \<Longrightarrow> r \<noteq> Panic \<Longrightarrow> op_step A p p'"
| off_context: "order_laws E A \<Longrightarrow> op_handle_off_ctx_message E A m p = (p', es, r) \<Longrightarrow> r \<noteq> Panic \<Longrightarrow> op_step A p p'"
| timed_out: "order_laws E A \<Longrightarrow> op_handle_timeout E A ts p = (p', es, r) \<Longrightarrow> r \<noteq> Panic \<Longrightarrow> op_step A p p'"
| execution: "op_step A p (handle_execution_changed b p)"
| seq_installed: "op_install_seq_no T A n p = (p', es, r) \<Longrightarrow> r \<noteq> Panic \<Longrightarrow> op_step A p p'"
| view_installed: "tbo_laws T A \<Longrightarrow> op_install_view T A v p = (p', es, r) \<Longrightarrow> r \<noteq> Panic \<Longrightarrow> op_step A p p'"
| node_join: "attempt_quorum_node_join E A n p = (p', es, r) \<Longrightarrow> r \<noteq> Panic \<Longrightarrow> op_step A p p'"
| joining: "joining_quorum E A p = (p', es, r) \<Longrightarrow> r \<noteq> Panic \<Longrightarrow> op_step A p p'"
| background: "can_propose c = can_propose (op_consensus p) \<Longrightarrow> op_step A p (with_consensus c p)"

inductive op_run :: "atlas \<Rightarrow> 'o PBFTOrderProtocol \<Rightarrow> 'o PBFTOrderProtocol \<Rightarrow> bool" for A p0 where
  start: "op_run A p0 p0"
| step: "op_run A p0 p \<Longrightarrow> op_step A p p' \<Longrightarrow> op_run A p0 p'"

lemma op_process_inv:
  assumes "op_inv p" and "op_process_message E A m p = (p', es, r)" and "r \<noteq> Panic"
  shows "op_inv p'"
  using assms update_normal_phase_inv [OF assms(1) _ assms(3)] update_sync_phase_inv [OF assms(1) _ assms(3)]
  by (cases "op_phase p") (auto simp: op_process_message_def)

lemma op_step_inv:
  assumes "op_step A p p'" and inv: "op_inv p" and zero: "u32_of_seq A (ZERO A) = 0"
  shows "op_inv p'"
  using assms(1)
proof cases
  case (processed E m es r)
  then show ?thesis using op_process_inv [OF inv] by blast
next
  case (polled E es r)
  then show ?thesis using poll_inv [OF inv _ zero] by blast
next
  case (off_context E m es r)
  then show ?thesis using off_ctx_order_inv [OF inv] by blast
next
  case (timed_out E ts es r)
  then show ?thesis using timeout_order_inv [OF inv] by blast
next
  case (execution b)
  then show ?thesis using execution_inv [OF inv] by simp
next
  case (seq_installed T n es r)
  then obtain c where c: "install_sequence_number T A n (sy_view (op_sync p)) (op_consensus p) = Ok c" "p' = with_consensus c p"
    by (auto simp: op_install_seq_no_def or_panic_op_def split: res.splits)
  show ?thesis
    using inv by (rule op_inv_same) (simp_all add: c(2) install_sequence_number_lock [OF c(1)])
next
  case (view_installed T v es r)
  then show ?thesis using install_view_order_inv [OF inv] by blast
next
  case (node_join E n es r)
  then show ?thesis using node_join_inv [OF inv] by blast
next
  case (joining E es r)
  then show ?thesis using joining_quorum_inv [OF inv] by blast
next
  case (background c)
  show ?thesis using inv by (rule op_inv_same) (simp_all add: background)
qed

lemma initialize_protocol_inv:
  assumes "initialize_protocol A node q t w = Ok p"
  shows "op_inv p"
proof -
  have "normal_ok (new_synchronizer n v acc)" for n v acc
    by (simp add: new_synchronizer_def normal_ok_def awake_queue_def SyncTboQueue_new_def slot_def)
  then show ?thesis
    using assms by (auto simp: initialize_protocol_def initialize_with_quorum_def Synchronizer_new_replica_def Let_def
        op_inv_simps res_map_def res_bind_def split: res.splits)
qed

lemma op_run_inv:
  assumes "op_run A p0 p" and "initialize_protocol A node q t w = Ok p0" and "u32_of_seq A (ZERO A) = 0"
  shows "op_inv p"
  using assms(1)
proof induction
  case start
  then show ?case using assms(2) by (rule initialize_protocol_inv)
next
  case (step p p')
  then show ?case using op_step_inv assms(3) by blast
qed

text \<open>
  C10. The proposer is locked during a view change. In every run of the protocol, from its
  initialisation on and whatever happens in it: while the protocol is in the synchronisation phase
  the proposer may not propose, also when the execution is resumed meanwhile. In
  the normal phase the synchronizer answers no message with a new view or a request for state
  transfer, so the arm of \<open>update_normal_phase\<close> for these is indeed unreachable.
\<close>

theorem sync_phase_locks_proposer:
  assumes "op_run A p0 p" and "initialize_protocol A node quorum timeout_dur watermark = Ok p0"
    and "u32_of_seq A (ZERO A) = 0"
  shows "(op_phase p = SyncPhase \<longrightarrow> \<not> pg_can_propose (op_guard p) \<and> \<not> pg_can_propose (op_guard (handle_execution_changed True p))) \<and>
    (op_phase p = NormalPhase \<longrightarrow>
      (case sy_process_message E A m (op_ctx p) of
         (cx, es, Ok status) \<Rightarrow> status = StatusNil \<or> status = Running
       | _ \<Rightarrow> True))"
proof -
  have inv: "op_inv p" by (rule op_run_inv [OF assms])
  have "op_inv (handle_execution_changed True p)" by (rule execution_inv [OF inv])
  then have "op_phase p = SyncPhase \<longrightarrow> \<not> pg_can_propose (op_guard p) \<and> \<not> pg_can_propose (op_guard (handle_execution_changed True p))"
    using inv by (auto simp: op_inv_simps handle_execution_changed_def)
  moreover have "stays (op_ctx p) (sy_process_message E A m (op_ctx p))" if "op_phase p = NormalPhase"
    using inv that sy_process_phases [of "op_ctx p" E A m] by (simp add: op_inv_simps normal_ok_def)
  ultimately show ?thesis by (auto simp: stays_def split: prod.splits res.splits SynchronizerStatus.splits)
qed

text \<open>
  C12. When polling returns. In every state of a run \<open>poll\<close> returns, except when an interrupted view
  change was resumed without a value and \<open>STOP\<close> messages wait to be processed: then, and only then,
  the loop of \<open>poll_normal_phase\<close> runs for ever.
\<close>

theorem poll_terminates_iff:
  assumes "op_run A p0 p" and "initialize_protocol A node quorum timeout_dur watermark = Ok p0"
    and "u32_of_seq A (ZERO A) = 0" and "order_laws E A"
  shows "(\<exists>r. poll E A p = Some r) \<longleftrightarrow>
    \<not> (op_phase p = NormalPhase \<and> sy_phase (op_sync p) = SyncingState \<and> sq_can_process_stops (sy_tbo (op_sync p)))"
  using poll_returns_iff [OF op_run_inv [OF assms(1-3)] assms(4)] by (auto simp: stuck_def)

end
