(* ===== verification/OrderExample.thy ===== *)
theory OrderExample
  imports OrderRuns SyncExample
begin

text \<open>
  Concrete states of the ordering protocol on which the theorems of \<open>OrderDelivery\<close> and
  \<open>OrderRuns\<close> are applied: a single replica that decides a batch, and a node that joins a
  quorum of four.
\<close>

definition order_sample :: "NodeId \<Rightarrow> nat order_env" where
  "order_sample me =
     \<lparr>oe_sync = sync_sample me, oe_append = (\<lambda>d f. CompletedDecision (fd_seq d) f), oe_merge = (\<lambda>d _. Some d),
      oe_clone_pending_rqs = (\<lambda>_. Some [])\<rparr>"

lemma order_sample_laws:
  "merge_laws (order_sample me)" "order_laws (order_sample me) sample_atlas" "se_tbo (oe_sync (order_sample me)) = sample_tbo"
proof -
  show "order_laws (order_sample me) sample_atlas"
    using sample_tbo_laws by (auto simp: order_laws_def order_sample_def sync_sample_def front_nonempty_def split: list.splits)
qed (simp_all add: merge_laws_def order_sample_def sync_sample_def fd_seq_def)

subsection \<open>Delivering a batch\<close>

definition solo_voted :: "nat Consensus" where
  \<comment> \<open>the batch and the \<open>PREPARE\<close> are in, the \<open>COMMIT\<close> is missing\<close>
  "solo_voted = solo_process (sample_prepare 0) (solo_process sample_pre_prepare (fst (cs_poll sample_atlas solo_new)))"

definition solo_order :: "nat PBFTOrderProtocol" where
  "solo_order =
     \<lparr>op_phase = NormalPhase,
      op_ctx = \<lparr>cx_sync = Synchronizer_new_replica 0 (cs_curr_view solo_voted) 10, cx_log = initialize_decided_log 0, cx_consensus = solo_voted\<rparr>\<rparr>"

lemma solo_voted_inv:
  "cs_inv sample_atlas solo_voted" "cs_seq_no solo_voted = 5" "cs_watermark solo_voted = 2"
proof -
  let ?run = "handler_run solo_tbo sample_atlas ReplicaSynchronizer 100 solo_new []"
  have "handler_run solo_tbo sample_atlas ReplicaSynchronizer 100 solo_new ([] @ []) (fst (cs_poll sample_atlas solo_new))"
    by (rule handler_run.step [OF handler_run.start]) (rule handler_step.polled [OF prod.collapse [symmetric]])
  then have "?run (fst (cs_poll sample_atlas solo_new))" by simp
  then have "?run solo_voted"
    unfolding solo_voted_def by (intro solo_process_step) (simp_all add: sample_pre_prepare_def sample_prepare_def is_consensus_def)
  then have run: "started solo_tbo sample_atlas ReplicaSynchronizer 2 100 0 solo_view 5 2 [] solo_voted"
    using solo_laws solo_view_wf by (simp add: started_def solo_new_def)
  show "cs_inv sample_atlas solo_voted" by (rule reachedD(1) [OF started_reached(1) [OF run]])
  show "cs_seq_no solo_voted = 5" "cs_watermark solo_voted = 2" by code_simp+
qed

lemma solo_order_simps:
  "op_consensus solo_order = solo_voted" "op_phase solo_order = NormalPhase" "sy_view (op_sync solo_order) = cs_curr_view solo_voted"
  by (simp_all add: solo_order_def Synchronizer_new_replica_def new_synchronizer_def SyncTboQueue_new_def)

definition solo_delivery :: "nat PBFTOrderProtocol \<times> nat sync_effect list \<times> (nat OPExecResult, op_error) res" where
  "solo_delivery = op_process_message (order_sample 0) sample_atlas (sample_commit 0) solo_order"

definition progressed_seqs :: "('o OPExecResult, op_error) res \<Rightarrow> SeqNo list" where
  "progressed_seqs r = (case r of Ok (ProgressedDecision _ out) \<Rightarrow> map fd_seq out | _ \<Rightarrow> [])"

theorem normal_phase_delivers_witness:
  "\<exists>p es ahead out. op_process_message (order_sample 0) sample_atlas (sample_commit 0) solo_order =
       (p, es, Ok (ProgressedDecision ahead out)) \<and>
     map fd_seq out = [5] \<and> cs_seq_no (op_consensus p) = 6 \<and> hands_over (order_sample 0) solo_order p out \<and>
     \<not> can_finalize (op_consensus p)"
proof -
  obtain p es r where r: "op_process_message (order_sample 0) sample_atlas (sample_commit 0) solo_order = (p, es, r)"
    by (metis prod_cases3)
  have "progressed_seqs (snd (snd solo_delivery)) = [5]" "cs_seq_no (op_consensus (fst solo_delivery)) = 6" by code_simp+
  then have "progressed_seqs r = [5]" "cs_seq_no (op_consensus p) = 6" by (simp_all add: solo_delivery_def r)
  moreover have "is_consensus (msg (sample_commit 0))" by (simp add: is_consensus_def sample_commit_def)
  ultimately show ?thesis
    using normal_phase_delivers [OF _ _ order_sample_laws(1) _ _ _ _ _ r, of 2 100] solo_voted_inv solo_laws r
    by (auto simp: solo_order_simps order_sample_laws progressed_seqs_def split: res.splits OPExecResult.splits)
qed

subsection \<open>Joining a quorum\<close>

definition quad_started :: "nat PBFTOrderProtocol \<Rightarrow> bool" where
  "quad_started p \<longleftrightarrow> initialize_protocol sample_atlas 9 [0, 1, 2, 3] 10 2 = Ok p"

lemma quad_started_ex: "\<exists>p. quad_started p \<and> wf_view (sy_view (op_sync p)) \<and> vi_quorum_members (sy_view (op_sync p)) = [0, 1, 2, 3] \<and>
    vi_seq (sy_view (op_sync p)) = 0 \<and> sq_next_view (sy_tbo (op_sync p)) = None \<and> sy_phase (op_sync p) = Init"
proof -
  obtain v where v: "from_quorum sample_atlas 0 [0, 1, 2, 3] = Ok v" "wf_view v" "vi_quorum_members v = [0, 1, 2, 3]" "vi_seq v = 0"
    using from_quorum_wf [of sample_atlas "[0, 1, 2, 3]" 0] by auto
  then show ?thesis
    by (simp add: quad_started_def initialize_protocol_def initialize_with_quorum_def new_synchronizer_def SyncTboQueue_new_def)
qed

lemma quad_joining_run: "\<exists>p0 p. quad_started p0 \<and> op_run sample_atlas p0 p \<and> op_phase p = SyncPhase"
proof -
  obtain p0 where p0: "quad_started p0" "wf_view (sy_view (op_sync p0))" "vi_quorum_members (sy_view (op_sync p0)) = [0, 1, 2, 3]"
    "sq_next_view (sy_tbo (op_sync p0)) = None" using quad_started_ex by blast
  obtain w l where w: "next_view_with_new_node sample_atlas (sy_view (op_sync p0)) 9 = (Ok w :: (_, unit) res)"
      "leader sample_atlas w = (Ok l :: (_, unit) res)"
    using from_quorum_wf [of sample_atlas "[0, 1, 2, 3, 9]" "next_seq sample_atlas (vi_seq (sy_view (op_sync p0)))"] p0(3)
      leader_wf [of _ sample_atlas, where 'e = unit]
    by (fastforce simp: next_view_with_new_node_def)
  obtain p es where p: "joining_quorum (order_sample 9) sample_atlas p0 = (p, es, Ok ReconfigurationAttemptResult.InProgress)"
      "op_phase p = SyncPhase"
    using p0 w by (simp add: joining_quorum_def or_panic_op_def attempt_join_quorum_def order_sample_def sync_sample_def)
  have run: "op_run sample_atlas p0 p" by (rule op_run.step [OF op_run.start op_step.joining [OF p(1)]]) simp
  with p0(1) p(2) show ?thesis by blast
qed

theorem sync_phase_locks_proposer_witness:
  "\<exists>p0 p. quad_started p0 \<and> op_run sample_atlas p0 p \<and> op_phase p = SyncPhase \<and> \<not> pg_can_propose (op_guard p) \<and>
     \<not> pg_can_propose (op_guard (handle_execution_changed True p))"
proof -
  obtain p0 p where p: "quad_started p0" "op_run sample_atlas p0 p" "op_phase p = SyncPhase" using quad_joining_run by blast
  from sync_phase_locks_proposer [OF p(2) p(1) [unfolded quad_started_def]] p show ?thesis by auto
qed

theorem poll_terminates_iff_witness:
  "\<exists>p r. quad_started p \<and> poll (order_sample 9) sample_atlas p = Some r"
proof -
  obtain p where p: "quad_started p" "sy_phase (op_sync p) = Init" using quad_started_ex by blast
  from poll_terminates_iff [OF op_run.start p(1) [unfolded quad_started_def] _ order_sample_laws(2)] p show ?thesis by auto
qed

end
