(* ===== verification/Proposer.thy ===== *)
theory Proposer
  imports ReplicaSync
begin

text \<open>
  The proposer of \<open>bft/proposer/mod.rs\<close>, a thread beside the protocol, and the configuration of
  \<open>bft/config/mod.rs\<close>. In each round it receives batches of client requests from the request
  pre-processor, keeps those it has to propose as a leader or has the others watched, and
  proposes a batch to the sequence number that the guard hands out, without the requests that the last
  view change carried already.

  Points of time are numbers of microseconds, and every reading of the clock is an argument. The
  channel is the list of what the next calls of \<open>recv\<close> or \<open>recv_timeout\<close> return: a batch and
  the time it is handled, or none for a time-out or a closed channel. If the list ends the thread is still
  waiting, which is the result none. The thread pool of \<open>rayon\<close> and what other
  threads do to the guard between two accesses of the proposer are the parameter \<open>proposer_env\<close>.
  \<open>u128\<close> subtraction wraps. Metrics and logging are left out.
\<close>

subsection \<open>Configuration\<close>

record ProposerConfig =
  pc_target_batch_size :: nat
  pc_max_batch_size :: nat
  pc_batch_timeout :: nat
  pc_processing_threads :: nat

definition ProposerConfig_new :: "nat \<Rightarrow> nat \<Rightarrow> nat \<Rightarrow> nat \<Rightarrow> ProposerConfig" where
  "ProposerConfig_new target_batch_size max_batch_size batch_timeout processing_threads =
     \<lparr>pc_target_batch_size = target_batch_size, pc_max_batch_size = max_batch_size,
      pc_batch_timeout = batch_timeout, pc_processing_threads = processing_threads\<rparr>"

record PBFTConfig =
  bc_timeout_dur :: nat
  bc_proposer_config :: ProposerConfig
  bc_watermark :: nat

definition PBFTConfig_new :: "nat \<Rightarrow> nat \<Rightarrow> ProposerConfig \<Rightarrow> PBFTConfig" where
  "PBFTConfig_new timeout_dur watermark proposer_config =
     \<lparr>bc_timeout_dur = timeout_dur, bc_proposer_config = proposer_config, bc_watermark = watermark\<rparr>"

subsection \<open>State\<close>

record Proposer =
  pr_node_id :: NodeId
  pr_accessory :: SynchronizerAccessory
  pr_cancelled :: bool
  pr_thread_pool :: bool
  pr_target_global_batch_size :: nat
  pr_global_batch_time_limit :: nat
  pr_max_batch_size :: nat

record 'o ProposeBuilder =
  pb_currently_accumulated :: "'o Request StoredMessage list"
  pb_last_proposal :: nat

record 'o proposer_env =
  pe_par_filter_map :: "('o Request StoredMessage \<Rightarrow> ('o Request StoredMessage option, unit) res)
    \<Rightarrow> 'o Request StoredMessage list \<Rightarrow> ('o Request StoredMessage list, unit) res"
  pe_par_map :: "('o Request StoredMessage \<Rightarrow> ClientRqInfo) \<Rightarrow> 'o Request StoredMessage list \<Rightarrow> ClientRqInfo list"
  pe_interfere :: "nat \<Rightarrow> ProposerConsensusGuard \<Rightarrow> ProposerConsensusGuard"
  pe_nonce :: nat

definition ProposeBuilder_new :: "nat \<Rightarrow> 'o ProposeBuilder" where
  "ProposeBuilder_new now = \<lparr>pb_currently_accumulated = [], pb_last_proposal = now\<rparr>"

definition Proposer_new :: "NodeId \<Rightarrow> SynchronizerAccessory \<Rightarrow> ProposerConfig \<Rightarrow> Proposer" where
  "Proposer_new node sync proposer_config =
     \<lparr>pr_node_id = node, pr_accessory = sync, pr_cancelled = False,
      pr_thread_pool = (1 < pc_processing_threads proposer_config),
      pr_target_global_batch_size = pc_target_batch_size proposer_config,
      pr_global_batch_time_limit = pc_batch_timeout proposer_config,
      pr_max_batch_size = pc_max_batch_size proposer_config\<rparr>"

definition cancel :: "Proposer \<Rightarrow> Proposer" where
  "cancel pr = pr\<lparr>pr_cancelled := True\<rparr>"

definition elapsed :: "nat \<Rightarrow> 'o ProposeBuilder \<Rightarrow> nat" where
  \<comment> \<open>\<open>last_proposal.elapsed().as_micros()\<close>, which is zero for a later point of time\<close>
  "elapsed now propose = now - pb_last_proposal propose"

subsection \<open>Received requests\<close>

fun filter_map_res :: "('a \<Rightarrow> ('b option, unit) res) \<Rightarrow> 'a list \<Rightarrow> ('b list, unit) res" where
  \<comment> \<open>\<open>into_iter().filter_map(f).collect()\<close>\<close>
  "filter_map_res f [] = Ok []"
| "filter_map_res f (x # xs) =
     res_bind (f x) (\<lambda>y. res_map (\<lambda>ys. case y of Some y \<Rightarrow> y # ys | None \<Rightarrow> ys) (filter_map_res f xs))"

definition process_request_message_leader :: "atlas \<Rightarrow> 'o Request StoredMessage \<Rightarrow> nat \<Rightarrow> (byte list \<times> byte list) option
    \<Rightarrow> ('o Request StoredMessage option, unit) res" where
  "process_request_message_leader A message leader_set_size our_slice =
     (let digest = hdr_unique_digest (hdr message) in
      if 1 < leader_set_size
      then res_map (\<lambda>slice. if is_request_in_hash_space A digest slice then Some message else None) (expect our_slice)
      else Ok (Some message))"

definition process_request_message_non_leader :: "atlas \<Rightarrow> 'o Request StoredMessage \<Rightarrow> ClientRqInfo" where
  "process_request_message_non_leader A message = rq_info A message"

definition process_received_messages :: "'o proposer_env \<Rightarrow> atlas \<Rightarrow> Proposer \<Rightarrow> ViewInfo \<Rightarrow> 'o Request StoredMessage list
    \<Rightarrow> 'o ProposeBuilder \<Rightarrow> 'o ProposeBuilder \<times> 'o sync_effect list \<times> (unit, unit) res" where
  "process_received_messages E A pr view_info messages propose_builder =
     (let is_leader = pr_node_id pr \<in> set (vi_leader_set view_info);
          leader_set_size = length (vi_leader_set view_info);
          our_slice = vi_leader_hash_space_division view_info (pr_node_id pr)
      in if is_leader
         then
           let f = (\<lambda>message. process_request_message_leader A message leader_set_size our_slice)
           in (case if pr_thread_pool pr then pe_par_filter_map E f messages else filter_map_res f messages of
                 Ok messages \<Rightarrow>
                   (propose_builder\<lparr>pb_currently_accumulated := pb_currently_accumulated propose_builder @ messages\<rparr>, [], Ok ())
               | _ \<Rightarrow> (propose_builder, [], Panic))
         else
           let digest_vec = (if pr_thread_pool pr then pe_par_map E (process_request_message_non_leader A) messages
                             else map (process_request_message_non_leader A) messages)
           in (propose_builder, if digest_vec \<noteq> [] then watch_received_requests (pr_accessory pr) digest_vec else [], Ok ()))"

definition handle_received_message :: "Proposer \<Rightarrow> nat \<Rightarrow> 'o ProposeBuilder \<Rightarrow> 'o Request StoredMessage list option
    \<Rightarrow> bool \<Rightarrow> 'o Request StoredMessage list \<Rightarrow> 'o Request StoredMessage list option \<times> bool" where
  "handle_received_message pr now ordered_propose collected_requests is_leader message_batch =
     (let collected_requests = (case collected_requests of
              Some requests \<Rightarrow> Some (requests @ message_batch)
            | None \<Rightarrow> Some message_batch);
          collected_request_count = (case collected_requests of Some requests \<Rightarrow> length requests | None \<Rightarrow> 0);
          micros_since_last_batch = elapsed now ordered_propose
      in (collected_requests,
          is_leader \<and> (pr_target_global_batch_size pr \<le> collected_request_count \<or>
                       pr_global_batch_time_limit pr \<le> micros_since_last_batch)))"

fun receive_requests :: "Proposer \<Rightarrow> 'o ProposeBuilder \<Rightarrow> bool \<Rightarrow> 'o Request StoredMessage list option
    \<Rightarrow> (nat \<times> 'o Request StoredMessage list) option list
    \<Rightarrow> ('o Request StoredMessage list option \<times> (nat \<times> 'o Request StoredMessage list) option list) option" where
  \<comment> \<open>the two \<open>while let\<close> loops, which differ in the call that receives\<close>
  "receive_requests pr ordered_propose is_leader collected_requests [] = None"
| "receive_requests pr ordered_propose is_leader collected_requests (None # channel) = Some (collected_requests, channel)"
| "receive_requests pr ordered_propose is_leader collected_requests (Some (now, message_batch) # channel) =
     (case handle_received_message pr now ordered_propose collected_requests is_leader message_batch of
        (collected_requests, True) \<Rightarrow> Some (collected_requests, channel)
      | (collected_requests, False) \<Rightarrow> receive_requests pr ordered_propose is_leader collected_requests channel)"

definition u128_sub :: "nat \<Rightarrow> nat \<Rightarrow> nat" where
  "u128_sub a b = (if b \<le> a then a - b else 2 ^ 128 + a - b)"

definition get_time_until_next_propose :: "Proposer \<Rightarrow> nat \<Rightarrow> 'o ProposeBuilder \<Rightarrow> nat" where
  "get_time_until_next_propose pr now propose =
     min (pr_global_batch_time_limit pr div 2) (u128_sub (pr_global_batch_time_limit pr) (elapsed now propose))"

definition sleep_for_appropriate_amount_of_time :: "Proposer \<Rightarrow> nat \<Rightarrow> 'o ProposeBuilder \<Rightarrow> nat" where
  \<comment> \<open>the duration that is slept\<close>
  "sleep_for_appropriate_amount_of_time pr now last_proposed =
     min (pr_global_batch_time_limit pr div 2) (u128_sub (pr_global_batch_time_limit pr) (elapsed now last_proposed)) div 2"

subsection \<open>Proposing\<close>

definition check_session :: "'o Request StoredMessage \<Rightarrow> (SeqNo \<times> SeqNo) list \<Rightarrow> (SeqNo \<times> SeqNo) list \<times> bool \<times> bool" where
  \<comment> \<open>the sessions of the client, whether the request was proposed, whether the client is to be removed\<close>
  "check_session req session_map =
     (case map_of session_map (rq_session (msg req)) of
        Some seq_no \<Rightarrow>
          if seq_no < rq_seq (msg req)
          then let session_map = AList.delete (rq_session (msg req)) session_map
               in (session_map, False, session_map = [])
          else (session_map, True, False)
      | None \<Rightarrow> (session_map, False, False))"

definition check_if_has_been_proposed :: "'o Request StoredMessage \<Rightarrow> session_map option option \<Rightarrow> session_map option option \<times> bool" where
  "check_if_has_been_proposed req mutex_guard =
     (case mutex_guard of
        Some (Some seen_rqs) \<Rightarrow>
          (case map_of seen_rqs (hdr_from (hdr req)) of
             Some session_map \<Rightarrow>
               (case check_session req session_map of
                  (session_map, result, should_remove) \<Rightarrow>
                    (Some (Some (if should_remove then AList.delete (hdr_from (hdr req)) seen_rqs
                                 else AList.update (hdr_from (hdr req)) session_map seen_rqs)),
                     result))
           | None \<Rightarrow> (mutex_guard, False))
      | _ \<Rightarrow> (mutex_guard, False))"

fun retain_new :: "'o Request StoredMessage list \<Rightarrow> session_map option option
    \<Rightarrow> 'o Request StoredMessage list \<times> session_map option option" where
  \<comment> \<open>\<open>retain\<close> with the closure of \<open>propose\<close>\<close>
  "retain_new [] view_change_msg = ([], view_change_msg)"
| "retain_new (m # ms) view_change_msg =
     (case check_if_has_been_proposed m view_change_msg of
        (view_change_msg, proposed) \<Rightarrow>
          (case retain_new ms view_change_msg of
             (ms, view_change_msg) \<Rightarrow> (if proposed then ms else m # ms, view_change_msg)))"

definition propose :: "'o proposer_env \<Rightarrow> SeqNo \<Rightarrow> ViewInfo \<Rightarrow> 'o Request StoredMessage list \<Rightarrow> ProposerConsensusGuard
    \<Rightarrow> ProposerConsensusGuard \<times> 'o sync_effect list" where
  "propose E seq view currently_accumulated g =
     (let g = pe_interfere E 2 g;
          has_pending_messages = pg_has_pending_view_change_reqs g;
          g = pe_interfere E 3 g;
          view_change_msg = (if has_pending_messages then Some (pg_last_view_change g) else None);
          (currently_accumulated, view_change_msg) = retain_new currently_accumulated view_change_msg;
          g = (case view_change_msg of Some seen \<Rightarrow> g\<lparr>pg_last_view_change := seen\<rparr> | None \<Rightarrow> g);
          g = (if view_change_msg = Some (Some []) then sync_messages_clear (pe_interfere E 4 g) else g);
          targets = vi_quorum_members view;
          message = ConsensusMsg (ConsensusMessage_new (pe_nonce E) seq (vi_seq view) (PrePrepare currently_accumulated))
      in (g, [SyncBroadcastSigned message targets]))"

definition split_batch :: "Proposer \<Rightarrow> 'o Request StoredMessage list \<Rightarrow> 'o Request StoredMessage list \<times> 'o Request StoredMessage list" where
  \<comment> \<open>the batch that is proposed and what is kept: \<open>split_off\<close> and the two exchanges\<close>
  "split_batch pr accumulated =
     (if pr_max_batch_size pr < length accumulated
      then let at = length accumulated - pr_max_batch_size pr
           in (drop at accumulated, take at accumulated)
      else (accumulated, []))"

definition propose_ordered :: "'o proposer_env \<Rightarrow> Proposer \<Rightarrow> nat \<Rightarrow> bool \<Rightarrow> 'o ProposeBuilder \<Rightarrow> ProposerConsensusGuard
    \<Rightarrow> 'o ProposeBuilder \<times> ProposerConsensusGuard \<times> 'o sync_effect list \<times> bool" where
  "propose_ordered E pr now is_leader pb g =
     (if \<not> is_leader then (pb, g, [], False)
      else if length (pb_currently_accumulated pb) < pr_target_global_batch_size pr \<and>
              elapsed now pb \<le> pr_global_batch_time_limit pr then (pb, g, [], False)
      else
        let g = pe_interfere E 0 g in
        if pg_can_propose g
        then
          case next_seq_no (pe_interfere E 1 g) of
            (g, Some (seq, view)) \<Rightarrow>
              (case split_batch pr (pb_currently_accumulated pb) of
                 (current_batch, next_batch) \<Rightarrow>
                   (case propose E seq view current_batch g of
                      (g, es) \<Rightarrow> (\<lparr>pb_currently_accumulated = next_batch, pb_last_proposal = now\<rparr>, g, es, True)))
          | (g, None) \<Rightarrow> (pb, g, [], False)
        else (pb, g, [], False))"

subsection \<open>A round of the thread\<close>

datatype 'o proposer_state =
  Waiting \<comment> \<open>in one of the receiving loops\<close>
| Cancelled
| Blocked \<comment> \<open>until the guard allows to propose\<close>
| NextRound "'o ProposeBuilder" ProposerConsensusGuard "(nat \<times> 'o Request StoredMessage list) option list" "'o sync_effect list" "nat option"
| Died \<comment> \<open>a panic\<close>

definition proposer_round :: "'o proposer_env \<Rightarrow> atlas \<Rightarrow> Proposer \<Rightarrow> nat \<Rightarrow> ViewInfo
    \<Rightarrow> (nat \<times> 'o Request StoredMessage list) option list \<Rightarrow> 'o ProposeBuilder \<Rightarrow> ProposerConsensusGuard \<Rightarrow> 'o proposer_state" where
  \<comment> \<open>the body of the loop in \<open>start\<close>: \<open>now\<close> is the time when the requests are in, \<open>info\<close> the view
      of the synchronizer; the last component of the next round is the time slept\<close>
  "proposer_round E A pr now info channel ordered_propose g =
     (if pr_cancelled pr then Cancelled
      else if \<not> pg_can_propose g then Blocked
      else
        let is_leader = pr_node_id pr \<in> set (vi_leader_set info) in
        case receive_requests pr ordered_propose is_leader None channel of
          None \<Rightarrow> Waiting
        | Some (collected_requests, channel) \<Rightarrow>
            (case (case collected_requests of
                     Some messages \<Rightarrow> process_received_messages E A pr info messages ordered_propose
                   | None \<Rightarrow> (ordered_propose, [], Ok ())) of
               (ordered_propose, es, Ok _) \<Rightarrow>
                 (case propose_ordered E pr now is_leader ordered_propose g of
                    (ordered_propose, g, es', _) \<Rightarrow>
                      NextRound ordered_propose g channel (es @ es')
                        (if collected_requests = None
                         then Some (sleep_for_appropriate_amount_of_time pr now ordered_propose) else None))
             | _ \<Rightarrow> Died))"

end
