(* ===== verification/ProposerSafety.thy ===== *)
theory ProposerSafety
  imports Proposer
begin

text \<open>
  What the proposer proposes: when it proposes, to which number and view, which of the accumulated
  requests, and that requests of the last view change are not proposed again. A replica that is no
  leader never leaves its receiving loop.
\<close>

subsection \<open>Requests of the last view change\<close>

abbreviation carried_up_to :: "session_map \<Rightarrow> 'o Request StoredMessage \<Rightarrow> SeqNo option" where
  "carried_up_to seen m \<equiv> last_of_session seen (hdr_from (hdr m)) (rq_session (msg m))"

definition same_session :: "'o Request StoredMessage \<Rightarrow> 'o Request StoredMessage \<Rightarrow> bool" where
  "same_session m m' \<longleftrightarrow> hdr_from (hdr m) = hdr_from (hdr m') \<and> rq_session (msg m) = rq_session (msg m')"

definition sessions_ascend :: "'o Request StoredMessage list \<Rightarrow> bool" where
  \<comment> \<open>what the request pre-processor guarantees: a session's requests come in their order\<close>
  "sessions_ascend ms \<longleftrightarrow> sorted_wrt (\<lambda>m m'. same_session m m' \<longrightarrow> rq_seq (msg m) < rq_seq (msg m')) ms"

lemma check_step:
  assumes "check_if_has_been_proposed m (Some (Some seen)) = (v, proposed)"
  obtains seen' where "v = Some (Some seen')" "proposed \<longleftrightarrow> (\<exists>n. carried_up_to seen m = Some n \<and> rq_seq (msg m) \<le> n)"
    "\<And>c s. last_of_session seen' c s =
       (if c = hdr_from (hdr m) \<and> s = rq_session (msg m) \<and> (\<exists>n. carried_up_to seen m = Some n \<and> n < rq_seq (msg m))
        then None else last_of_session seen c s)"
proof (cases "map_of seen (hdr_from (hdr m))")
  case None
  then show ?thesis using assms by (intro that [of seen]) (auto simp: check_if_has_been_proposed_def last_of_session_def)
next
  case (Some sessions)
  obtain sessions' remove where ck: "check_session m sessions = (sessions', proposed, remove)"
      and v: "v = Some (Some (if remove then AList.delete (hdr_from (hdr m)) seen else AList.update (hdr_from (hdr m)) sessions' seen))"
    using assms Some by (auto simp: check_if_has_been_proposed_def split: prod.splits)
  have look: "carried_up_to seen m = map_of sessions (rq_session (msg m))" using Some by (simp add: last_of_session_def)
  have "sessions' = (if \<exists>n. carried_up_to seen m = Some n \<and> n < rq_seq (msg m)
      then AList.delete (rq_session (msg m)) sessions else sessions)"
    using ck by (auto simp: look check_session_def Let_def split: option.splits if_splits)
  then have sess: "map_of sessions' s = (if s = rq_session (msg m) \<and> (\<exists>n. carried_up_to seen m = Some n \<and> n < rq_seq (msg m))
      then None else map_of sessions s)" for s
    by (auto simp: delete_conv')
  have rm: "remove \<Longrightarrow> sessions' = []" using ck by (auto simp: check_session_def Let_def split: option.splits if_splits)
  have pr: "proposed \<longleftrightarrow> (\<exists>n. carried_up_to seen m = Some n \<and> rq_seq (msg m) \<le> n)"
    using ck by (auto simp: look check_session_def Let_def split: option.splits if_splits)
  let ?seen = "if remove then AList.delete (hdr_from (hdr m)) seen else AList.update (hdr_from (hdr m)) sessions' seen"
  have "last_of_session ?seen c s = (if c = hdr_from (hdr m) then map_of sessions' s else last_of_session seen c s)" for c s
    using rm by (auto simp: last_of_session_def delete_conv' update_conv')
  then have "last_of_session ?seen c s =
     (if c = hdr_from (hdr m) \<and> s = rq_session (msg m) \<and> (\<exists>n. carried_up_to seen m = Some n \<and> n < rq_seq (msg m))
      then None else last_of_session seen c s)" for c s
    using Some sess [of s] look by (auto simp: last_of_session_def)
  then show ?thesis using v pr by (intro that) blast+
qed

lemma retain_new_filter:
  assumes "sessions_ascend ms"
  shows "fst (retain_new ms (Some (Some seen))) =
    filter (\<lambda>m. case carried_up_to seen m of Some n \<Rightarrow> n < rq_seq (msg m) | None \<Rightarrow> True) ms"
  using assms
proof (induction ms arbitrary: seen)
  case (Cons m ms)
  have asc: "sessions_ascend ms" "\<And>m'. m' \<in> set ms \<Longrightarrow> same_session m m' \<Longrightarrow> rq_seq (msg m) < rq_seq (msg m')"
    using Cons.prems by (auto simp: sessions_ascend_def)
  obtain v proposed where ck: "check_if_has_been_proposed m (Some (Some seen)) = (v, proposed)" by fastforce
  obtain seen' where s: "v = Some (Some seen')" "proposed \<longleftrightarrow> (\<exists>n. carried_up_to seen m = Some n \<and> rq_seq (msg m) \<le> n)"
    "\<And>c s. last_of_session seen' c s =
       (if c = hdr_from (hdr m) \<and> s = rq_session (msg m) \<and> (\<exists>n. carried_up_to seen m = Some n \<and> n < rq_seq (msg m))
        then None else last_of_session seen c s)"
    using check_step [OF ck] by blast
  have "(case carried_up_to seen' m' of Some n \<Rightarrow> n < rq_seq (msg m') | None \<Rightarrow> True) =
      (case carried_up_to seen m' of Some n \<Rightarrow> n < rq_seq (msg m') | None \<Rightarrow> True)" if "m' \<in> set ms" for m'
    using asc(2) [OF that] by (auto simp: s(3) same_session_def split: option.splits)
  then have "filter (\<lambda>m. case carried_up_to seen' m of Some n \<Rightarrow> n < rq_seq (msg m) | None \<Rightarrow> True) ms =
      filter (\<lambda>m. case carried_up_to seen m of Some n \<Rightarrow> n < rq_seq (msg m) | None \<Rightarrow> True) ms"
    by (intro filter_cong) simp_all
  then show ?case
    using Cons.IH [OF asc(1), of seen'] ck s(1,2) by (auto split: option.splits prod.splits)
qed simp

subsection \<open>Proposing\<close>

lemma retain_new_subseq: "subseq (fst (retain_new ms v)) ms"
proof (induction ms arbitrary: v)
  case (Cons m ms)
  obtain v' p where "check_if_has_been_proposed m v = (v', p)" by fastforce
  then show ?case using Cons.IH [of v'] by (cases p) (auto simp: case_prod_unfold)
qed simp

lemma retain_new_no_change [simp]: "retain_new ms None = (ms, None)" "retain_new ms (Some None) = (ms, Some None)"
  by (induction ms) (simp_all add: check_if_has_been_proposed_def)

lemma split_batch_append:
  "split_batch pr ms = (batch, rest) \<Longrightarrow> rest @ batch = ms \<and> length batch = min (pr_max_batch_size pr) (length ms)"
  by (auto simp: split_batch_def Let_def split: if_splits)

definition due_to_propose :: "Proposer \<Rightarrow> nat \<Rightarrow> 'o ProposeBuilder \<Rightarrow> bool" where
  "due_to_propose pr now pb \<longleftrightarrow>
     pr_target_global_batch_size pr \<le> length (pb_currently_accumulated pb) \<or> pr_global_batch_time_limit pr < elapsed now pb"

definition proposed_in :: "'o sync_effect list \<Rightarrow> (SeqNo \<times> SeqNo \<times> 'o Request StoredMessage list \<times> NodeId list) list" where
  "proposed_in es = List.map_filter (\<lambda>e. case e of
       SyncBroadcastSigned (ConsensusMsg m) targets \<Rightarrow>
         (case cm_kind m of PrePrepare rqs \<Rightarrow> Some (cm_seq m, cm_view m, rqs, targets) | _ \<Rightarrow> None)
     | _ \<Rightarrow> None) es"

definition carried :: "session_map option \<Rightarrow> 'o Request StoredMessage \<Rightarrow> bool" where
  \<comment> \<open>a request not newer than what the last view change carried of its session\<close>
  "carried last_change m = (case last_change of None \<Rightarrow> False
     | Some seen \<Rightarrow> (case carried_up_to seen m of None \<Rightarrow> False | Some n \<Rightarrow> rq_seq (msg m) \<le> n))"

lemma retain_new_carried:
  "sessions_ascend ms \<Longrightarrow> fst (retain_new ms (Some last_change)) = filter (\<lambda>m. \<not> carried last_change m) ms"
  by (cases last_change) (auto simp: retain_new_filter carried_def intro!: filter_cong split: option.split)

lemma propose_effects:
  assumes "propose E seq view ms g = (g', es)"
  defines "g2 \<equiv> pe_interfere E 2 g"
  shows "proposed_in es = [(seq, vi_seq view,
    fst (retain_new ms (if pg_has_pending_view_change_reqs g2 then Some (pg_last_view_change (pe_interfere E 3 g2)) else None)),
    vi_quorum_members view)]"
proof -
  have "es = [SyncBroadcastSigned (ConsensusMsg (ConsensusMessage_new (pe_nonce E) seq (vi_seq view)
      (PrePrepare (fst (retain_new ms (if pg_has_pending_view_change_reqs g2
         then Some (pg_last_view_change (pe_interfere E 3 g2)) else None)))))) (vi_quorum_members view)]"
    using assms(1) by (auto simp: propose_def g2_def Let_def case_prod_unfold)
  then show ?thesis by (simp add: proposed_in_def List.map_filter_def ConsensusMessage_new_def)
qed

lemma propose_queue:
  assumes "propose E seq view ms g = (g', es)" and "\<And>i h. pg_seq_no_queue (pe_interfere E i h) = pg_seq_no_queue h"
  shows "pg_seq_no_queue g' = pg_seq_no_queue g"
  using assms by (auto simp: propose_def Let_def sync_messages_clear_def case_prod_unfold split: option.splits if_splits)

lemma sessions_ascend_append: "sessions_ascend (xs @ ys) \<Longrightarrow> sessions_ascend ys"
  by (simp add: sessions_ascend_def sorted_wrt_append)

text \<open>
  C16. When and what a leader proposes. It proposes exactly if it is leader, the target size
  is reached or the time limit exceeded, and the guard allows it and has a number for it. Then it sends
  one \<open>PRE-PREPARE\<close> for the least number offered, in the guard's view and to its quorum, and that number is no
  longer offered. Of the accumulated requests the newest ones, as many as the maximal batch size allows, form the batch, and
  all the older ones are kept. If the guard has requests of a view change pending when that is tested, and the requests of every session
  come in order, the batch is proposed without exactly those requests which the last view change carried;
  if it has none, the whole batch is proposed. What other threads do to the guard after the number is
  taken is arbitrary, except that for the last number to be gone they must leave the queue alone.
\<close>

theorem propose_ordered_correct:
  assumes "guard_ok g" and "pe_interfere E 0 g = g" and "pe_interfere E 1 g = g"
  shows "case propose_ordered E pr now is_leader pb g of
      (pb', g', es, proposed) \<Rightarrow>
        (proposed \<longleftrightarrow> is_leader \<and> due_to_propose pr now pb \<and> pg_can_propose g \<and> pg_seq_no_queue g \<noteq> []) \<and>
        (if proposed
         then \<exists>rqs batch. let n = Min (set (pg_seq_no_queue g)); g2 = pe_interfere E 2 (fst (next_seq_no g)) in
           proposed_in es = [(n, vi_seq (pg_view g), rqs, vi_quorum_members (pg_view g))] \<and>
           (\<not> pg_has_pending_view_change_reqs g2 \<longrightarrow> rqs = batch) \<and>
           (pg_has_pending_view_change_reqs g2 \<and> sessions_ascend (pb_currently_accumulated pb) \<longrightarrow>
              rqs = filter (\<lambda>m. \<not> carried (pg_last_view_change (pe_interfere E 3 g2)) m) batch) \<and>
           subseq rqs batch \<and> pb_currently_accumulated pb' @ batch = pb_currently_accumulated pb \<and>
           length batch = min (pr_max_batch_size pr) (length (pb_currently_accumulated pb)) \<and> pb_last_proposal pb' = now \<and>
           ((\<forall>i h. pg_seq_no_queue (pe_interfere E i h) = pg_seq_no_queue h) \<longrightarrow>
              mset (pg_seq_no_queue g) = add_mset n (mset (pg_seq_no_queue g')))
         else es = [] \<and> pb' = pb \<and> g' = g)"
proof (cases "is_leader \<and> due_to_propose pr now pb \<and> pg_can_propose g \<and> pg_seq_no_queue g \<noteq> []")
  case False
  then show ?thesis
    using assms(2,3) by (auto simp: propose_ordered_def due_to_propose_def next_seq_no_def heap_pop_def Let_def split: list.splits)
next
  case True
  obtain x xs where q: "pg_seq_no_queue g = x # xs" using True by (cases "pg_seq_no_queue g") auto
  have "sorted (x # xs)" using assms(1) q by (simp add: guard_ok_def)
  then have min: "Min (set (pg_seq_no_queue g)) = x" using q by (auto intro: Min_eqI)
  have seq: "next_seq_no g = (g\<lparr>pg_seq_no_queue := xs\<rparr>, Some (x, pg_view g))" by (simp add: next_seq_no_def q heap_pop_def)
  obtain batch rest where b: "split_batch pr (pb_currently_accumulated pb) = (batch, rest)" by fastforce
  obtain g' es where p: "propose E x (pg_view g) batch (g\<lparr>pg_seq_no_queue := xs\<rparr>) = (g', es)" by fastforce
  have run: "propose_ordered E pr now is_leader pb g = (\<lparr>pb_currently_accumulated = rest, pb_last_proposal = now\<rparr>, g', es, True)"
    using True assms(2,3) seq b p by (auto simp: propose_ordered_def due_to_propose_def Let_def)
  define g2 where "g2 = pe_interfere E 2 (g\<lparr>pg_seq_no_queue := xs\<rparr>)"
  define last_change where "last_change = pg_last_view_change (pe_interfere E 3 g2)"
  have ap: "rest @ batch = pb_currently_accumulated pb"
    "length batch = min (pr_max_batch_size pr) (length (pb_currently_accumulated pb))"
    using split_batch_append [OF b] by simp_all
  have asc: "sessions_ascend (pb_currently_accumulated pb) \<Longrightarrow> sessions_ascend batch"
    using sessions_ascend_append [of rest batch] ap(1) by simp
  let ?rqs = "fst (retain_new batch (if pg_has_pending_view_change_reqs g2 then Some last_change else None))"
  have "proposed_in es = [(x, vi_seq (pg_view g), ?rqs, vi_quorum_members (pg_view g))]"
    using propose_effects [OF p] by (simp add: g2_def last_change_def)
  moreover have "\<forall>i h. pg_seq_no_queue (pe_interfere E i h) = pg_seq_no_queue h \<Longrightarrow> pg_seq_no_queue g' = xs"
    using propose_queue [OF p] by simp
  ultimately show ?thesis
    unfolding run prod.case using True min q seq ap asc
    by (auto simp: Let_def retain_new_subseq retain_new_carried simp flip: g2_def last_change_def intro!: exI [of _ ?rqs] exI [of _ batch])
qed

text \<open>
  C17. Requests that a view change carried are not proposed again. After the requests of a \<open>SYNC\<close>
  message are installed in the guard, a batch in which every session's requests are in order is
  proposed without exactly those requests that are not newer than all requests of their session in that
  message.
\<close>

theorem propose_skips_view_change:
  assumes "sessions_ascend batch" and "\<And>g. pe_interfere E 2 g = g" and "\<And>g. pe_interfere E 3 g = g"
    and "propose E seq view batch (install_sync_message_requests rqs g) = (g', es)"
  shows "proposed_in es = [(seq, vi_seq view,
    filter (\<lambda>m. \<forall>n \<in> session_seqs (hdr_from (hdr m)) (rq_session (msg m)) rqs. n < rq_seq (msg m)) batch,
    vi_quorum_members view)]"
proof -
  obtain seen where seen: "pg_last_view_change (install_sync_message_requests rqs g) = Some seen"
      "pg_has_pending_view_change_reqs (install_sync_message_requests rqs g)"
    by (simp add: install_sync_message_requests_def)
  have look: "last_of_session seen c s = (if session_seqs c s rqs = {} then None else Some (Max (session_seqs c s rqs)))" for c s
    using install_sync_message_requests_max [where rqs = rqs and g = g and client = c and session = s] by (simp add: seen(1))
  have "es = [SyncBroadcastSigned (ConsensusMsg (ConsensusMessage_new (pe_nonce E) seq (vi_seq view)
      (PrePrepare (fst (retain_new batch (Some (Some seen))))))) (vi_quorum_members view)]"
    using assms(2-4) seen by (simp add: propose_def Let_def case_prod_unfold)
  then have "proposed_in es = [(seq, vi_seq view, fst (retain_new batch (Some (Some seen))), vi_quorum_members view)]"
    by (simp add: proposed_in_def List.map_filter_def ConsensusMessage_new_def)
  moreover have "(case carried_up_to seen m of Some n \<Rightarrow> n < rq_seq (msg m) | None \<Rightarrow> True) =
      (\<forall>n \<in> session_seqs (hdr_from (hdr m)) (rq_session (msg m)) rqs. n < rq_seq (msg m))" for m :: "'a Request StoredMessage"
    by (simp add: look)
  ultimately show ?thesis using retain_new_filter [OF assms(1), of seen] by simp
qed

subsection \<open>Limits\<close>

lemma receive_requests_follower:
  "None \<notin> set channel \<Longrightarrow> receive_requests pr pb False reqs channel = None"
proof (induction channel arbitrary: reqs)
  case (Cons x channel)
  then obtain now batch where "x = Some (now, batch)" by (cases x) auto
  then show ?case using Cons by (simp add: handle_received_message_def Let_def)
qed simp

text \<open>
  C38. The proposer of a replica that is no leader never finishes a round. As long as the channel from the request
  pre-processor is open, however many batches arrive and however much time passes, it stays in the loop that
  receives them: the requests are neither watched nor proposed, and the thread does not notice when
  the replica becomes leader.
\<close>

theorem follower_never_leaves:
  assumes "pr_node_id pr \<notin> set (vi_leader_set info)" and "None \<notin> set channel"
    and "\<not> pr_cancelled pr" and "pg_can_propose g"
  shows "proposer_round E A pr now info channel pb g = Waiting"
  using assms receive_requests_follower [OF assms(2)] by (simp add: proposer_round_def)

subsection \<open>Examples\<close>

definition proposer_sample :: "nat proposer_env" where
  "proposer_sample = \<lparr>pe_par_filter_map = filter_map_res, pe_par_map = map, pe_interfere = (\<lambda>_ g. g), pe_nonce = 0\<rparr>"

definition sample_proposer :: "NodeId \<Rightarrow> nat \<Rightarrow> Proposer" where
  "sample_proposer me max_size = Proposer_new me (ReplicaAccessory 10) (ProposerConfig_new 1 max_size 100 1)"

definition client_request :: "SeqNo \<Rightarrow> nat Request StoredMessage" where
  "client_request n = StoredMessage (Header 5 [] []) (Request 1 n 0)"

definition sample_guard :: ProposerConsensusGuard where
  "sample_guard = unlock_consensus (make_seq_available 8 (make_seq_available 7 (ProposerConsensusGuard_new sample_view)))"

theorem propose_ordered_correct_witness:
  "\<exists>pb g es. propose_ordered proposer_sample (sample_proposer 0 2) 50 True
      \<lparr>pb_currently_accumulated = [client_request 3, client_request 4, client_request 5], pb_last_proposal = 0\<rparr> sample_guard =
        (pb, g, es, True) \<and>
     proposed_in es = [(7, 0, [client_request 4, client_request 5], [0, 1, 2, 3])] \<and>
     pb_currently_accumulated pb = [client_request 3]"
proof -
  let ?pb = "\<lparr>pb_currently_accumulated = [client_request 3, client_request 4, client_request 5], pb_last_proposal = 0\<rparr>"
  have g: "pg_seq_no_queue sample_guard = [7, 8]" "pg_view sample_guard = sample_view" "pg_can_propose sample_guard"
    by (simp_all add: sample_guard_def unlock_consensus_def make_seq_available_def heap_push_def ProposerConsensusGuard_new_def)
  have ok: "guard_ok sample_guard" by (simp add: sample_guard_def guard_ok_ops)
  have id: "pe_interfere proposer_sample i h = h" for i h by (simp add: proposer_sample_def)
  have quiet: "\<not> pg_has_pending_view_change_reqs (pe_interfere proposer_sample 2 (fst (next_seq_no sample_guard)))"
    unfolding id by code_simp
  have pr: "pr_max_batch_size (sample_proposer 0 2) = 2" "pr_target_global_batch_size (sample_proposer 0 2) = 1"
    by (simp_all add: sample_proposer_def Proposer_new_def ProposerConfig_new_def)
  obtain pb g' es p where r: "propose_ordered proposer_sample (sample_proposer 0 2) 50 True ?pb sample_guard = (pb, g', es, p)"
    by (metis prod_cases4)
  from propose_ordered_correct [OF ok id id, where pr = "sample_proposer 0 2" and now = 50 and is_leader = True and pb = ?pb] show ?thesis
    by (auto simp: r g pr due_to_propose_def append_eq_Cons_conv quiet Let_def)
qed

theorem propose_skips_view_change_witness:
  "\<exists>g es. propose proposer_sample 7 sample_view [client_request 3, client_request 4]
      (install_sync_message_requests [ClientRqInfo [] 5 3 1] sample_guard) = (g, es) \<and>
    proposed_in es = [(7, 0, [client_request 4], [0, 1, 2, 3])]"
proof -
  let ?ms = "[client_request 3, client_request 4]" and ?rqs = "[ClientRqInfo [] 5 3 1]"
  obtain g es where r: "propose proposer_sample 7 sample_view ?ms (install_sync_message_requests ?rqs sample_guard) = (g, es)"
    by fastforce
  have asc: "sessions_ascend ?ms" by (simp add: sessions_ascend_def client_request_def)
  from propose_skips_view_change [OF asc _ _ r] r show ?thesis
    by (simp add: proposer_sample_def client_request_def session_seqs_def)
qed

theorem follower_never_leaves_witness:
  "proposer_round proposer_sample sample_atlas (sample_proposer 2 2) 1000 sample_view
     [Some (10, [client_request 3]), Some (20, [client_request 4]), Some (900, [client_request 5])]
     (ProposeBuilder_new 0) sample_guard = Waiting"
  by (rule follower_never_leaves) (simp_all add: sample_proposer_def Proposer_new_def sample_guard_def unlock_consensus_def)

text \<open>
  The newest requests are proposed first. When more requests than fit into a batch have
  accumulated, the last ones are taken, so a later request of a session can overtake an
  earlier one; the guard then forgets the session, and the earlier request is proposed although the last
  view change carried it. Here requests 3 and 4 of a session have accumulated, the \<open>SYNC\<close> message
  carried request 3, and a batch has one request.
\<close>

definition two_proposals :: "(SeqNo \<times> SeqNo \<times> nat Request StoredMessage list \<times> NodeId list) list" where
  "two_proposals =
     (let pr = sample_proposer 0 1;
          pb = \<lparr>pb_currently_accumulated = [client_request 3, client_request 4], pb_last_proposal = 0\<rparr>;
          g = install_sync_message_requests [ClientRqInfo [] 5 3 1] sample_guard;
          (pb, g, es, _) = propose_ordered proposer_sample pr 50 True pb g;
          (pb, g, es', _) = propose_ordered proposer_sample pr 60 True pb g
      in proposed_in (es @ es'))"

theorem newest_first_proposes_again:
  "two_proposals = [(7, 0, [client_request 4], [0, 1, 2, 3]), (8, 0, [client_request 3], [0, 1, 2, 3])]"
  by code_simp

end
