(* ===== verification/Verification.thy ===== *)
theory Verification
  imports Decisions
begin

text \<open>
  The checks of received messages and proofs in \<open>bft/message/serialize/mod.rs\<close>:
  \<open>internally_verify_message\<close> and \<open>verify_proof\<close> of \<open>PBFTConsensus\<close>. The helper that verifies a single
  request or protocol message, with its signature, belongs to \<open>atlas_core\<close> and is the parameter
  \<open>verification_helper\<close>; an error is carried without its text.
\<close>

record 'o verification_helper =
  vh_request :: "Header \<Rightarrow> 'o Request \<Rightarrow> bool"
  vh_protocol :: "Header \<Rightarrow> 'o PBFTMessage \<Rightarrow> bool"

datatype VerifyError = VerificationFailed | OfProof ProofError

fun verify_requests :: "'o verification_helper \<Rightarrow> 'o Request StoredMessage list \<Rightarrow> (unit, VerifyError) res" where
  \<comment> \<open>the loops over client requests\<close>
  "verify_requests V [] = Ok ()"
| "verify_requests V (request # requests) =
     (if vh_request V (hdr request) (msg request) then verify_requests V requests else Err VerificationFailed)"

fun verify_messages :: "'o verification_helper \<Rightarrow> 'o StoredConsensusMessage list \<Rightarrow> (unit, VerifyError) res" where
  \<comment> \<open>the loops over protocol messages\<close>
  "verify_messages V [] = Ok ()"
| "verify_messages V (m # messages) =
     (if vh_protocol V (hdr m) (msg m) then verify_messages V messages else Err VerificationFailed)"

definition internally_verify_message :: "'o verification_helper \<Rightarrow> 'o PBFTMessage \<Rightarrow> (unit, VerifyError) res" where
  "internally_verify_message V message =
     (case message of
        ConsensusMsg c \<Rightarrow>
          (case cm_kind c of
             PrePrepare requests \<Rightarrow> verify_requests V requests
           | Prepare _ \<Rightarrow> Ok ()
           | Commit _ \<Rightarrow> Ok ())
      | ViewChangeMsg vc \<Rightarrow>
          (case vc_kind vc of
             Stop timed_out_req \<Rightarrow> verify_requests V timed_out_req
           | StopQuorumJoin _ \<Rightarrow> Ok ()
           | StopData _ \<Rightarrow> Ok ()
           | Sync leader_collects \<Rightarrow>
               (let fwd = lc_proposed leader_collects in
                if vh_protocol V (fwd_header fwd) (ConsensusMsg (fwd_consensus_msg fwd))
                then verify_messages V (lc_collects leader_collects)
                else Err VerificationFailed))
      | ObserverMsg _ \<Rightarrow> Ok ())"

definition verify_proof :: "'o verification_helper \<Rightarrow> 'o Proof \<Rightarrow> ('o Proof, VerifyError) res" where
  "verify_proof V p =
     (case into_parts p of
        (metadata, messages) \<Rightarrow>
          res_bind (verify_messages V messages) (\<lambda>_.
            case init_from_messages metadata messages of
              Ok p \<Rightarrow> Ok p
            | Err e \<Rightarrow> Err (OfProof e)
            | Panic \<Rightarrow> Panic))"

lemma verify_messages_eq:
  "verify_messages V ms = (if list_all (\<lambda>m. vh_protocol V (hdr m) (msg m)) ms then Ok () else Err VerificationFailed)"
  by (induction ms) auto

lemma verify_requests_eq:
  "verify_requests V rqs = (if list_all (\<lambda>r. vh_request V (hdr r) (msg r)) rqs then Ok () else Err VerificationFailed)"
  by (induction rqs) auto

definition carried_requests :: "'o PBFTMessage \<Rightarrow> 'o Request StoredMessage list" where
  \<comment> \<open>the client requests inside a message\<close>
  "carried_requests m =
     (case m of
        ConsensusMsg c \<Rightarrow> (case cm_kind c of PrePrepare requests \<Rightarrow> requests | _ \<Rightarrow> [])
      | ViewChangeMsg vc \<Rightarrow> (case vc_kind vc of Stop requests \<Rightarrow> requests | _ \<Rightarrow> [])
      | ObserverMsg _ \<Rightarrow> [])"

definition forwarded_messages :: "'o PBFTMessage \<Rightarrow> 'o StoredConsensusMessage list" where
  \<comment> \<open>the protocol messages of other replicas inside a \<open>SYNC\<close>\<close>
  "forwarded_messages m =
     (case m of
        ViewChangeMsg vc \<Rightarrow>
          (case vc_kind vc of
             Sync lc \<Rightarrow> StoredMessage (fwd_header (lc_proposed lc)) (ConsensusMsg (fwd_consensus_msg (lc_proposed lc))) # lc_collects lc
           | _ \<Rightarrow> [])
      | _ \<Rightarrow> [])"

lemma internally_verify_message_cases:
  \<comment> \<open>the content of a message is accepted exactly when each request and each forwarded message is;
     the proof and the incomplete proof inside a \<open>STOP-DATA\<close> are not looked at\<close>
  "internally_verify_message V m =
     (if list_all (\<lambda>r. vh_request V (hdr r) (msg r)) (carried_requests m) \<and>
         list_all (\<lambda>p. vh_protocol V (hdr p) (msg p)) (forwarded_messages m)
      then Ok () else Err VerificationFailed)"
  by (auto simp: internally_verify_message_def carried_requests_def forwarded_messages_def verify_messages_eq
      verify_requests_eq Let_def split: PBFTMessage.split ConsensusMessageKind.split ViewChangeMessageKind.split)

subsection \<open>What a rebuilt proof looks like\<close>

definition slots_from :: "Digest list \<Rightarrow> 'o StoredConsensusMessage set \<Rightarrow> 'o StoredConsensusMessage option list \<Rightarrow> bool" where
  \<comment> \<open>each filled slot has a batch whose digest stands there for the first time\<close>
  "slots_from ord S slots \<longleftrightarrow> length slots = length ord \<and>
     (\<forall>i x. i < length ord \<longrightarrow> slots ! i = Some x \<longrightarrow>
        x \<in> S \<and> is_pre_prepare_msg x \<and> msg_digest x = ord ! i \<and> (\<forall>j < i. ord ! j \<noteq> ord ! i))"

lemma slots_from_update:
  assumes "slots_from ord S slots" and "position (\<lambda>d. msg_digest x = d) ord = Some i" and "is_pre_prepare_msg x"
  shows "slots_from ord (insert x S) (slots[i := Some x])"
  using assms by (auto simp: slots_from_def position_Some_iff nth_list_update)

lemma init_loop_shape:
  assumes "init_from_messages_loop ord ms (slots, ps, cs) = Ok (slots', ps', cs')" and "slots_from ord S slots"
    and "list_all is_prepare_msg ps" and "list_all is_commit_msg cs" and "set ps \<union> set cs \<subseteq> S"
  shows "slots_from ord (S \<union> set ms) slots' \<and> list_all is_prepare_msg ps' \<and> list_all is_commit_msg cs' \<and>
    set ps' \<union> set cs' \<subseteq> S \<union> set ms"
  using assms
proof (induction ms arbitrary: slots ps cs S)
  case (Cons m ms)
  have "is_consensus (msg m)"
    using Cons.prems(1) by (auto simp: init_from_messages_loop.simps is_consensus_def split: PBFTMessage.splits)
  then consider (pp) "is_pre_prepare_msg m" | (p) "is_prepare_msg m" | (c) "is_commit_msg m" using kind_cases by blast
  then show ?case
  proof cases
    case pp
    then obtain i where i: "position (\<lambda>d. msg_digest m = d) ord = Some i"
        "init_from_messages_loop ord ms (slots[i := Some m], ps, cs) = Ok (slots', ps', cs')"
      using Cons.prems(1) by (auto simp: init_loop_step split: option.splits)
    show ?thesis
      using Cons.IH [OF i(2) slots_from_update [OF Cons.prems(2) i(1) pp] Cons.prems(3,4)] Cons.prems(5) by auto
  next
    case p
    have s: "slots_from ord (insert m S) slots" using Cons.prems(2) by (auto simp: slots_from_def)
    show ?thesis
      using Cons.IH [OF _ s, of "ps @ [m]" cs] p Cons.prems by (auto simp: init_loop_step)
  next
    case c
    have s: "slots_from ord (insert m S) slots" using Cons.prems(2) by (auto simp: slots_from_def)
    show ?thesis
      using Cons.IH [OF _ s, of ps "cs @ [m]"] c Cons.prems by (auto simp: init_loop_step)
  qed
qed simp

lemma all_or_incomplete_Ok: "all_or_incomplete slots = Ok xs \<Longrightarrow> slots = map Some xs"
  by (induction slots arbitrary: xs rule: all_or_incomplete.induct) (auto simp: res_map_def split: res.splits)

lemma init_from_messages_wf:
  assumes "init_from_messages md ms = Ok p"
  shows "proof_wf p \<and> pf_metadata p = md \<and> set (pf_pre_prepares p) \<union> set (pf_prepares p) \<union> set (pf_commits p) \<subseteq> set ms"
proof -
  let ?ord = "pm_pre_prepare_ordering md"
  obtain slots ps cs pps where l: "init_from_messages_loop ?ord ms (replicate (length ?ord) None, [], []) = Ok (slots, ps, cs)"
      and a: "all_or_incomplete slots = Ok pps" and p: "p = Proof md pps ps cs"
    using assms by (auto simp: init_from_messages_def res_bind_Ok_iff)
  have shape: "slots_from ?ord (set ms) slots" "list_all is_prepare_msg ps" "list_all is_commit_msg cs" "set ps \<union> set cs \<subseteq> set ms"
    using init_loop_shape [OF l, of "{}"] by (simp_all add: slots_from_def)
  have slots: "slots = map Some pps" by (rule all_or_incomplete_Ok [OF a])
  have len: "length pps = length ?ord" using shape(1) slots by (simp add: slots_from_def)
  have el: "pps ! i \<in> set ms" "is_pre_prepare_msg (pps ! i)" "msg_digest (pps ! i) = ?ord ! i" "j < i \<Longrightarrow> ?ord ! j \<noteq> ?ord ! i"
    if "i < length ?ord" for i j
    using shape(1) that slots len by (auto simp: slots_from_def)
  have "map msg_digest pps = ?ord" using el(3) len by (auto intro: nth_equalityI)
  moreover have "distinct ?ord" using el(4) by (metis distinct_conv_nth linorder_neqE_nat)
  moreover have "list_all is_pre_prepare_msg pps" "set pps \<subseteq> set ms" using el(1,2) len by (auto simp: list_all_length in_set_conv_nth)
  ultimately show ?thesis using shape p by (auto simp: proof_wf_def)
qed

abbreviation messages_accepted :: "'o verification_helper \<Rightarrow> 'o Proof \<Rightarrow> bool" where
  "messages_accepted V p \<equiv> list_all (\<lambda>m. vh_protocol V (hdr m) (msg m)) (snd (into_parts p))"

lemma verify_proof_eq:
  "verify_proof V p =
     (if messages_accepted V p
      then (case init_from_messages (pf_metadata p) (snd (into_parts p)) of
              Ok p \<Rightarrow> Ok p | Err e \<Rightarrow> Err (OfProof e) | Panic \<Rightarrow> Panic)
      else Err VerificationFailed)"
  by (simp add: verify_proof_def verify_messages_eq into_parts_def)

text \<open>
  C36. Verified proofs. If \<open>verify_proof\<close> accepts a proof, the helper has accepted every message of
  it, and the proof it returns has the same metadata, only messages of the given proof, one batch
  for each announced digest in the announced order, no digest twice, and only \<open>PREPARE\<close>s and
  \<open>COMMIT\<close>s beside them. If it refuses a proof, the helper has refused a message or the proof is not
  well formed; a well-formed proof of accepted messages is returned as it is.
\<close>

theorem verify_proof_correct:
  "(\<forall>p'. verify_proof V p = Ok p' \<longrightarrow>
      messages_accepted V p \<and> proof_wf p' \<and> pf_metadata p' = pf_metadata p \<and>
      set (pf_pre_prepares p') \<union> set (pf_prepares p') \<union> set (pf_commits p') \<subseteq> set (snd (into_parts p))) \<and>
   (messages_accepted V p \<longrightarrow> proof_wf p \<longrightarrow> verify_proof V p = Ok p) \<and>
   (\<not> messages_accepted V p \<longrightarrow> verify_proof V p = Err VerificationFailed)"
proof (intro conjI allI impI)
  fix p'
  assume "verify_proof V p = Ok p'"
  then have "messages_accepted V p" "init_from_messages (pf_metadata p) (snd (into_parts p)) = Ok p'"
    by (auto simp: verify_proof_eq split: if_split_asm res.split_asm)
  with init_from_messages_wf show "messages_accepted V p" "proof_wf p'" "pf_metadata p' = pf_metadata p"
    "set (pf_pre_prepares p') \<union> set (pf_prepares p') \<union> set (pf_commits p') \<subseteq> set (snd (into_parts p))" by blast+
qed (simp_all add: verify_proof_eq init_from_parts)

definition sample_helper :: "nat verification_helper" where
  \<comment> \<open>accepts what the replicas 0 to 3 sent\<close>
  "sample_helper = \<lparr> vh_request = \<lambda>h r. True, vh_protocol = \<lambda>h m. hdr_from h < 4 \<rparr>"

theorem verify_proof_correct_witness:
  "verify_proof sample_helper sample_proof = Ok sample_proof \<and> proof_wf sample_proof \<and>
   verify_proof (sample_helper\<lparr>vh_protocol := \<lambda>h m. hdr_from h \<noteq> 2\<rparr>) sample_proof = Err VerificationFailed"
proof -
  have wf: "proof_wf sample_proof"
    by (simp add: sample_proof_def proof_wf_def sample_pre_prepare_def sample_prepare_def sample_commit_def
        is_pre_prepare_msg_def is_prepare_msg_def is_commit_msg_def is_consensus_def)
  have "messages_accepted sample_helper sample_proof"
    "\<not> messages_accepted (sample_helper\<lparr>vh_protocol := \<lambda>h m. hdr_from h \<noteq> 2\<rparr>) sample_proof"
    by (simp_all add: sample_helper_def sample_proof_def into_parts_def sample_pre_prepare_def sample_prepare_def
        sample_commit_def)
  with wf show ?thesis
    using verify_proof_correct [of sample_helper sample_proof]
      verify_proof_correct [of "sample_helper\<lparr>vh_protocol := \<lambda>h m. hdr_from h \<noteq> 2\<rparr>" sample_proof] by blast
qed

end
