(* ===== verification/Spec2Isabelle.thy ===== *)
theory Spec2Isabelle
  imports Agreement ConsensusRuns StateTransferSafety SyncExample OrderExample ProposerSafety Verification
begin

text \<open>
  A verification library for febft, a Byzantine fault tolerant ordering protocol in Rust with its
  state transfer: the crates \<open>src/febft-pbft-consensus\<close> and \<open>src/febft-state-transfer\<close>. Paths of
  the form \<open>bft/...\<close> are below \<open>src/febft-pbft-consensus/src\<close>.

  \<^bold>\<open>The program.\<close> A replica runs \<open>PBFTOrderProtocol\<close> (\<open>bft/mod.rs\<close>). In its normal phase it gives
  messages to the consensus handler (\<open>bft/consensus/mod.rs\<close>), which runs a window of consecutive
  instances (\<open>bft/consensus/decision\<close>). Each instance collects the batches of the leaders, then
  \<open>PREPARE\<close>s, then \<open>COMMIT\<close>s in its log (\<open>bft/log/deciding\<close>) and sends its own votes through the accessory
  (\<open>bft/consensus/accessory\<close>). Decided instances leave the window in order, their proofs are
  kept (\<open>bft/log\<close>) and their batches go to the executor. When requests time out the synchronizer
  (\<open>bft/sync\<close>) changes the view: replicas exchange \<open>STOP\<close>s, send \<open>STOP-DATA\<close> to the new leader, and
  the leader's \<open>SYNC\<close> makes all of them compute from the same data what the new view begins with. A
  thread of its own, the proposer (\<open>bft/proposer\<close>), collects client requests and proposes batches;
  it shares the guard of the consensus handler. A replica that is behind fetches a checkpoint with the
  state transfer protocol.

  \<^bold>\<open>Conventions.\<close> An operation is a function from the state to the new state, the list of what it
  hands to the network, the time-outs and the log, in order, and its result. The result is a \<open>res\<close>:
  \<open>Ok\<close>, \<open>Err\<close> for an error value, \<open>Panic\<close> for \<open>unwrap\<close>, \<open>expect\<close>, \<open>unreachable!\<close>, \<open>todo!\<close>, an
  index out of range and a failed assertion. The release profile aborts on a panic and lets arithmetic wrap. Structures
  are records or one-constructor datatypes with prefixed fields, enumerations are datatypes with the
  constructors of the source; a name that occurs twice in the source carries a prefix of its type
  (\<open>cs_poll\<close>, \<open>dn_poll\<close>, \<open>sy_poll\<close>). Code outside the repository is a parameter: \<open>atlas\<close>
  for numbers, parameters and digests, \<open>tbo\<close> for the queues of queues, \<open>cst_env\<close>, \<open>sync_env\<close>,
  \<open>order_env\<close>, \<open>proposer_env\<close> and \<open>verification_helper\<close> for the calls of one component. What is relied on
  is a named predicate (\<open>params_laws\<close>, \<open>seq_laws\<close>, \<open>tbo_laws\<close>, \<open>env_laws\<close>, \<open>iter_laws\<close>, \<open>merge_laws\<close>,
  \<open>order_laws\<close>) and holds of the concrete samples of the theories. Iteration of hash maps, clock
  readings, nonces and outcomes of calls are arguments that may differ from call to call.

  \<^bold>\<open>Theories.\<close>
  \<^item> \<open>Prelude\<close>: outcomes, lists, the heap of the standard library with its contract \<open>min_heap\<close>;
    \<open>Atlas\<close>: the interface of the framework.
  \<^item> \<open>Views\<close> (\<open>bft/sync/view\<close>): constructors and neighbours of views are well formed, the hash
    space is partitioned among the leaders. \<open>Quorums\<close> (\<open>bft/mod.rs\<close>): locale
    \<open>quorum_system\<close>, when quorums meet in a correct replica.
  \<^item> \<open>Messages\<close> (\<open>bft/message\<close>, \<open>bft/log/decisions\<close>); \<open>Verification\<close> (\<open>bft/message/serialize\<close>): what
    is accepted from the network and which proofs.
  \<^item> \<open>WorkingLog\<close> (\<open>bft/log/deciding\<close>): invariant \<open>wl_inv\<close>, locale \<open>vote_collector\<close>, votes count once
    per sender. \<open>Decisions\<close> (\<open>bft/log\<close>): proofs are rebuilt and installed.
  \<^item> \<open>DecisionInstance\<close> (\<open>bft/consensus/decision\<close>, \<open>bft/consensus/accessory\<close>): invariant \<open>dn_inv\<close> over all
    interleavings with the background task, votes for one digest, quorums behind a decision, proofs that reproduce it.
    \<open>Agreement\<close>: two correct replicas decide the same, and progress of the commit phase.
  \<^item> \<open>Guard\<close>, \<open>ConsensusHandler\<close> (\<open>bft/consensus/mod.rs\<close>): the signals (locale \<open>priority_set\<close>, a refinement of a set), the guard
    and the handler. \<open>ConsensusWindow\<close> has the invariant \<open>cs_inv\<close>, \<open>ConsensusSafety\<close> shows that each operation keeps it
    and does not panic, \<open>ConsensusRuns\<close> total order, that polling ends and no message is left behind or lost, in every run.
  \<^item> \<open>Soundness\<close>, \<open>SyncState\<close>, \<open>ReplicaSync\<close>, \<open>Synchronizer\<close> (\<open>bft/sync\<close>): the predicates on \<open>STOP-DATA\<close>,
    the state, the replica's and follower's side and the state machine. \<open>SyncRuns\<close> shows which \<open>STOP\<close>s a
    view change needs and that leader and replicas compute the same, \<open>SyncLimits\<close> where the code does
    not do what the protocol needs, \<open>SyncExample\<close> a system of four replicas.
  \<^item> \<open>OrderProtocol\<close> (\<open>bft/mod.rs\<close>): the composition. \<open>OrderDelivery\<close>: what reaches the executor is in
    order and complete. \<open>OrderRuns\<close>: the invariant that ties the phases and the guard, when polling
    returns. \<open>OrderExample\<close>: concrete runs.
  \<^item> \<open>Proposer\<close> (\<open>bft/proposer\<close>, \<open>bft/config\<close>) and \<open>ProposerSafety\<close>: when and what is proposed.
  \<^item> \<open>StateTransfer\<close> (\<open>febft-state-transfer/src/lib.rs\<close>, \<open>message/mod.rs\<close>) and \<open>StateTransferSafety\<close>: what an
    installed state is backed by, that matching replies end a transfer, that requests are answered.
  \<^item> This theory: the proposer beside the runs of the protocol.

  \<^bold>\<open>Bounds and termination.\<close> No function has fuel. Loops are recursive functions with a
  termination proof, except \<open>poll_normal_phase\<close>, which need not return and is a partial function; when it
  returns is a theorem. Sequence numbers wrap; theorems about windows of consecutive numbers are for numbers below a bound
  under which they do not (\<open>seq_laws\<close>, \<open>handler_laws\<close>), while messages may carry any number. Sizes that are bounded by
  what is held in memory are naturals.

  \<^bold>\<open>Assumptions of runs.\<close> The runs of \<open>ConsensusRuns\<close> cover every operation of the handler; callers pass the view the handler has,
  except where they change it (\<open>finalize_view_change\<close>, \<open>catch_up_to_quorum\<close>, \<open>install_view\<close>). A round of the proposer has one
  reading of the clock. The runs of \<open>SyncRuns\<close> install a view by state transfer and join a quorum only
  while no \<open>STOP\<close> is stored; \<open>SyncLimits\<close> shows what happens otherwise. \<open>Agreement\<close> is for one view and one
  instance; agreement across view changes does not follow from the code, since the value that the
  collects bind is not enforced (\<open>SyncLimits\<close>).

  \<^bold>\<open>Not modelled.\<close> Serialisation (\<open>bft/message/serialize/serde\<close> calls a third-party crate;
  \<open>capnp\<close> is behind a feature, needs generated code and does not fit the present types),
  \<open>bft/proposer/follower_proposer\<close> and the wire types of the state transfer (their functions are \<open>todo!\<close>),
  \<open>bft/observer\<close> (a channel handle), metrics, logging and time stamps, \<open>Debug\<close> and \<open>Clone\<close> instances,
  the start of threads. Locks protect whole operations and have no state; the interleavings
  of threads are explicit steps (the speculative commits, the guard) or parameters (the proposer's
  accesses to the guard).
\<close>

section \<open>The proposer beside the protocol\<close>



end
